(* ===== verification/Prelude.thy ===== *)
theory Prelude
  imports Main "HOL-Library.Word" "HOL-Library.Monad_Syntax"
begin

text \<open>
  Shared vocabulary of the development: the machine types of the Windows x64 build
  (\<^verbatim>\<open>BYTE\<close>, \<^verbatim>\<open>DWORD\<close>, \<^verbatim>\<open>SOCKET\<close>), guarded access to raw memory, little- and big-endian
  integers, and the list and word lemmas that several components use.

  A computation that may read or write outside an allocated object, or dereference a null
  or dangling pointer, has an \<open>option\<close> result: \<^const>\<open>None\<close> is undefined behaviour of the C++
  program, never a value the code returns.
\<close>

unbundle bit_operations_syntax

type_synonym byte = "8 word"
type_synonym DWORD = "32 word"
type_synonym SOCKET = "64 word"

abbreviation INVALID_SOCKET :: SOCKET where
  "INVALID_SOCKET \<equiv> - 1"

subsection \<open>Guarded access to a block of memory\<close>

text \<open>\<open>mem_at m i\<close> is \<^verbatim>\<open>m[i]\<close>; \<open>mem_range m i n\<close> is the source of a \<^verbatim>\<open>memcpy\<close> of \<open>n\<close> bytes from
  \<open>m + i\<close>; \<open>mem_write m i bs\<close> is a \<^verbatim>\<open>memcpy\<close> into \<open>m + i\<close>.\<close>

definition mem_at :: "'a list \<Rightarrow> nat \<Rightarrow> 'a option" where
  "mem_at m i = (if i < length m then Some (m ! i) else None)"

definition mem_range :: "'a list \<Rightarrow> nat \<Rightarrow> nat \<Rightarrow> 'a list option" where
  "mem_range m i n = (if i + n \<le> length m then Some (take n (drop i m)) else None)"

definition mem_write :: "'a list \<Rightarrow> nat \<Rightarrow> 'a list \<Rightarrow> 'a list option" where
  "mem_write m i bs =
     (if i + length bs \<le> length m then Some (take i m @ bs @ drop (i + length bs) m) else None)"

lemma mem_at_Some [simp]: "i < length m \<Longrightarrow> mem_at m i = Some (m ! i)"
  by (simp add: mem_at_def)

lemma mem_range_Some [simp]: "i + n \<le> length m \<Longrightarrow> mem_range m i n = Some (take n (drop i m))"
  by (simp add: mem_range_def)

lemma mem_write_Some [simp]:
  "i + length bs \<le> length m \<Longrightarrow> mem_write m i bs = Some (take i m @ bs @ drop (i + length bs) m)"
  by (simp add: mem_write_def)

lemma mem_at_eq_Some: "mem_at m i = Some x \<longleftrightarrow> i < length m \<and> x = m ! i"
  by (auto simp: mem_at_def)

lemma mem_range_eq_Some: "mem_range m i n = Some xs \<longleftrightarrow> i + n \<le> length m \<and> xs = take n (drop i m)"
  by (auto simp: mem_range_def)

subsection \<open>Integers in memory\<close>

text \<open>The value of a byte string read least significant byte first.\<close>

fun le_nat :: "byte list \<Rightarrow> nat" where
  "le_nat [] = 0"
| "le_nat (b # bs) = unat b + 256 * le_nat bs"

lemma le_nat_bound: "le_nat bs < 256 ^ length bs"
proof (induction bs)
  case Nil
  then show ?case by simp
next
  case (Cons b bs)
  have "unat b < 256" using unsigned_less [of b] by simp
  with Cons show ?case by simp
qed

fun nat_le :: "nat \<Rightarrow> nat \<Rightarrow> byte list" where
  "nat_le 0 n = []"
| "nat_le (Suc k) n = of_nat (n mod 256) # nat_le k (n div 256)"

lemma length_nat_le [simp]: "length (nat_le k n) = k"
  by (induction k arbitrary: n) auto

lemma le_nat_nat_le: "n < 256 ^ k \<Longrightarrow> le_nat (nat_le k n) = n"
proof (induction k arbitrary: n)
  case 0
  then show ?case by simp
next
  case (Suc k)
  have "unat (of_nat (n mod 256) :: byte) = n mod 256"
    by (simp add: unat_of_nat)
  moreover have "n div 256 < 256 ^ k"
    using Suc.prems by (simp add: less_mult_imp_div_less mult.commute)
  ultimately show ?case using Suc.IH by simp
qed

lemma nat_le_le_nat: "nat_le (length bs) (le_nat bs) = bs"
proof (induction bs)
  case Nil
  then show ?case by simp
next
  case (Cons b bs)
  have "unat b < 256" using unsigned_less [of b] by simp
  then have "(unat b + 256 * le_nat bs) mod 256 = unat b" and "(unat b + 256 * le_nat bs) div 256 = le_nat bs"
    by simp_all
  with Cons show ?case by simp
qed

subsection \<open>Words and natural numbers\<close>

lemma sint_small:
  fixes w :: "32 word"
  assumes "unat w < 2 ^ 31"
  shows "sint w = int (unat w)"
proof -
  have "int (unat w) < int (2 ^ 31)" using assms by (simp only: of_nat_less_iff)
  then have "uint w < 2 ^ 31" by simp
  moreover have "- (2 ^ 31) \<le> uint w" by (rule order_trans [of _ 0]) simp_all
  ultimately have "signed_take_bit 31 (uint w) = uint w"
    by (intro signed_take_bit_int_eq_self)
  moreover have "sint w = signed_take_bit 31 (uint w)" by (subst sint_uint) simp
  ultimately show ?thesis by simp
qed

lemma unat_add_small:
  fixes a b :: "32 word"
  assumes "unat a + unat b < 2 ^ 32"
  shows "unat (a + b) = unat a + unat b"
  using assms by (simp add: unat_word_ariths)

lemma unat_of_nat_small: "n < 2 ^ 32 \<Longrightarrow> unat (of_nat n :: 32 word) = n"
  by (simp add: unat_of_nat)

lemma unat_less_64: "unat (w :: 64 word) < 2 ^ 64"
  using unsigned_less [of w] by simp

subsection \<open>Lists\<close>

lemma take_drop_split: "i \<le> j \<Longrightarrow> take j xs = take i xs @ take (j - i) (drop i xs)"
  by (metis le_add_diff_inverse take_add)

lemma take_two_drop: "k + 2 \<le> length xs \<Longrightarrow> take 2 (drop k xs) = [xs ! k, xs ! (k + 1)]"
  by (auto intro!: nth_equalityI simp: less_Suc_eq_0_disj eval_nat_numeral)

subsection \<open>Narrowing and widening\<close>

lemma ucast_ucast_small:
  fixes d :: "64 word"
  assumes "unat d < 2 ^ LENGTH('a::len)"
  shows "ucast (ucast d :: 'a word) = d"
  using assms by (simp add: word_unat_eq_iff unsigned_ucast_eq unsigned_take_bit_eq take_bit_nat_eq_self)

lemma scast_ucast_small:
  fixes d :: "64 word"
  assumes "LENGTH('a::len) \<le> 64" and "- (2 ^ (LENGTH('a) - 1)) \<le> sint d" and "sint d < 2 ^ (LENGTH('a) - 1)"
  shows "scast (ucast d :: 'a word) = d"
proof -
  have "sint (ucast d :: 'a word) = signed_take_bit (LENGTH('a) - 1) (uint d)"
    by (simp add: sint_uint unsigned_ucast_eq signed_take_bit_take_bit)
  also have "uint d = take_bit 64 (sint d)" by (simp add: uint_sint)
  also have "signed_take_bit (LENGTH('a) - 1) (take_bit 64 (sint d)) = sint d"
    using assms by (simp add: signed_take_bit_take_bit signed_take_bit_int_eq_self)
  finally have "sint (ucast d :: 'a word) = sint d" .
  then show ?thesis by (simp add: scast_eq)
qed

subsection \<open>The C allocator\<close>

text \<open>\<^verbatim>\<open>malloc\<close> and \<^verbatim>\<open>realloc\<close> for 64-bit sizes: the system grants a request or not, and the bytes of a
  new block are indeterminate.\<close>

record heap_env =
  grants :: "64 word \<Rightarrow> bool"
  junk :: "nat \<Rightarrow> byte"

definition malloc :: "heap_env \<Rightarrow> 64 word \<Rightarrow> byte list option" where
  "malloc h n = (if grants h n then Some (map (junk h) [0..<unat n]) else None)"

definition realloc :: "heap_env \<Rightarrow> byte list \<Rightarrow> 64 word \<Rightarrow> byte list option" where
  "realloc h old n =
     (case malloc h n of None \<Rightarrow> None
      | Some b \<Rightarrow> Some (take (unat n) old @ drop (length old) b))"

lemma malloc_length: "malloc h n = Some b \<Longrightarrow> length b = unat n"
  by (auto simp: malloc_def split: if_splits)

lemma realloc_grow:
  assumes "realloc h old n = Some b" and "length old \<le> unat n"
  shows "length b = unat n" and "take (length old) b = old"
  using assms malloc_length [of h n] by (auto simp: realloc_def split: option.splits)

end
