(* ===== verification/Recv_Sock.thy ===== *)
theory Recv_Sock
  imports Prelude
begin

text \<open>
  The per-connection object \<^verbatim>\<open>RECV_SOCK\<close> of \<^verbatim>\<open>CustomersCardMS/ms_data.h\<close>: a circular receive
  buffer with its read and write positions, the framing scanner \<^verbatim>\<open>GetCmdDataLength\<close>, the copy
  out \<^verbatim>\<open>Read\<close>, the reference count and the send queue. Positions, sizes and lengths are
  \<^typ>\<open>DWORD\<close>s with the wrap-around of the code.
\<close>

type_synonym addr = nat

abbreviation (input) NULL :: addr where
  "NULL \<equiv> 0"

text \<open>A \<^verbatim>\<open>WSABUF\<close> of a \<^verbatim>\<open>RECV_SOCK\<close>: \<^const>\<open>None\<close> is a null \<^verbatim>\<open>buf\<close>, \<open>Some i\<close> is \<^verbatim>\<open>buf + i\<close>.\<close>

record wsabuf =
  wb_buf :: "nat option"
  wb_len :: DWORD

record recv_sock =
  rs_nKey :: int
  rs_sock :: SOCKET
  lstSend :: "addr list option"
  wsabuf0 :: wsabuf
  wsabuf1 :: wsabuf
  dwBufsize :: DWORD
  dwWritepos :: DWORD
  dwReadpos :: DWORD
  dwRightsize :: DWORD
  dwLeftsize :: DWORD
  bFull :: bool
  bEmpty :: bool
  rs_sum :: byte
  nRef :: "32 word"
  buf :: "byte list"

subsection \<open>Operations\<close>

text \<open>\<^verbatim>\<open>Init\<close> closes a socket left in the object; the third component lists the closed sockets.
  A null \<^verbatim>\<open>lstSend\<close> is dereferenced by \<^verbatim>\<open>lstSend->clear()\<close>.\<close>

definition RSock_Init :: "DWORD \<Rightarrow> recv_sock \<Rightarrow> (recv_sock \<times> SOCKET list) option" where
  "RSock_Init bufsize rs =
     (case lstSend rs of
        None \<Rightarrow> None
      | Some q \<Rightarrow>
          Some (rs\<lparr>rs_nKey := 0, rs_sock := INVALID_SOCKET, dwBufsize := bufsize, dwWritepos := 0,
                   dwReadpos := 0, dwRightsize := 0, dwLeftsize := 0, bFull := False, bEmpty := True,
                   rs_sum := 0, nRef := 1, lstSend := Some []\<rparr>,
                if rs_sock rs \<noteq> INVALID_SOCKET then [rs_sock rs] else []))"

definition RSock_Clear :: "recv_sock \<Rightarrow> recv_sock" where
  "RSock_Clear rs = (if lstSend rs \<noteq> None then rs\<lparr>lstSend := None\<rparr> else rs)"

definition InitRLsize :: "recv_sock \<Rightarrow> recv_sock" where
  "InitRLsize rs =
     (if bFull rs then rs\<lparr>dwRightsize := 0, dwLeftsize := 0\<rparr>
      else if dwReadpos rs \<le> dwWritepos rs
      then rs\<lparr>dwRightsize := dwBufsize rs - dwWritepos rs, dwLeftsize := dwReadpos rs\<rparr>
      else rs\<lparr>dwRightsize := dwReadpos rs - dwWritepos rs, dwLeftsize := 0\<rparr>)"

definition InitWSABUFS :: "recv_sock \<Rightarrow> recv_sock" where
  "InitWSABUFS rs =
     (let rs = InitRLsize rs in
      rs\<lparr>wsabuf0 := \<lparr>wb_buf = Some (unat (dwWritepos rs)), wb_len = dwRightsize rs\<rparr>,
         wsabuf1 := \<lparr>wb_buf = Some 0, wb_len = dwLeftsize rs\<rparr>\<rparr>)"

definition InitWRpos :: "DWORD \<Rightarrow> recv_sock \<Rightarrow> recv_sock" where
  "InitWRpos dwTranstion rs =
     (if dwTranstion \<le> 0 then rs
      else if bFull rs then rs
      else let w = (if dwTranstion > dwRightsize rs then dwTranstion - dwRightsize rs
                    else dwWritepos rs + dwTranstion)
           in rs\<lparr>dwWritepos := w, bFull := (w = dwReadpos rs), bEmpty := False\<rparr>)"

text \<open>\<^verbatim>\<open>csum\<close> adds \<open>count\<close> bytes from \<open>buf + a\<close> to \<open>rs_sum\<close>; the count is an \<^verbatim>\<open>int\<close>, so a
  negative one adds nothing.\<close>

fun csum_loop :: "byte list \<Rightarrow> nat \<Rightarrow> nat \<Rightarrow> byte \<Rightarrow> byte option" where
  "csum_loop m a 0 s = Some s"
| "csum_loop m a (Suc n) s = do { b \<leftarrow> mem_at m a; csum_loop m (Suc a) n (s + b) }"

definition csum :: "nat \<Rightarrow> int \<Rightarrow> recv_sock \<Rightarrow> (byte \<times> recv_sock) option" where
  "csum a count rs = do {
     s \<leftarrow> csum_loop (buf rs) a (nat count) (rs_sum rs);
     Some (s, rs\<lparr>rs_sum := s\<rparr>) }"

text \<open>\<^verbatim>\<open>*(INT*)(m + i)\<close>, stored into a \<^verbatim>\<open>DWORD\<close>.\<close>

definition load_INT :: "byte list \<Rightarrow> nat \<Rightarrow> DWORD option" where
  "load_INT m i = do { bs \<leftarrow> mem_range m i 4; Some (of_nat (le_nat bs)) }"

definition no_header :: "byte list \<Rightarrow> nat \<Rightarrow> nat \<Rightarrow> bool option" where
  "no_header m i j = do {
     b0 \<leftarrow> mem_at m i;
     if b0 \<noteq> 0xfb then Some True
     else do { b1 \<leftarrow> mem_at m j; Some (b1 \<noteq> 0xfc) } }"

definition drop_conn :: "recv_sock \<Rightarrow> DWORD \<times> recv_sock \<times> SOCKET list" where
  "drop_conn rs = (0, rs\<lparr>rs_sock := INVALID_SOCKET\<rparr>, [rs_sock rs])"

text \<open>The three layouts of \<^verbatim>\<open>GetCmdDataLength\<close>: data in one piece, a header that crosses the end
  of the buffer, and a header in one piece with the data crossing the end.\<close>

definition GetCmdDataLength_linear :: "recv_sock \<Rightarrow> (DWORD \<times> recv_sock \<times> SOCKET list) option" where
  "GetCmdDataLength_linear rs =
     (let nDataNum = dwWritepos rs - dwReadpos rs; r = dwReadpos rs in
      if nDataNum < 6 then Some (0, rs, [])
      else do {
        bad \<leftarrow> no_header (buf rs) (unat r) (unat (r + 1));
        if bad then Some (drop_conn rs)
        else do {
          dwFrameLen \<leftarrow> load_INT (buf rs) (unat r + 2);
          if dwFrameLen + 8 > nDataNum then Some (0, rs, [])
          else do {
            nSum \<leftarrow> mem_at (buf rs) (unat (r + 6 + dwFrameLen));
            (s, rs) \<leftarrow> csum (unat r + 6) (sint dwFrameLen) rs;
            if nSum \<noteq> s then Some (drop_conn rs)
            else do {
              e \<leftarrow> mem_at (buf rs) (unat (r + dwFrameLen + 7));
              if 0x0d \<noteq> e then Some (drop_conn rs)
              else Some (dwFrameLen + 2, rs\<lparr>dwReadpos := r + 6\<rparr>, []) } } } })"

definition GetCmdDataLength_split :: "recv_sock \<Rightarrow> (DWORD \<times> recv_sock \<times> SOCKET list) option" where
  "GetCmdDataLength_split rs =
     (let r = dwReadpos rs; dwLeft = dwBufsize rs - r in do {
        s1 \<leftarrow> mem_range (buf rs) (unat r) (unat dwLeft);
        s2 \<leftarrow> mem_range (buf rs) 0 (unat (6 - dwLeft));
        let subchar = s1 @ s2;
        bad \<leftarrow> no_header subchar 0 1;
        if bad then Some (drop_conn rs)
        else do {
          dwFrameLen \<leftarrow> load_INT subchar 2;
          if dwFrameLen + 8 > dwLeft + dwWritepos rs
          then Some (if bFull rs then drop_conn rs else (0, rs, []))
          else do {
            let dwIndex = r + 6 - dwBufsize rs;
            nSum \<leftarrow> mem_at (buf rs) (unat (dwIndex + dwFrameLen));
            (s, rs) \<leftarrow> csum (unat dwIndex) (sint dwFrameLen) rs;
            if nSum \<noteq> s then Some (drop_conn rs)
            else do {
              e \<leftarrow> mem_at (buf rs) (unat (dwIndex + dwFrameLen + 1));
              if 0x0d \<noteq> e then Some (drop_conn rs)
              else Some (dwFrameLen + 2,
                         rs\<lparr>dwReadpos := (if r + 6 > dwBufsize rs then r + 6 - dwBufsize rs else r + 6)\<rparr>,
                         []) } } } })"

definition GetCmdDataLength_wrapped :: "recv_sock \<Rightarrow> (DWORD \<times> recv_sock \<times> SOCKET list) option" where
  "GetCmdDataLength_wrapped rs =
     (let r = dwReadpos rs; b = dwBufsize rs; dwLeft = b - r in do {
        bad \<leftarrow> no_header (buf rs) (unat r) (unat (r + 1));
        if bad then Some (drop_conn rs)
        else do {
          dwFrameLen \<leftarrow> load_INT (buf rs) (unat r + 2);
          if dwFrameLen + 8 > dwLeft + dwWritepos rs
          then Some (if bFull rs then drop_conn rs else (0, rs, []))
          else do {
            nSum \<leftarrow> mem_at (buf rs) (unat (if r + 6 + dwFrameLen \<ge> b then r + 6 + dwFrameLen - b
                                        else r + 6 + dwFrameLen));
            (s, rs) \<leftarrow>
              (if dwFrameLen + 6 > dwLeft
               then do {
                 (s', rs) \<leftarrow> csum (unat r + 6) (sint (dwLeft - 6)) rs;
                 csum 0 (sint (dwFrameLen - dwLeft + 6)) rs }
               else csum (unat r + 6) (sint dwFrameLen) rs);
            if nSum \<noteq> s then Some (drop_conn rs)
            else do {
              e \<leftarrow> mem_at (buf rs) (unat (if r + dwFrameLen + 7 \<ge> b then r + dwFrameLen + 7 - b
                                       else r + dwFrameLen + 7));
              if 0x0d \<noteq> e then Some (drop_conn rs)
              else Some (dwFrameLen + 2,
                         rs\<lparr>dwReadpos := (if r + 6 > b then r + 6 - b else r + 6)\<rparr>, []) } } } })"

definition GetCmdDataLength :: "recv_sock \<Rightarrow> (DWORD \<times> recv_sock \<times> SOCKET list) option" where
  "GetCmdDataLength rs =
     (if bEmpty rs then Some (0, rs, [])
      else let rs = rs\<lparr>rs_sum := 0\<rparr> in
        if dwWritepos rs > dwReadpos rs then GetCmdDataLength_linear rs
        else if dwBufsize rs - dwReadpos rs < 6 then GetCmdDataLength_split rs
        else GetCmdDataLength_wrapped rs)"

text \<open>\<^verbatim>\<open>Read\<close> copies \<open>dwNum\<close> bytes into a destination of the given bytes \<open>_buf\<close>; it returns the count
  and the destination after the copy.\<close>

definition Read :: "byte list \<Rightarrow> DWORD \<Rightarrow> recv_sock \<Rightarrow> (DWORD \<times> byte list \<times> recv_sock) option" where
  "Read dest dwNum rs =
     (if dwNum \<le> 0 then Some (0, dest, rs)
      else if bEmpty rs then Some (0, dest, rs)
      else let rs = rs\<lparr>bFull := False\<rparr>; r = dwReadpos rs in
        if r < dwWritepos rs
        then do {
          src \<leftarrow> mem_range (buf rs) (unat r) (unat dwNum);
          dest \<leftarrow> mem_write dest 0 src;
          Some (dwNum, dest, rs\<lparr>dwReadpos := r + dwNum, bEmpty := (r + dwNum = dwWritepos rs)\<rparr>) }
        else let leftcount = dwBufsize rs - r in
          if leftcount > dwNum
          then do {
            src \<leftarrow> mem_range (buf rs) (unat r) (unat dwNum);
            dest \<leftarrow> mem_write dest 0 src;
            Some (dwNum, dest, rs\<lparr>dwReadpos := r + dwNum, bEmpty := (r + dwNum = dwWritepos rs)\<rparr>) }
          else do {
            src \<leftarrow> mem_range (buf rs) (unat r) (unat leftcount);
            dest \<leftarrow> mem_write dest 0 src;
            let r' = dwNum - leftcount;
            src' \<leftarrow> mem_range (buf rs) 0 (unat r');
            dest \<leftarrow> mem_write dest (unat leftcount) src';
            Some (leftcount + r', dest, rs\<lparr>dwReadpos := r', bEmpty := (r' = dwWritepos rs)\<rparr>) })"

definition AddRef :: "recv_sock \<Rightarrow> recv_sock" where
  "AddRef rs = rs\<lparr>nRef := nRef rs + 1\<rparr>"

definition DecRef :: "recv_sock \<Rightarrow> recv_sock" where
  "DecRef rs = rs\<lparr>nRef := nRef rs - 1\<rparr>"

text \<open>The send queue: new data is pushed at the front, the back is being sent.\<close>

definition CheckSend :: "addr \<Rightarrow> recv_sock \<Rightarrow> (bool \<times> recv_sock) option" where
  "CheckSend data rs =
     (case lstSend rs of
        None \<Rightarrow> None
      | Some q \<Rightarrow> Some (q = [], rs\<lparr>lstSend := Some (data # q)\<rparr>))"

definition GetNextData :: "recv_sock \<Rightarrow> (addr \<times> recv_sock) option" where
  "GetNextData rs =
     (case lstSend rs of
        None \<Rightarrow> None
      | Some q \<Rightarrow>
          if q = [] then None
          else let q' = butlast q in
            Some (if q' \<noteq> [] then last q' else NULL, rs\<lparr>lstSend := Some q'\<rparr>))"

end
