(* ===== verification/Recv_Ring.thy ===== *)
theory Recv_Ring
  imports Recv_Sock
begin

text \<open>
  The circular buffer of \<^verbatim>\<open>RECV_SOCK\<close> seen as a queue of bytes. \<open>contents\<close> abstracts the
  positions and flags to the list of unread bytes; \<open>ring_ok\<close> is the invariant between the
  operations. Receiving appends to the queue, \<^verbatim>\<open>Read\<close> removes a prefix, and
  \<^verbatim>\<open>GetCmdDataLength\<close> decides the frame format of the protocol document
  (\<^verbatim>\<open>0xFB 0xFC\<close>, a 4-byte little-endian length, the body, a byte sum, \<^verbatim>\<open>0x0D\<close>) on its front.
\<close>

subsection \<open>Abstraction and invariant\<close>

definition contents :: "recv_sock \<Rightarrow> byte list" where
  "contents rs =
     (let r = unat (dwReadpos rs); w = unat (dwWritepos rs) in
      if bEmpty rs then []
      else if r < w then take (w - r) (drop r (buf rs))
      else drop r (buf rs) @ take w (buf rs))"

text \<open>\<open>ring_shape\<close> also holds in the middle of a message, between \<^verbatim>\<open>GetCmdDataLength\<close> and
  \<^verbatim>\<open>Read\<close>, when the full flag is stale.\<close>

definition ring_shape :: "recv_sock \<Rightarrow> bool" where
  "ring_shape rs \<longleftrightarrow>
     length (buf rs) = unat (dwBufsize rs) \<and> unat (dwBufsize rs) < 2 ^ 31 \<and>
     unat (dwReadpos rs) \<le> unat (dwBufsize rs) \<and> unat (dwWritepos rs) \<le> unat (dwBufsize rs) \<and>
     (bEmpty rs \<longrightarrow> dwReadpos rs = dwWritepos rs) \<and> (\<not> bEmpty rs \<longrightarrow> dwWritepos rs \<noteq> 0)"

definition ring_ok :: "recv_sock \<Rightarrow> bool" where
  "ring_ok rs \<longleftrightarrow> ring_shape rs \<and> \<not> (bFull rs \<and> bEmpty rs) \<and>
     (bFull rs \<longrightarrow> dwReadpos rs = dwWritepos rs) \<and>
     (dwReadpos rs = dwWritepos rs \<longrightarrow> bFull rs \<or> bEmpty rs)"

text \<open>The place in the buffer of the \<open>k\<close>-th unread byte.\<close>

definition ring_idx :: "recv_sock \<Rightarrow> nat \<Rightarrow> nat" where
  "ring_idx rs k =
     (let i = unat (dwReadpos rs) + k in
      if i < unat (dwBufsize rs) then i else i - unat (dwBufsize rs))"

lemma ring_ok_shape: "ring_ok rs \<Longrightarrow> ring_shape rs"
  by (simp add: ring_ok_def)

lemma length_contents:
  assumes "ring_shape rs"
  shows "length (contents rs) =
    (let r = unat (dwReadpos rs); w = unat (dwWritepos rs) in
     if bEmpty rs then 0 else if r < w then w - r else unat (dwBufsize rs) - r + w)"
  using assms by (auto simp: contents_def ring_shape_def Let_def)

lemma contents_empty: "ring_shape rs \<Longrightarrow> contents rs = [] \<longleftrightarrow> bEmpty rs"
  by (auto simp: contents_def ring_shape_def Let_def word_unat_eq_iff)

lemma contents_nth:
  assumes "ring_shape rs" and "k < length (contents rs)"
  shows "contents rs ! k = buf rs ! ring_idx rs k" and "ring_idx rs k < length (buf rs)"
  using assms
  by (auto simp: length_contents contents_def ring_shape_def ring_idx_def Let_def nth_append
      add.commute split: if_splits)

lemma contents_drop_linear:
  "\<not> bEmpty rs \<Longrightarrow> dwReadpos rs < dwWritepos rs \<Longrightarrow>
   contents rs = take (unat (dwWritepos rs) - unat (dwReadpos rs)) (drop (unat (dwReadpos rs)) (buf rs))"
  by (simp add: contents_def word_less_nat_alt Let_def)

lemma contents_drop_wrapped:
  "\<not> bEmpty rs \<Longrightarrow> \<not> dwReadpos rs < dwWritepos rs \<Longrightarrow>
   contents rs = drop (unat (dwReadpos rs)) (buf rs) @ take (unat (dwWritepos rs)) (buf rs)"
  by (simp add: contents_def word_less_nat_alt Let_def)

subsection \<open>Receiving\<close>

text \<open>
  What \<^verbatim>\<open>WSARecv\<close> documents of an overlapped receive into two buffers: the bytes go to the first
  buffer until it is full and then to the second, and no other byte of the object changes.
\<close>

definition wsarecv_filled :: "wsabuf \<Rightarrow> wsabuf \<Rightarrow> byte list \<Rightarrow> byte list \<Rightarrow> byte list \<Rightarrow> bool" where
  "wsarecv_filled b0 b1 bs m m' \<longleftrightarrow>
     length bs \<le> unat (wb_len b0) + unat (wb_len b1) \<and>
     do { p0 \<leftarrow> wb_buf b0;
          p1 \<leftarrow> wb_buf b1;
          m1 \<leftarrow> mem_write m p0 (take (unat (wb_len b0)) bs);
          mem_write m1 p1 (drop (unat (wb_len b0)) bs) } = Some m'"

definition recv_into :: "byte list \<Rightarrow> byte list \<Rightarrow> recv_sock \<Rightarrow> recv_sock" where
  "recv_into bs m' rs = InitWRpos (of_nat (length bs)) ((InitWSABUFS rs)\<lparr>buf := m'\<rparr>)"

lemma InitRLsize_sizes:
  assumes "ring_ok rs"
  shows "unat (dwRightsize (InitRLsize rs)) + unat (dwLeftsize (InitRLsize rs)) =
           unat (dwBufsize rs) - length (contents rs)"
  using assms
  by (auto simp: InitRLsize_def ring_ok_def ring_shape_def contents_def Let_def
      word_le_nat_alt word_less_nat_alt word_unat_eq_iff unat_sub)


text \<open>The three layouts of the free space, on natural numbers.\<close>

lemma fill_right:
  assumes "r \<le> w" and "w + length bs \<le> length m"
  shows "take (w + length bs - r) (drop r (take w m @ bs @ drop (w + length bs) m)) =
         take (w - r) (drop r m) @ bs"
  using assms by (simp add: drop_take)

lemma fill_around:
  assumes "r \<le> w" and "w \<le> length m" and "length m - w < length bs"
    and "length bs - (length m - w) \<le> r"
  shows "let n = length m - w; m1 = take w m @ take n bs; m2 = drop n bs @ drop (length bs - n) m1
         in drop r m2 @ take (length bs - n) m2 = take (w - r) (drop r m) @ bs"
  using assms by (simp add: Let_def drop_take)

lemma fill_left:
  assumes "w < r" and "r \<le> length m" and "w + length bs \<le> r"
  shows "let m' = take w m @ bs @ drop (w + length bs) m
         in drop r m' @ take (w + length bs) m' = (drop r m @ take w m) @ bs"
  using assms by (simp add: Let_def)

lemma InitWSABUFS_frame [simp]:
  "dwReadpos (InitWSABUFS rs) = dwReadpos rs" "dwWritepos (InitWSABUFS rs) = dwWritepos rs"
  "dwBufsize (InitWSABUFS rs) = dwBufsize rs" "bFull (InitWSABUFS rs) = bFull rs"
  "bEmpty (InitWSABUFS rs) = bEmpty rs" "buf (InitWSABUFS rs) = buf rs"
  by (simp_all add: InitWSABUFS_def InitRLsize_def Let_def)

lemma InitWSABUFS_bufs:
  "wb_buf (wsabuf0 (InitWSABUFS rs)) = Some (unat (dwWritepos rs))"
  "wb_buf (wsabuf1 (InitWSABUFS rs)) = Some 0"
  "wb_len (wsabuf0 (InitWSABUFS rs)) = dwRightsize (InitWSABUFS rs)"
  "wb_len (wsabuf1 (InitWSABUFS rs)) = dwLeftsize (InitWSABUFS rs)"
  by (simp_all add: InitWSABUFS_def InitRLsize_def Let_def)

lemma InitWSABUFS_free:
  assumes "ring_ok rs"
  shows "unat (dwRightsize (InitWSABUFS rs)) =
           (if bFull rs then 0
            else if unat (dwReadpos rs) \<le> unat (dwWritepos rs)
            then unat (dwBufsize rs) - unat (dwWritepos rs)
            else unat (dwReadpos rs) - unat (dwWritepos rs))"
    and "unat (dwLeftsize (InitWSABUFS rs)) =
           (if \<not> bFull rs \<and> unat (dwReadpos rs) \<le> unat (dwWritepos rs) then unat (dwReadpos rs) else 0)"
  using assms
  by (auto simp: InitWSABUFS_def InitRLsize_def ring_ok_def ring_shape_def Let_def
      word_le_nat_alt unat_sub)

lemma InitWRpos_fields:
  "dwReadpos (InitWRpos n rs) = dwReadpos rs" "dwBufsize (InitWRpos n rs) = dwBufsize rs"
  "buf (InitWRpos n rs) = buf rs"
  "0 < n \<Longrightarrow> \<not> bFull rs \<Longrightarrow> \<not> bEmpty (InitWRpos n rs)"
  "0 < n \<Longrightarrow> \<not> bFull rs \<Longrightarrow> bFull (InitWRpos n rs) \<longleftrightarrow> dwWritepos (InitWRpos n rs) = dwReadpos rs"
  by (auto simp: InitWRpos_def Let_def)

lemma InitWRpos_writepos:
  assumes "0 < n" and "\<not> bFull rs" and "unat (dwWritepos rs) + unat n < 2 ^ 32"
  shows "unat (dwWritepos (InitWRpos n rs)) =
           (if unat (dwRightsize rs) < unat n then unat n - unat (dwRightsize rs)
            else unat (dwWritepos rs) + unat n)"
  using assms
  by (auto simp: InitWRpos_def Let_def word_less_nat_alt word_le_nat_alt unat_sub unat_word_ariths)


text \<open>The memory after the receive, for the three layouts.\<close>

lemma filled_memory:
  assumes ok: "ring_ok rs"
    and filled: "wsarecv_filled (wsabuf0 (InitWSABUFS rs)) (wsabuf1 (InitWSABUFS rs)) bs (buf rs) m'"
    and ne: "bs \<noteq> []"
  defines "n0 \<equiv> unat (dwRightsize (InitWSABUFS rs))" and "w \<equiv> unat (dwWritepos rs)"
  shows "\<not> bFull rs" and "length bs \<le> n0 + unat (dwLeftsize (InitWSABUFS rs))"
    and "length bs \<le> n0 \<Longrightarrow> m' = take w (buf rs) @ bs @ drop (w + length bs) (buf rs)"
    and "n0 < length bs \<Longrightarrow> unat (dwReadpos rs) \<le> w \<and>
           m' = drop n0 bs @ drop (length bs - n0) (take w (buf rs) @ take n0 bs)"
proof -
  have len: "length bs \<le> n0 + unat (dwLeftsize (InitWSABUFS rs))"
    and mem: "do { m1 \<leftarrow> mem_write (buf rs) w (take n0 bs); mem_write m1 0 (drop n0 bs) } = Some m'"
    using filled by (simp_all add: wsarecv_filled_def InitWSABUFS_bufs n0_def w_def)
  show "\<not> bFull rs"
    using len ne InitWSABUFS_free [OF ok] by (auto simp: n0_def)
  show "length bs \<le> n0 + unat (dwLeftsize (InitWSABUFS rs))" by (rule len)
  show "length bs \<le> n0 \<Longrightarrow> m' = take w (buf rs) @ bs @ drop (w + length bs) (buf rs)"
    using mem by (auto simp: mem_write_def split: if_splits)
  assume more: "n0 < length bs"
  with len InitWSABUFS_free [OF ok] have rw: "unat (dwReadpos rs) \<le> w" and n0: "n0 = unat (dwBufsize rs) - w"
    by (auto simp: n0_def w_def split: if_splits)
  have w: "w \<le> unat (dwBufsize rs)" "length (buf rs) = unat (dwBufsize rs)"
    using ok by (auto simp: ring_ok_def ring_shape_def w_def)
  have "m' = drop n0 bs @ drop (length bs - n0) (take w (buf rs) @ take n0 bs)"
    using mem more w unfolding n0 by (auto simp: mem_write_def min_def split: if_splits)
  with rw show "unat (dwReadpos rs) \<le> w \<and>
      m' = drop n0 bs @ drop (length bs - n0) (take w (buf rs) @ take n0 bs)" by simp
qed

lemma recv_into_fields:
  assumes ok: "ring_ok rs"
    and filled: "wsarecv_filled (wsabuf0 (InitWSABUFS rs)) (wsabuf1 (InitWSABUFS rs)) bs (buf rs) m'"
    and ne: "bs \<noteq> []"
  defines "n0 \<equiv> unat (dwRightsize (InitWSABUFS rs))" and "rs' \<equiv> recv_into bs m' rs"
  shows "dwReadpos rs' = dwReadpos rs" "dwBufsize rs' = dwBufsize rs" "buf rs' = m'" "\<not> bEmpty rs'"
    "bFull rs' \<longleftrightarrow> dwWritepos rs' = dwReadpos rs"
    "unat (dwWritepos rs') = (if n0 < length bs then length bs - n0 else unat (dwWritepos rs) + length bs)"
proof -
  note fm = filled_memory [OF ok filled ne]
  have sh: "unat (dwBufsize rs) < 2 ^ 31" "unat (dwWritepos rs) \<le> unat (dwBufsize rs)"
      "unat (dwReadpos rs) \<le> unat (dwBufsize rs)"
    using ok by (auto simp: ring_ok_def ring_shape_def)
  have small: "length bs < 2 ^ 31"
    using fm(2) InitWSABUFS_free [OF ok] sh by (auto split: if_splits)
  then have len: "unat (of_nat (length bs) :: DWORD) = length bs"
    by (simp add: unat_of_nat)
  have pos: "0 < (of_nat (length bs) :: DWORD)"
    using ne len by (simp add: word_less_nat_alt)
  show "dwReadpos rs' = dwReadpos rs" "dwBufsize rs' = dwBufsize rs" "buf rs' = m'"
    by (simp_all add: rs'_def recv_into_def InitWRpos_fields)
  show "\<not> bEmpty rs'" "bFull rs' \<longleftrightarrow> dwWritepos rs' = dwReadpos rs"
    using pos fm(1) by (simp_all add: rs'_def recv_into_def InitWRpos_fields)
  have "unat (dwWritepos rs) + length bs < 2 ^ 32"
    using sh small by simp
  with pos fm(1) len
  show "unat (dwWritepos rs') = (if n0 < length bs then length bs - n0 else unat (dwWritepos rs) + length bs)"
    unfolding rs'_def recv_into_def n0_def by (subst InitWRpos_writepos) simp_all
qed

lemma recv_into_ok:
  assumes ok: "ring_ok rs"
    and filled: "wsarecv_filled (wsabuf0 (InitWSABUFS rs)) (wsabuf1 (InitWSABUFS rs)) bs (buf rs) m'"
    and ne: "bs \<noteq> []"
  shows "ring_ok (recv_into bs m' rs)" and "contents (recv_into bs m' rs) = contents rs @ bs"
proof -
  define rs' where "rs' = recv_into bs m' rs"
  note fm = filled_memory [OF ok filled ne] and fld = recv_into_fields [OF ok filled ne, folded rs'_def]
    and free = InitWSABUFS_free [OF ok]
  let ?m = "buf rs" and ?n = "length bs" and ?free = "unat (dwRightsize (InitWSABUFS rs))"
  let ?B = "unat (dwBufsize rs)" and ?R = "unat (dwReadpos rs)" and ?W = "unat (dwWritepos rs)"
  have B: "length ?m = ?B" "?B < 2 ^ 31" "?R \<le> ?B" "?W \<le> ?B" "bEmpty rs \<Longrightarrow> ?R = ?W"
      "?R = ?W \<Longrightarrow> bEmpty rs"
    using ok fm(1) by (auto simp: ring_ok_def ring_shape_def word_unat_eq_iff)
  have n: "0 < ?n" using ne by simp
  have old: "contents rs = (if ?R \<le> ?W then take (?W - ?R) (drop ?R ?m) else drop ?R ?m @ take ?W ?m)"
    using B(5,6) by (auto simp: contents_def Let_def)
  let ?W' = "unat (dwWritepos rs')"
  have new: "contents rs' =
      (if ?R < ?W' then take (?W' - ?R) (drop ?R m') else drop ?R m' @ take ?W' m')"
    using fld(1,3,4) by (simp add: contents_def Let_def)
  have "?W' \<noteq> 0" using fld(6) n by (cases "?free < ?n") auto
  then have "dwWritepos rs' \<noteq> 0" by auto
  then have okI: "ring_ok rs'" if "length m' = ?B" and "?W' \<le> ?B"
    using fld(1-5) that B(2,3) by (auto simp: ring_ok_def ring_shape_def)
  consider (right) "?R \<le> ?W" "?W + ?n \<le> ?B" "?n \<le> ?free"
    | (around) "?R \<le> ?W" "?free = ?B - ?W" "?free < ?n" "?n - ?free \<le> ?R"
    | (left) "?W < ?R" "?W + ?n \<le> ?R" "?n \<le> ?free"
    using fm(1,2) free B(1-4) by (cases "?R \<le> ?W"; cases "?n \<le> ?free") auto
  then have "ring_ok rs' \<and> contents rs' = contents rs @ bs"
  proof cases
    case right
    have m': "m' = take ?W ?m @ bs @ drop (?W + ?n) ?m" and W': "?W' = ?W + ?n"
      using right fm(3) fld(6) by simp_all
    have "?R < ?W'" using right n W' by linarith
    then show ?thesis
      using okI new old fill_right [of ?R ?W bs ?m] right B(1,4) unfolding W' m' by simp
  next
    case around
    have m': "m' = drop ?free bs @ drop (?n - ?free) (take ?W ?m @ take ?free bs)"
      and W': "?W' = ?n - ?free"
      using around fm(4) fld(6) by simp_all
    have nl: "\<not> ?R < ?W'" using around W' by linarith
    have "length m' = ?B" using around B(1,4) by (simp add: m')
    moreover have "?W' \<le> ?B" using nl B(3) by linarith
    ultimately show ?thesis
      using okI new old nl fill_around [of ?R ?W ?m bs] around B(1,4)
      unfolding W' m' Let_def by simp
  next
    case left
    have m': "m' = take ?W ?m @ bs @ drop (?W + ?n) ?m" and W': "?W' = ?W + ?n"
      using left fm(3) fld(6) by simp_all
    have nl: "\<not> ?R < ?W'" using left W' by linarith
    show ?thesis
      using okI new old nl fill_left [of ?W ?R ?m bs] left B(1,3) unfolding W' m' Let_def by simp
  qed
  then show "ring_ok (recv_into bs m' rs)" and "contents (recv_into bs m' rs) = contents rs @ bs"
    by (simp_all add: rs'_def)
qed

subsection \<open>Reading\<close>

text \<open>The connection-independent part of a \<^verbatim>\<open>RECV_SOCK\<close> is untouched by the buffer operations.\<close>

definition same_conn :: "recv_sock \<Rightarrow> recv_sock \<Rightarrow> bool" where
  "same_conn rs rs' \<longleftrightarrow> rs_nKey rs' = rs_nKey rs \<and> rs_sock rs' = rs_sock rs \<and>
     lstSend rs' = lstSend rs \<and> dwBufsize rs' = dwBufsize rs \<and> nRef rs' = nRef rs"

definition ring_read :: "nat \<Rightarrow> byte list \<Rightarrow> recv_sock \<Rightarrow> (DWORD \<times> byte list \<times> recv_sock) \<Rightarrow> bool" where
  "ring_read n dest rs res \<longleftrightarrow>
     (case res of (k, dest', rs') \<Rightarrow>
        unat k = n \<and> dest' = take n (contents rs) @ drop n dest \<and>
        contents rs' = drop n (contents rs) \<and> ring_ok rs' \<and> same_conn rs rs')"

lemma Read_linear:
  assumes sh: "ring_shape rs" and ne: "\<not> bEmpty rs" and lin: "dwReadpos rs < dwWritepos rs"
    and n: "0 < n" "unat n \<le> length (contents rs)" "unat n \<le> length dest"
  shows "\<exists>res. Read dest n rs = Some res \<and> ring_read (unat n) dest rs res"
proof -
  let ?B = "unat (dwBufsize rs)" and ?R = "unat (dwReadpos rs)" and ?W = "unat (dwWritepos rs)"
  have B: "length (buf rs) = ?B" "?B < 2 ^ 31" "?R < ?W" "?W \<le> ?B" and len: "unat n \<le> ?W - ?R"
    using sh lin n(2) by (auto simp: ring_shape_def word_less_nat_alt length_contents ne)
  have R': "unat (dwReadpos rs + n) = unat n + ?R"
    using B len by (simp add: unat_word_ariths)
  have e: "dwReadpos rs + n = dwWritepos rs \<longleftrightarrow> unat n + ?R = ?W"
    by (simp add: word_unat_eq_iff R')
  have c: "contents rs = take (?W - ?R) (drop ?R (buf rs))"
    using ne lin by (rule contents_drop_linear)
  have le: "min (?B - ?R) (unat n) = unat n" using len B by simp
  define rs' where "rs' = rs\<lparr>bFull := False, dwReadpos := dwReadpos rs + n,
      bEmpty := (dwReadpos rs + n = dwWritepos rs)\<rparr>"
  have "Read dest n rs = Some (n, take (unat n) (contents rs) @ drop (unat n) dest, rs')"
    using n(1,3) ne lin B len le by (simp add: Read_def Let_def c rs'_def word_gt_0)
  moreover have "contents rs' = drop (unat n) (contents rs)"
    using len B by (auto simp: rs'_def contents_def Let_def R' e ne drop_take
        add.commute [of ?R "unat n"])
  moreover have "ring_ok rs'"
    using sh B len by (auto simp: rs'_def ring_ok_def ring_shape_def R')
  ultimately show ?thesis
    by (simp add: ring_read_def rs'_def same_conn_def)
qed

lemma Read_wrapped:
  assumes sh: "ring_shape rs" and ne: "\<not> bEmpty rs" and wr: "\<not> dwReadpos rs < dwWritepos rs"
    and n: "0 < n" "unat n \<le> length (contents rs)" "unat n \<le> length dest"
  shows "\<exists>res. Read dest n rs = Some res \<and> ring_read (unat n) dest rs res"
proof -
  let ?B = "unat (dwBufsize rs)" and ?R = "unat (dwReadpos rs)" and ?W = "unat (dwWritepos rs)"
  have B: "length (buf rs) = ?B" "?B < 2 ^ 31" "?W \<le> ?R" "?R \<le> ?B" and len: "unat n \<le> ?B - ?R + ?W"
    using sh wr n(2) by (auto simp: ring_shape_def word_less_nat_alt length_contents ne)
  have c: "contents rs = drop ?R (buf rs) @ take ?W (buf rs)"
    using ne wr by (rule contents_drop_wrapped)
  have pos: "n \<noteq> 0" using n(1) by auto
  have left: "unat (dwBufsize rs - dwReadpos rs) = ?B - ?R"
    using B(4) by (simp add: unat_sub word_le_nat_alt)
  show ?thesis
  proof (cases "unat n < ?B - ?R")
    case True
    have R': "unat (dwReadpos rs + n) = unat n + ?R"
      using B True by (simp add: unat_word_ariths)
    have e: "dwReadpos rs + n \<noteq> dwWritepos rs"
      using B(3) n(1) by (auto simp: word_unat_eq_iff R' word_less_nat_alt)
    define rs' where "rs' = rs\<lparr>bFull := False, dwReadpos := dwReadpos rs + n, bEmpty := False\<rparr>"
    have "Read dest n rs = Some (n, take (unat n) (contents rs) @ drop (unat n) dest, rs')"
      using n(1,3) ne wr B True e pos
      by (simp add: Read_def Let_def c rs'_def word_gt_0 min_def word_less_nat_alt left)
    moreover have "contents rs' = drop (unat n) (contents rs)"
      using B True by (simp add: rs'_def contents_def Let_def R' ne)
    moreover have "ring_ok rs'"
      using sh ne B True e by (auto simp: rs'_def ring_ok_def ring_shape_def R')
    ultimately show ?thesis
      by (simp add: ring_read_def rs'_def same_conn_def)
  next
    case False
    let ?r = "n - (dwBufsize rs - dwReadpos rs)"
    have r: "unat ?r = unat n - (?B - ?R)"
      using False left by (simp add: unat_sub word_le_nat_alt)
    have e: "?r = dwWritepos rs \<longleftrightarrow> unat n = ?B - ?R + ?W"
      using False by (auto simp: word_unat_eq_iff r)
    define rs' where "rs' = rs\<lparr>bFull := False, dwReadpos := ?r, bEmpty := (?r = dwWritepos rs)\<rparr>"
    have w1: "mem_write dest 0 (drop ?R (buf rs)) = Some (drop ?R (buf rs) @ drop (?B - ?R) dest)"
      using B False n(3) by simp
    have w2: "mem_write (drop ?R (buf rs) @ drop (?B - ?R) dest) (?B - ?R)
          (take (unat n - (?B - ?R)) (buf rs)) =
        Some (drop ?R (buf rs) @ take (unat n - (?B - ?R)) (buf rs) @ drop (unat n) dest)"
      using B False n(3) len by (subst mem_write_Some) auto
    have tc: "take (unat n) (contents rs) = drop ?R (buf rs) @ take (unat n - (?B - ?R)) (buf rs)"
      using B False len by (simp add: c)
    have "Read dest n rs = Some (n, take (unat n) (contents rs) @ drop (unat n) dest, rs')"
      unfolding tc
      using ne wr B False len pos w1 w2
      by (simp add: Read_def Let_def rs'_def word_less_nat_alt left r del: mem_write_Some)
    moreover have "contents rs' = drop (unat n) (contents rs)"
      using B False len by (auto simp: rs'_def contents_def Let_def r e ne drop_take)
    moreover have "ring_ok rs'"
      using ne sh B False len by (auto simp: rs'_def ring_ok_def ring_shape_def r)
    ultimately show ?thesis
      by (simp add: ring_read_def rs'_def same_conn_def)
  qed
qed

lemma Read_ok:
  assumes "ring_shape rs" and "\<not> bEmpty rs"
    and "0 < n" and "unat n \<le> length (contents rs)" and "unat n \<le> length dest"
  shows "\<exists>res. Read dest n rs = Some res \<and> ring_read (unat n) dest rs res"
  using assms Read_linear Read_wrapped by blast

end
