(* ===== verification/Frame.thy ===== *)
theory Frame
  imports Recv_Ring
begin

text \<open>
  The frame format of the protocol document and its scanner \<^verbatim>\<open>GetCmdDataLength\<close>. \<open>scan_frame\<close>
  is the specification on the unread bytes; the lemmas show that each of the three layouts of
  the ring computes it.
\<close>

subsection \<open>Specification\<close>

datatype scan = NeedMore | Bad | Frame "byte list" "byte list"

definition frame_len :: "byte list \<Rightarrow> nat" where
  "frame_len bs = le_nat (take 4 (drop 2 bs))"

definition scan_frame :: "byte list \<Rightarrow> scan" where
  "scan_frame bs =
     (if length bs < 6 then NeedMore
      else if take 2 bs \<noteq> [0xfb, 0xfc] then Bad
      else let n = frame_len bs in
        if length bs < n + 8 then NeedMore
        else if bs ! (6 + n) \<noteq> sum_list (take n (drop 6 bs)) then Bad
        else if bs ! (7 + n) \<noteq> 0x0d then Bad
        else Frame (take n (drop 6 bs)) (drop (n + 8) bs))"

definition encode_frame :: "byte list \<Rightarrow> byte list" where
  "encode_frame p = [0xfb, 0xfc] @ nat_le 4 (length p) @ p @ [sum_list p, 0x0d]"

lemma length_encode_frame [simp]: "length (encode_frame p) = length p + 8"
  by (simp add: encode_frame_def)

lemma scan_encode_frame:
  assumes "length p < 2 ^ 32"
  shows "scan_frame (encode_frame p @ rest) = Frame p rest"
proof -
  define F where "F = encode_frame p @ rest"
  have 1: "frame_len F = length p"
    using assms by (simp add: F_def frame_len_def encode_frame_def le_nat_nat_le)
  have 2: "drop 6 F = p @ [sum_list p, 0x0d] @ rest" and 5: "take 2 F = [0xfb, 0xfc]"
    by (simp_all add: F_def encode_frame_def)
  have 4: "drop (length p + 8) F = rest" and 6: "length F = length p + 8 + length rest"
    by (simp_all add: F_def)
  have 3: "F ! (6 + k) = (p @ [sum_list p, 0x0d] @ rest) ! k" for k
    using 6 nth_drop [of 6 F k] by (simp add: 2)
  show ?thesis
    using 3 [of "length p"] 3 [of "length p + 1"] unfolding F_def [symmetric]
    by (simp add: scan_frame_def 1 2 4 5 6 Let_def nth_append add.commute)
qed

lemma scan_frame_Frame:
  assumes "scan_frame bs = Frame p rest"
  shows "bs = encode_frame p @ rest"
proof -
  have len: "\<not> length bs < 6" "take 2 bs = [0xfb, 0xfc]" "frame_len bs + 8 \<le> length bs"
    and p: "p = take (frame_len bs) (drop 6 bs)" and rest: "rest = drop (frame_len bs + 8) bs"
    and chk: "bs ! (6 + frame_len bs) = sum_list p" "bs ! (7 + frame_len bs) = 0x0d"
    using assms by (auto simp: scan_frame_def Let_def split: if_splits)
  let ?n = "frame_len bs"
  have lp: "length p = ?n" using len by (simp add: p)
  have "nat_le 4 ?n = take 4 (drop 2 bs)"
    using nat_le_le_nat [of "take 4 (drop 2 bs)"] len by (simp add: frame_len_def)
  then have "encode_frame p = take 2 bs @ take 4 (drop 2 bs) @ take ?n (drop 6 bs) @
      [bs ! (6 + ?n)] @ [bs ! (7 + ?n)]"
    using len chk lp by (simp add: encode_frame_def p [symmetric])
  also have "\<dots> = take (?n + 8) bs"
  proof -
    have "take (?n + 8) bs = take (2 + (4 + (?n + 2))) bs" by (simp add: add.commute)
    also have "\<dots> = take 2 bs @ take 4 (drop 2 bs) @ take ?n (drop 6 bs) @ take 2 (drop (6 + ?n) bs)"
      by (simp only: take_add drop_drop) (simp add: add.commute)
    finally show ?thesis using len(3) take_two_drop [of "6 + ?n" bs] by simp
  qed
  finally show ?thesis by (simp add: rest)
qed

subsection \<open>The scanner computes the specification\<close>

lemma csum_loop_ok:
  "a + n \<le> length m \<Longrightarrow> csum_loop m a n s = Some (s + sum_list (take n (drop a m)))"
proof (induction n arbitrary: a s)
  case 0
  then show ?case by simp
next
  case (Suc n)
  then have "take (Suc n) (drop a m) = m ! a # take n (drop (Suc a) m)"
    by (simp add: take_Suc_conv_app_nth Cons_nth_drop_Suc [symmetric])
  with Suc show ?case by (simp add: add.assoc)
qed

lemma csum_ok:
  "a + n \<le> length (buf rs) \<Longrightarrow>
   csum a (int n) rs = Some (rs_sum rs + sum_list (take n (drop a (buf rs))),
     rs\<lparr>rs_sum := rs_sum rs + sum_list (take n (drop a (buf rs)))\<rparr>)"
  by (simp add: csum_def csum_loop_ok)

text \<open>What a call of \<^verbatim>\<open>GetCmdDataLength\<close> means for the unread bytes. An incomplete message in a
  buffer that is full across its end closes the connection.\<close>

definition dropped :: "recv_sock \<Rightarrow> DWORD \<times> recv_sock \<times> SOCKET list \<Rightarrow> bool" where
  "dropped rs res \<longleftrightarrow>
     (\<exists>s. res = (0, rs\<lparr>rs_sum := s, rs_sock := INVALID_SOCKET\<rparr>, [rs_sock rs]))"

definition scan_result :: "recv_sock \<Rightarrow> DWORD \<times> recv_sock \<times> SOCKET list \<Rightarrow> bool" where
  "scan_result rs res \<longleftrightarrow>
     (case scan_frame (contents rs) of
        NeedMore \<Rightarrow> if bFull rs then dropped rs res else \<exists>s. res = (0, rs\<lparr>rs_sum := s\<rparr>, [])
      | Bad \<Rightarrow> dropped rs res
      | Frame p rest \<Rightarrow>
          (case res of (n, rs', closed) \<Rightarrow>
             unat n = length p + 2 \<and> closed = [] \<and>
             (\<exists>s r. rs' = rs\<lparr>rs_sum := s, dwReadpos := r\<rparr>) \<and> ring_shape rs' \<and>
             contents rs' = p @ [sum_list p, 0x0d] @ rest))"

lemma drop_conn_dropped: "dropped rs (drop_conn rs)"
  unfolding dropped_def drop_conn_def by (rule exI [of _ "rs_sum rs"]) simp

lemma no_header_ok:
  assumes "i < length m" and "j < length m" and "m ! i = bs ! 0" and "m ! j = bs ! 1" and "2 \<le> length bs"
  shows "no_header m i j = Some (take 2 bs \<noteq> [0xfb, 0xfc])"
  using assms take_two_drop [of 0 bs] by (simp add: no_header_def)

lemma load_INT_ok:
  assumes "i + 4 \<le> length m" and "take 4 (drop i m) = take 4 (drop 2 bs)"
  shows "load_INT m i = Some (of_nat (frame_len bs))"
  using assms by (simp add: load_INT_def frame_len_def)

lemma frame_len_bound: "frame_len bs < 2 ^ 32"
proof -
  have "frame_len bs < 256 ^ length (take 4 (drop 2 bs))"
    unfolding frame_len_def by (rule le_nat_bound)
  also have "\<dots> \<le> 256 ^ 4" by (rule power_increasing) simp_all
  finally show ?thesis by simp
qed

text \<open>Moving the read position past \<open>k\<close> unread bytes, not all of them.\<close>

lemma ring_advance:
  assumes sh: "ring_shape rs" and ne: "\<not> bEmpty rs" and k: "0 < k" "k < length (contents rs)"
    and r: "unat r = (if unat (dwReadpos rs) + k > unat (dwBufsize rs)
                      then unat (dwReadpos rs) + k - unat (dwBufsize rs) else unat (dwReadpos rs) + k)"
  shows "ring_shape (rs\<lparr>rs_sum := s, dwReadpos := r\<rparr>)"
    and "contents (rs\<lparr>rs_sum := s, dwReadpos := r\<rparr>) = drop k (contents rs)"
proof -
  let ?B = "unat (dwBufsize rs)" and ?R = "unat (dwReadpos rs)" and ?W = "unat (dwWritepos rs)"
  have B: "length (buf rs) = ?B" "?B < 2 ^ 31" "?R \<le> ?B" "?W \<le> ?B"
    and len: "length (contents rs) = (if ?R < ?W then ?W - ?R else ?B - ?R + ?W)"
    using sh by (auto simp: ring_shape_def length_contents ne)
  have "unat r \<le> ?B" using r k(2) len B by (auto split: if_splits)
  then show "ring_shape (rs\<lparr>rs_sum := s, dwReadpos := r\<rparr>)"
    using sh ne by (simp add: ring_shape_def)
  show "contents (rs\<lparr>rs_sum := s, dwReadpos := r\<rparr>) = drop k (contents rs)"
    using r k len B ne
    by (auto simp: contents_def Let_def drop_take add.commute split: if_splits)
qed

lemma scan_tail:
  assumes sh: "ring_shape rs" and ne: "\<not> bEmpty rs" and hdr: "take 2 (contents rs) = [0xfb, 0xfc]"
    and L: "L = frame_len (contents rs)" "L + 8 \<le> length (contents rs)" "unat d = L"
    and nSum: "nSum = contents rs ! (6 + L)" and e: "e = contents rs ! (7 + L)"
    and s: "s = sum_list (take L (drop 6 (contents rs)))" and r1: "rs1 = rs\<lparr>rs_sum := s\<rparr>"
    and r: "unat r = (if unat (dwReadpos rs) + 6 > unat (dwBufsize rs)
                      then unat (dwReadpos rs) + 6 - unat (dwBufsize rs) else unat (dwReadpos rs) + 6)"
  shows "scan_result rs (if nSum \<noteq> s then drop_conn rs1
           else if 0x0d \<noteq> e then drop_conn rs1 else (d + 2, rs1\<lparr>dwReadpos := r\<rparr>, []))"
proof (cases "scan_frame (contents rs)")
  case NeedMore
  then show ?thesis using hdr L(1,2) by (simp add: scan_frame_def Let_def split: if_splits)
next
  case Bad
  then have "nSum \<noteq> s \<or> e \<noteq> 0x0d"
    using hdr L(1,2) nSum e s by (auto simp: scan_frame_def Let_def split: if_splits)
  with Bad show ?thesis by (auto simp: scan_result_def dropped_def drop_conn_def r1)
next
  case (Frame p rest)
  have F: "contents rs = encode_frame p @ rest" by (rule scan_frame_Frame [OF Frame])
  have *: "nSum = s" "e = 0x0d" "p = take L (drop 6 (contents rs))"
    using Frame hdr L(1,2) nSum e s by (auto simp: scan_frame_def Let_def split: if_splits)
  have lp: "length p = L" using *(3) L(2) by simp
  have "unat d + 2 < 2 ^ 31"
    using L sh length_contents [OF sh] by (auto simp: ring_shape_def Let_def split: if_splits)
  then have d: "unat (d + 2) = length p + 2" using L(3) lp by (subst unat_add_small) simp_all
  have "6 < length (contents rs)" using L(2) by simp
  note adv = ring_advance [OF sh ne _ this r, of s]
  have "drop 6 (contents rs) = p @ [sum_list p, 0x0d] @ rest"
    by (simp add: F encode_frame_def)
  with adv d show ?thesis
    unfolding scan_result_def Frame r1 using *(1,2) by (auto simp del: append.simps)
qed

lemma need_more_result:
  "scan_frame (contents rs) = NeedMore \<Longrightarrow> scan_result rs (if bFull rs then drop_conn rs else (0, rs, []))"
  unfolding scan_result_def using drop_conn_dropped [of rs]
  by (auto intro!: exI [of _ "rs_sum rs"])

lemma bad_result: "scan_frame (contents rs) = Bad \<Longrightarrow> scan_result rs (drop_conn rs)"
  by (simp add: scan_result_def drop_conn_dropped)

lemma scan_frame_short: "length bs < 6 \<Longrightarrow> scan_frame bs = NeedMore"
  and scan_frame_no_header: "6 \<le> length bs \<Longrightarrow> take 2 bs \<noteq> [0xfb, 0xfc] \<Longrightarrow> scan_frame bs = Bad"
  and scan_frame_incomplete: "6 \<le> length bs \<Longrightarrow> take 2 bs = [0xfb, 0xfc] \<Longrightarrow> length bs < frame_len bs + 8 \<Longrightarrow>
      scan_frame bs = NeedMore"
  by (simp_all add: scan_frame_def Let_def)

text \<open>The three layouts run the same checks on different reads: \<open>nh\<close> looks at the start mark,
  \<open>ld\<close> loads the length, \<open>a\<close> and \<open>b\<close> read the sum and the end mark, \<open>c\<close> adds the body up.\<close>

lemma scan_driver:
  fixes rs :: recv_sock
  defines "F \<equiv> contents rs" and "L \<equiv> frame_len (contents rs)"
  defines "s \<equiv> sum_list (take (frame_len (contents rs)) (drop 6 (contents rs)))"
  assumes sh: "ring_shape rs" and ne: "\<not> bEmpty rs" and six: "6 \<le> length F"
    and nh: "nh = Some (take 2 F \<noteq> [0xfb, 0xfc])" and ld: "ld = Some (of_nat L)"
    and small: "L + 8 < 2 ^ 32" and av: "unat avail = length F"
    and X: "scan_frame F = NeedMore \<Longrightarrow> scan_result rs X"
    and a: "L + 8 \<le> length F \<Longrightarrow> a (of_nat L) = Some (F ! (6 + L))"
    and c: "L + 8 \<le> length F \<Longrightarrow> c (of_nat L) = Some (s, rs\<lparr>rs_sum := s\<rparr>)"
    and b: "L + 8 \<le> length F \<Longrightarrow> b (of_nat L) (rs\<lparr>rs_sum := s\<rparr>) = Some (F ! (7 + L))"
    and r: "unat (r' (rs\<lparr>rs_sum := s\<rparr>)) =
              (if unat (dwReadpos rs) + 6 > unat (dwBufsize rs)
               then unat (dwReadpos rs) + 6 - unat (dwBufsize rs) else unat (dwReadpos rs) + 6)"
  shows "\<exists>res. do {
        bad \<leftarrow> nh;
        if bad then Some (drop_conn rs)
        else do {
          dl \<leftarrow> ld;
          if dl + 8 > avail then Some X
          else do {
            nSum \<leftarrow> a dl;
            (s, rs1) \<leftarrow> c dl;
            if nSum \<noteq> s then Some (drop_conn rs1)
            else do {
              e \<leftarrow> b dl rs1;
              if 0x0d \<noteq> e then Some (drop_conn rs1)
              else Some (dl + 2, rs1\<lparr>dwReadpos := r' rs1\<rparr>, []) } } } } = Some res \<and> scan_result rs res"
proof -
  have d: "unat (of_nat L :: DWORD) = L" using small by (simp add: unat_of_nat_small)
  have d8: "unat (of_nat L + 8 :: DWORD) = L + 8" using small d by (subst unat_add_small) simp_all
  have cmp: "avail < of_nat L + 8 \<longleftrightarrow> length F < L + 8"
    by (simp add: word_less_nat_alt av d8)
  consider (nohdr) "take 2 F \<noteq> [0xfb, 0xfc]"
    | (part) "take 2 F = [0xfb, 0xfc]" "length F < L + 8"
    | (full) "take 2 F = [0xfb, 0xfc]" "L + 8 \<le> length F"
    by linarith
  then show ?thesis
  proof cases
    case nohdr
    then show ?thesis
      using bad_result scan_frame_no_header six by (simp add: nh F_def)
  next
    case part
    then have "scan_frame F = NeedMore"
      using scan_frame_incomplete [OF six] by (simp add: F_def L_def)
    with part X cmp show ?thesis by (intro exI [of _ X]) (simp add: nh ld)
  next
    case full
    let ?res = "if F ! (6 + L) \<noteq> s then drop_conn (rs\<lparr>rs_sum := s\<rparr>)
        else if 0x0d \<noteq> F ! (7 + L) then drop_conn (rs\<lparr>rs_sum := s\<rparr>)
        else (of_nat L + 2, rs\<lparr>rs_sum := s\<rparr>\<lparr>dwReadpos := r' (rs\<lparr>rs_sum := s\<rparr>)\<rparr>, [])"
    have "scan_result rs ?res"
      by (rule scan_tail [OF sh ne _ _ _ d]) (use full r in \<open>simp_all add: F_def L_def s_def\<close>)
    then show ?thesis
      using full cmp a [OF full(2)] b [OF full(2)] c [OF full(2)]
      by (intro exI [of _ ?res] conjI) (simp_all add: nh ld)
  qed
qed

lemma GetCmdDataLength_linear_ok:
  assumes ok: "ring_ok rs" and ne: "\<not> bEmpty rs" and lin: "dwReadpos rs < dwWritepos rs"
    and s0: "rs_sum rs = 0" and small: "frame_len (contents rs) + 8 < 2 ^ 32"
  shows "\<exists>res. GetCmdDataLength_linear rs = Some res \<and> scan_result rs res"
proof -
  let ?F = "contents rs" and ?m = "buf rs" and ?r = "dwReadpos rs"
  let ?B = "unat (dwBufsize rs)" and ?R = "unat (dwReadpos rs)" and ?W = "unat (dwWritepos rs)"
  define L where "L = frame_len ?F"
  have sh: "ring_shape rs" and nf: "\<not> bFull rs" using ok lin by (auto simp: ring_ok_def)
  have B: "length ?m = ?B" "?B < 2 ^ 31" "?R < ?W" "?W \<le> ?B" and len: "length ?F = ?W - ?R"
    using sh lin by (auto simp: ring_shape_def word_less_nat_alt length_contents ne)
  have F: "?F = take (?W - ?R) (drop ?R ?m)" using ne lin by (rule contents_drop_linear)
  have Fn: "?F ! k = ?m ! (?R + k)" if "k < length ?F" for k
    using that len B by (simp add: F)
  have nd: "unat (dwWritepos rs - ?r) = length ?F" using B(3) by (simp add: unat_sub word_le_nat_alt len)
  have nm: "scan_result rs (0, rs, [])" if "scan_frame ?F = NeedMore"
    using need_more_result [OF that] nf by simp
  show ?thesis
  proof (cases "length ?F < 6")
    case True
    then show ?thesis
      using nm [OF scan_frame_short] nd by (simp add: GetCmdDataLength_linear_def Let_def word_less_nat_alt)
  next
    case False
    have r1: "unat (?r + 1) = ?R + 1" and r6: "unat (?r + 6) = ?R + 6"
      using B False len by (subst unat_add_small; simp)+
    have nh: "no_header ?m ?R (unat (?r + 1)) = Some (take 2 ?F \<noteq> [0xfb, 0xfc])"
      using False B len by (intro no_header_ok) (auto simp: r1 Fn)
    have ld: "load_INT ?m (?R + 2) = Some (of_nat L)"
      unfolding L_def using False B len
      by (intro load_INT_ok) (simp_all add: F drop_take min_def add.commute)
    have d: "unat (of_nat L :: DWORD) = L" using small by (simp add: L_def unat_of_nat_small)
    {
      assume L: "L + 8 \<le> length ?F"
      have i: "unat (?r + 6 + of_nat L) = ?R + (6 + L)"
        using L B len r6 d by (subst unat_add_small) simp_all
      have "unat (?r + of_nat L) = ?R + L" using L B len d by (subst unat_add_small) simp_all
      then have j: "unat (?r + of_nat L + 7) = ?R + (7 + L)"
        using L B len by (subst unat_add_small) simp_all
      have si: "sint (of_nat L :: DWORD) = int L" using L B len d by (subst sint_small) simp_all
      have t: "take L (drop (?R + 6) ?m) = take L (drop 6 ?F)"
        using L len by (simp add: F drop_take min_def add.commute)
      have "mem_at ?m (unat (?r + 6 + of_nat L)) = Some (?F ! (6 + L))"
        "mem_at ?m (unat (?r + of_nat L + 7)) = Some (?F ! (7 + L))"
        "csum (?R + 6) (sint (of_nat L :: DWORD)) rs =
           Some (sum_list (take L (drop 6 ?F)), rs\<lparr>rs_sum := sum_list (take L (drop 6 ?F))\<rparr>)"
        using L B len csum_ok [of "?R + 6" L rs] Fn [of "6 + L"] Fn [of "7 + L"]
        by (simp_all add: i j si t s0)
    }
    note full = this
    have "\<not> dwWritepos rs - ?r < 6" using nd False by (simp add: word_less_nat_alt)
    then show ?thesis
      unfolding GetCmdDataLength_linear_def Let_def
      apply (simp only: if_False)
      apply (rule scan_driver [OF sh ne _ nh ld [unfolded L_def] small nd nm])
      using False full r6 B len by (simp_all add: L_def)
  qed
qed

text \<open>Facts about a ring whose data crosses the end of the buffer.\<close>

lemma wrapped_facts:
  assumes ok: "ring_ok rs" and ne: "\<not> bEmpty rs" and wr: "\<not> dwReadpos rs < dwWritepos rs"
  shows "length (buf rs) = unat (dwBufsize rs)" "unat (dwBufsize rs) < 2 ^ 31"
    "unat (dwWritepos rs) \<le> unat (dwReadpos rs)" "unat (dwReadpos rs) \<le> unat (dwBufsize rs)"
    "length (contents rs) = unat (dwBufsize rs) - unat (dwReadpos rs) + unat (dwWritepos rs)"
    "contents rs = drop (unat (dwReadpos rs)) (buf rs) @ take (unat (dwWritepos rs)) (buf rs)"
    "unat (dwBufsize rs - dwReadpos rs) = unat (dwBufsize rs) - unat (dwReadpos rs)"
    "unat (dwBufsize rs - dwReadpos rs + dwWritepos rs) = length (contents rs)"
proof -
  let ?B = "unat (dwBufsize rs)" and ?R = "unat (dwReadpos rs)" and ?W = "unat (dwWritepos rs)"
  have sh: "ring_shape rs" using ok by (rule ring_ok_shape)
  show B: "length (buf rs) = ?B" "?B < 2 ^ 31" "?W \<le> ?R" "?R \<le> ?B"
    using sh wr by (auto simp: ring_shape_def word_less_nat_alt)
  show len: "length (contents rs) = ?B - ?R + ?W"
    using sh wr ne by (simp add: length_contents word_less_nat_alt Let_def)
  show "contents rs = drop ?R (buf rs) @ take ?W (buf rs)"
    using ne wr by (rule contents_drop_wrapped)
  show left: "unat (dwBufsize rs - dwReadpos rs) = ?B - ?R"
    using B(4) by (simp add: unat_sub word_le_nat_alt)
  show "unat (dwBufsize rs - dwReadpos rs + dwWritepos rs) = length (contents rs)"
    using B left len by (subst unat_add_small) simp_all
qed

lemma ring_idx_word:
  assumes "unat x = unat (dwReadpos rs) + k" and "ring_shape rs" and "k < length (contents rs)"
    and "unat (dwReadpos rs) + k < 2 ^ 32"
  shows "mem_at (buf rs) (unat (if dwBufsize rs \<le> x then x - dwBufsize rs else x)) = Some (contents rs ! k)"
  using assms contents_nth [OF assms(2,3)]
  by (auto simp: ring_idx_def Let_def word_le_nat_alt unat_sub split: if_splits)

lemma next_read_pos:
  assumes "unat r < 2 ^ 31" and "unat r \<le> unat b" and "unat b < 2 ^ 31"
  shows "unat (if r + 6 > b then r + 6 - b else r + 6 :: DWORD) =
           (if unat r + 6 > unat b then unat r + 6 - unat b else unat r + 6)"
proof -
  have "unat (r + 6) = unat r + 6" using assms by (subst unat_add_small) simp_all
  then show ?thesis by (simp add: word_less_nat_alt word_le_nat_alt unat_sub)
qed

lemma csum_around:
  assumes wf: "length (buf rs) = B" "R + 6 \<le> B" "B - R < L + 6" "L + 6 - (B - R) \<le> W" "W \<le> B"
    and F: "F = drop R (buf rs) @ take W (buf rs)" and s0: "rs_sum rs = 0"
  shows "do { (s', rs1) \<leftarrow> csum (R + 6) (int (B - R - 6)) rs; csum 0 (int (L + 6 - (B - R))) rs1 } =
    Some (sum_list (take L (drop 6 F)), rs\<lparr>rs_sum := sum_list (take L (drop 6 F))\<rparr>)"
proof -
  have "take L (drop 6 F) = drop (R + 6) (buf rs) @ take (L + 6 - (B - R)) (buf rs)"
    using wf by (simp add: F ac_simps)
  then show ?thesis
    using wf s0 csum_ok [of "R + 6" "B - R - 6" rs]
      csum_ok [of 0 "L + 6 - (B - R)" "rs\<lparr>rs_sum := sum_list (drop (R + 6) (buf rs))\<rparr>"]
    by simp
qed

lemma GetCmdDataLength_wrapped_ok:
  assumes ok: "ring_ok rs" and ne: "\<not> bEmpty rs" and wr: "\<not> dwReadpos rs < dwWritepos rs"
    and six: "\<not> dwBufsize rs - dwReadpos rs < 6"
    and s0: "rs_sum rs = 0" and small: "frame_len (contents rs) + 8 < 2 ^ 32"
  shows "\<exists>res. GetCmdDataLength_wrapped rs = Some res \<and> scan_result rs res"
proof -
  let ?F = "contents rs" and ?m = "buf rs" and ?r = "dwReadpos rs" and ?b = "dwBufsize rs"
  let ?B = "unat (dwBufsize rs)" and ?R = "unat (dwReadpos rs)" and ?W = "unat (dwWritepos rs)"
  define L where "L = frame_len ?F"
  define s where "s = sum_list (take L (drop 6 ?F))"
  note wf = wrapped_facts [OF ok ne wr]
  have sh: "ring_shape rs" using ok by (rule ring_ok_shape)
  have R6: "?R + 6 \<le> ?B" using six wf(4,7) by (simp add: word_less_nat_alt)
  have Fn: "?F ! k = ?m ! (?R + k)" if "k < 6" for k
  proof -
    have "k < ?B - ?R" using that R6 by linarith
    then show ?thesis using wf(1) by (simp add: wf(6) nth_append)
  qed
  have r1: "unat (?r + 1) = ?R + 1" and r6: "unat (?r + 6) = ?R + 6"
    using wf(2) R6 by (subst unat_add_small; simp)+
  have nh: "no_header ?m ?R (unat (?r + 1)) = Some (take 2 ?F \<noteq> [0xfb, 0xfc])"
    using R6 wf(1,5) by (intro no_header_ok) (auto simp: r1 Fn)
  have ld: "load_INT ?m (?R + 2) = Some (of_nat L)"
    unfolding L_def using R6 wf(1) by (intro load_INT_ok) (simp_all add: wf(6) add.commute)
  have d: "unat (of_nat L :: DWORD) = L" using small by (simp add: L_def unat_of_nat_small)
  have reads: "mem_at ?m (unat (if ?b \<le> ?r + 6 + of_nat L then ?r + 6 + of_nat L - ?b else ?r + 6 + of_nat L)) =
        Some (?F ! (6 + L))"
      "mem_at ?m (unat (if ?b \<le> ?r + of_nat L + 7 then ?r + of_nat L + 7 - ?b else ?r + of_nat L + 7)) =
        Some (?F ! (7 + L))"
      "(if ?b - ?r < of_nat L + 6
        then do { (s', rs1) \<leftarrow> csum (?R + 6) (sint (?b - ?r - 6)) rs;
                  csum 0 (sint (of_nat L - (?b - ?r) + 6)) rs1 }
        else csum (?R + 6) (sint (of_nat L :: DWORD)) rs) = Some (s, rs\<lparr>rs_sum := s\<rparr>)"
    if L: "L + 8 \<le> length ?F"
  proof -
    have i: "unat (?r + 6 + of_nat L) = ?R + (6 + L)"
      using L wf(2-5) r6 d by (subst unat_add_small) simp_all
    have "unat (?r + of_nat L) = ?R + L" using L wf(2-5) d by (subst unat_add_small) simp_all
    then have j: "unat (?r + of_nat L + 7) = ?R + (7 + L)"
      using L wf(2-5) by (subst unat_add_small) simp_all
    show "mem_at ?m (unat (if ?b \<le> ?r + 6 + of_nat L then ?r + 6 + of_nat L - ?b else ?r + 6 + of_nat L)) =
        Some (?F ! (6 + L))"
      using L wf(2-5) by (intro ring_idx_word i sh) simp_all
    show "mem_at ?m (unat (if ?b \<le> ?r + of_nat L + 7 then ?r + of_nat L + 7 - ?b else ?r + of_nat L + 7)) =
        Some (?F ! (7 + L))"
      using L wf(2-5) by (intro ring_idx_word j sh) simp_all
    show "(if ?b - ?r < of_nat L + 6
        then do { (s', rs1) \<leftarrow> csum (?R + 6) (sint (?b - ?r - 6)) rs;
                  csum 0 (sint (of_nat L - (?b - ?r) + 6)) rs1 }
        else csum (?R + 6) (sint (of_nat L :: DWORD)) rs) = Some (s, rs\<lparr>rs_sum := s\<rparr>)"
    proof (cases "?B - ?R < L + 6")
      case True
      have d6: "unat (of_nat L + 6 :: DWORD) = L + 6"
        using L wf(2-5) d by (subst unat_add_small) simp_all
      have "of_nat L - (?b - ?r) + 6 = of_nat L + 6 - (?b - ?r)" by (simp add: algebra_simps)
      moreover have "unat (of_nat L + 6 - (?b - ?r)) = L + 6 - (?B - ?R)"
        using True d6 wf(7) by (subst unat_sub) (simp_all add: word_le_nat_alt)
      ultimately have u2: "unat (of_nat L - (?b - ?r) + 6) = L + 6 - (?B - ?R)" by (simp only:)
      have u1: "unat (?b - ?r - 6) = ?B - ?R - 6"
        using R6 wf(7) by (subst unat_sub) (simp_all add: word_le_nat_alt)
      have "sint (?b - ?r - 6) = int (?B - ?R - 6)" "sint (of_nat L - (?b - ?r) + 6) = int (L + 6 - (?B - ?R))"
        using u1 u2 wf(2-5) L by (subst sint_small; simp)+
      moreover have "?b - ?r < of_nat L + 6" using True d6 wf(7) by (simp add: word_less_nat_alt)
      ultimately show ?thesis
        using csum_around [OF wf(1) R6 True _ _ wf(6) s0] wf(2-5) L by (simp add: s_def)
    next
      case False
      have d6: "unat (of_nat L + 6 :: DWORD) = L + 6"
        using L wf(2-5) d by (subst unat_add_small) simp_all
      have "sint (of_nat L :: DWORD) = int L" using L wf(2-5) d by (subst sint_small) simp_all
      moreover have "take L (drop (?R + 6) ?m) = take L (drop 6 ?F)"
        using False wf(1,4) R6 by (simp add: wf(6) add.commute)
      moreover have "\<not> ?b - ?r < of_nat L + 6" using False d6 wf(7) by (simp add: word_less_nat_alt)
      ultimately show ?thesis
        using csum_ok [of "?R + 6" L rs] False wf(1) R6 s0 by (simp add: s_def)
    qed
  qed
  show ?thesis
    unfolding GetCmdDataLength_wrapped_def Let_def
    apply (rule scan_driver [OF sh ne _ nh ld [unfolded L_def] small wf(8) need_more_result])
    using R6 wf(1-5) reads [unfolded L_def s_def] next_read_pos [of ?r ?b]
    by (simp_all split del: if_split cong del: if_weak_cong)
qed

lemma GetCmdDataLength_split_ok:
  assumes ok: "ring_ok rs" and ne: "\<not> bEmpty rs" and wr: "\<not> dwReadpos rs < dwWritepos rs"
    and left: "dwBufsize rs - dwReadpos rs < 6" and six: "6 \<le> length (contents rs)"
    and s0: "rs_sum rs = 0" and small: "frame_len (contents rs) + 8 < 2 ^ 32"
  shows "\<exists>res. GetCmdDataLength_split rs = Some res \<and> scan_result rs res"
proof -
  let ?F = "contents rs" and ?m = "buf rs" and ?r = "dwReadpos rs" and ?b = "dwBufsize rs"
  let ?B = "unat (dwBufsize rs)" and ?R = "unat (dwReadpos rs)" and ?W = "unat (dwWritepos rs)"
  define L where "L = frame_len ?F"
  define s where "s = sum_list (take L (drop 6 ?F))"
  note wf = wrapped_facts [OF ok ne wr]
  have sh: "ring_shape rs" using ok by (rule ring_ok_shape)
  have R6: "?B < ?R + 6" using left wf(4,7) by (simp add: word_less_nat_alt)
  have l6: "unat (6 - (?b - ?r)) = 6 - (?B - ?R)"
    using left wf(7) by (subst unat_sub) (simp_all add: word_le_nat_alt word_less_nat_alt)
  have m1: "mem_range ?m ?R (unat (?b - ?r)) = Some (drop ?R ?m)"
    and m2: "mem_range ?m 0 (unat (6 - (?b - ?r))) = Some (take (6 - (?B - ?R)) ?m)"
    using wf(1-5,7) l6 six by simp_all
  have sub: "drop ?R ?m @ take (6 - (?B - ?R)) ?m = take 6 ?F"
    using wf(1-5) six R6 by (simp add: wf(6))
  have nh: "no_header (take 6 ?F) 0 1 = Some (take 2 ?F \<noteq> [0xfb, 0xfc])"
    using six by (intro no_header_ok) auto
  have ld: "load_INT (take 6 ?F) 2 = Some (of_nat L)"
    unfolding L_def using six by (intro load_INT_ok) (simp_all add: drop_take)
  have d: "unat (of_nat L :: DWORD) = L" using small by (simp add: L_def unat_of_nat_small)
  have ix: "unat (?r + 6 - ?b) = ?R + 6 - ?B"
  proof -
    have "unat (?r + 6) = ?R + 6" using wf(2,4) by (subst unat_add_small) simp_all
    then show ?thesis using R6 by (subst unat_sub) (simp_all add: word_le_nat_alt)
  qed
  have reads: "mem_at ?m (unat (?r + 6 - ?b + of_nat L)) = Some (?F ! (6 + L))"
      "mem_at ?m (unat (?r + 6 - ?b + of_nat L + 1)) = Some (?F ! (7 + L))"
      "csum (unat (?r + 6 - ?b)) (sint (of_nat L :: DWORD)) rs = Some (s, rs\<lparr>rs_sum := s\<rparr>)"
    if L: "L + 8 \<le> length ?F"
  proof -
    have i: "unat (?r + 6 - ?b + of_nat L) = ?R + 6 - ?B + L"
      using L wf(2-5) ix d by (subst unat_add_small) simp_all
    have j: "unat (?r + 6 - ?b + of_nat L + 1) = ?R + 6 - ?B + L + 1"
      using L wf(2-5) i by (subst unat_add_small) simp_all
    have k: "ring_idx rs (6 + L) = ?R + 6 - ?B + L" "ring_idx rs (7 + L) = ?R + 6 - ?B + L + 1"
      using R6 by (simp_all add: ring_idx_def Let_def)
    show "mem_at ?m (unat (?r + 6 - ?b + of_nat L)) = Some (?F ! (6 + L))"
      "mem_at ?m (unat (?r + 6 - ?b + of_nat L + 1)) = Some (?F ! (7 + L))"
      using contents_nth [OF sh, of "6 + L"] contents_nth [OF sh, of "7 + L"] L
      unfolding i j k by simp_all
    have "sint (of_nat L :: DWORD) = int L" using L wf(2-5) d by (subst sint_small) simp_all
    moreover have "take L (drop (?R + 6 - ?B) ?m) = take L (drop 6 ?F)"
      using L R6 wf(1-5) by (simp add: wf(6) drop_take add.commute)
    ultimately show "csum (unat (?r + 6 - ?b)) (sint (of_nat L :: DWORD)) rs = Some (s, rs\<lparr>rs_sum := s\<rparr>)"
      using csum_ok [of "?R + 6 - ?B" L rs] L wf(1-5) s0 by (simp add: s_def ix)
  qed
  show ?thesis
    unfolding GetCmdDataLength_split_def Let_def m1 m2
    apply (simp only: Option.bind.bind_lunit sub)
    apply (rule scan_driver [OF sh ne _ nh ld [unfolded L_def] small wf(8) need_more_result])
    using six wf(1-5) reads [unfolded L_def s_def] next_read_pos [of ?r ?b]
    by (simp_all split del: if_split cong del: if_weak_cong)
qed

text \<open>
  The whole scanner. The two hypotheses exclude the length fields that overflow
  \<^verbatim>\<open>dwFrameLen + 8\<close> and fewer than six bytes that start at or near the end of the buffer.
\<close>

lemma GetCmdDataLength_scan:
  assumes ok: "ring_ok rs" and ne: "\<not> bEmpty rs"
    and hdr: "dwReadpos rs < dwWritepos rs \<or> 6 \<le> length (contents rs)"
    and small: "frame_len (contents rs) + 8 < 2 ^ 32"
  shows "\<exists>res. GetCmdDataLength rs = Some res \<and> scan_result rs res"
proof -
  let ?rs = "rs\<lparr>rs_sum := 0\<rparr>"
  have same: "contents ?rs = contents rs" "ring_ok ?rs"
    using ok by (simp_all add: contents_def ring_ok_def ring_shape_def Let_def)
  have "scan_result rs res" if "scan_result ?rs res" for res
    using that unfolding scan_result_def dropped_def same(1) by (auto split: scan.splits)
  moreover have "\<exists>res. GetCmdDataLength rs = Some res \<and> scan_result ?rs res"
    using ne hdr small GetCmdDataLength_linear_ok [of ?rs] GetCmdDataLength_split_ok [of ?rs]
      GetCmdDataLength_wrapped_ok [of ?rs]
    by (auto simp: GetCmdDataLength_def Let_def same)
  ultimately show ?thesis by blast
qed

lemma GetCmdDataLength_empty: "bEmpty rs \<Longrightarrow> GetCmdDataLength rs = Some (0, rs, [])"
  by (simp add: GetCmdDataLength_def)

end
