(* ===== verification/Objects.thy ===== *)
theory Objects
  imports Recv_Sock "HOL-Library.AList"
begin

text \<open>
  The other objects of \<^verbatim>\<open>ms_data.h\<close> (\<^verbatim>\<open>RECV_OBJ\<close>, \<^verbatim>\<open>BUFFER_SOCK\<close>, \<^verbatim>\<open>BUFFER_OBJ\<close>, \<^verbatim>\<open>LISTEN_SOCK\<close>),
  and the send queue of a \<^verbatim>\<open>RECV_SOCK\<close> as a first-in first-out queue.
\<close>

subsection \<open>Objects\<close>

text \<open>The completion routines an object can carry, as pairs of a success and a failure function;
  \<^const>\<open>None\<close> is a null function pointer.\<close>

datatype completion =
    Client_AcceptCompletion | Client_ZeroRecvCompletion | Client_RecvCompletion
  | Client_SendCompletion | Client_CmdCompletion
  | Nc_AcceptCompletion | NC_RecvZeroComp | NC_RecvComp | NC_SendComp

datatype acceptor = Client_PostAcceptEx_fp | Nc_PostAcceptEx_fp

text \<open>A pointer to an object that starts like \<^verbatim>\<open>KEY_VALUE\<close>.\<close>

datatype sockref = RS addr | BS addr

record recv_obj =
  ro_fpSuccess :: "completion option"
  ro_fpFailed :: "completion option"
  ro_pRelateSock :: addr

definition RObj_Init :: "recv_obj \<Rightarrow> recv_obj" where
  "RObj_Init ro = ro\<lparr>ro_fpSuccess := None, ro_fpFailed := None, ro_pRelateSock := NULL\<rparr>"

definition RObj_SetIoRequestFunction :: "completion \<Rightarrow> completion \<Rightarrow> recv_obj \<Rightarrow> recv_obj" where
  "RObj_SetIoRequestFunction fpFailed fpSuccess ro =
     ro\<lparr>ro_fpSuccess := Some fpSuccess, ro_fpFailed := Some fpFailed\<rparr>"

record buffer_sock =
  bs_nKey :: int
  bs_sock :: SOCKET
  bs_sAddrInfo :: addr

text \<open>\<^verbatim>\<open>_buffer_scok::Init\<close>, with the sockets it closes and the address lists it frees.\<close>

definition BSock_Init :: "buffer_sock \<Rightarrow> buffer_sock \<times> SOCKET list \<times> addr list" where
  "BSock_Init bs =
     (bs\<lparr>bs_nKey := 0, bs_sock := INVALID_SOCKET, bs_sAddrInfo := NULL\<rparr>,
      if bs_sock bs \<noteq> INVALID_SOCKET then [bs_sock bs] else [],
      if bs_sAddrInfo bs \<noteq> NULL then [bs_sAddrInfo bs] else [])"

text \<open>\<open>bo_InternalHigh\<close> is the second word of the \<^verbatim>\<open>WSAOVERLAPPED\<close>, at the offset where a
  \<^verbatim>\<open>KEY_VALUE\<close> has its \<^verbatim>\<open>sock\<close>.\<close>

record buffer_obj =
  bo_InternalHigh :: SOCKET
  bo_fpSuccess :: "completion option"
  bo_fpFailed :: "completion option"
  bo_pRelateSock :: addr
  bo_wsaBuf :: wsabuf
  dwRecvedCount :: DWORD
  dwSendedCount :: DWORD
  datalen :: "32 word"
  data :: "byte list"

definition BObj_Init :: "DWORD \<Rightarrow> buffer_obj \<Rightarrow> buffer_obj" where
  "BObj_Init dwSize bo =
     bo\<lparr>bo_InternalHigh := 0, bo_fpSuccess := None, bo_fpFailed := None, bo_pRelateSock := NULL,
        dwRecvedCount := 0, dwSendedCount := 0, datalen := dwSize\<rparr>"

definition BObj_SetIoRequestFunction :: "completion \<Rightarrow> completion \<Rightarrow> buffer_obj \<Rightarrow> buffer_obj" where
  "BObj_SetIoRequestFunction fpFailed fpSuccess bo =
     bo\<lparr>bo_fpSuccess := Some fpSuccess, bo_fpFailed := Some fpFailed\<rparr>"

text \<open>The pending map is a \<^verbatim>\<open>tbb::concurrent_hash_map<int, void*>\<close>: its elements, in the order its
  iterator meets them.\<close>

record listen_sock =
  sListenSock :: SOCKET
  fpAcceptex :: "acceptor option"
  hPostAcceptexEvent :: nat
  acceptPendingMap :: "(int \<times> sockref) list"

definition LSock_Init :: "listen_sock \<Rightarrow> listen_sock \<times> SOCKET list" where
  "LSock_Init ls =
     (ls\<lparr>sListenSock := INVALID_SOCKET, fpAcceptex := None, hPostAcceptexEvent := 0,
         acceptPendingMap := []\<rparr>,
      if sListenSock ls \<noteq> INVALID_SOCKET then [sListenSock ls] else [])"

definition InsertIntoPendingMap :: "int \<Rightarrow> sockref \<Rightarrow> listen_sock \<Rightarrow> listen_sock" where
  "InsertIntoPendingMap nKey p ls = ls\<lparr>acceptPendingMap := AList.update nKey p (acceptPendingMap ls)\<rparr>"

definition DeleteFromPendingMap :: "int \<Rightarrow> listen_sock \<Rightarrow> listen_sock" where
  "DeleteFromPendingMap nKey ls =
     (if map_of (acceptPendingMap ls) nKey \<noteq> None
      then ls\<lparr>acceptPendingMap := AList.delete nKey (acceptPendingMap ls)\<rparr> else ls)"

definition pending_map :: "listen_sock \<Rightarrow> int \<rightharpoonup> sockref" where
  "pending_map ls = map_of (acceptPendingMap ls)"

definition pending_ok :: "listen_sock \<Rightarrow> bool" where
  "pending_ok ls \<longleftrightarrow> distinct (map fst (acceptPendingMap ls))"

lemma Insert_pending_map: "pending_map (InsertIntoPendingMap k p ls) = (pending_map ls)(k \<mapsto> p)"
  by (simp add: pending_map_def InsertIntoPendingMap_def update_conv')

lemma Delete_pending_map: "pending_map (DeleteFromPendingMap k ls) = (pending_map ls)(k := None)"
  by (auto simp: pending_map_def DeleteFromPendingMap_def delete_conv')

lemma pending_ok_Insert: "pending_ok ls \<Longrightarrow> pending_ok (InsertIntoPendingMap k p ls)"
  by (simp add: pending_ok_def InsertIntoPendingMap_def distinct_update)

lemma pending_ok_Delete: "pending_ok ls \<Longrightarrow> pending_ok (DeleteFromPendingMap k ls)"
  by (simp add: pending_ok_def DeleteFromPendingMap_def distinct_delete)

text \<open>With distinct keys the number of elements is the size of the map.\<close>

lemma pending_size: "pending_ok ls \<Longrightarrow> length (acceptPendingMap ls) = card (dom (pending_map ls))"
  by (metis pending_ok_def pending_map_def distinct_card dom_map_of_conv_image_fst length_map set_map)

subsection \<open>The send queue\<close>

text \<open>
  What the senders rely on: pushing tells whether the queue was idle, so that exactly one sender
  starts a transfer, and dropping the transfer that ended yields the next one in the order of the
  pushes.
\<close>

locale send_queue =
  fixes queued :: "'q \<Rightarrow> 'a list"
    and none :: 'a
    and push :: "'a \<Rightarrow> 'q \<Rightarrow> (bool \<times> 'q) option"
    and pop :: "'q \<Rightarrow> ('a \<times> 'q) option"
    and ok :: "'q \<Rightarrow> bool"
  assumes push_law: "ok q \<Longrightarrow> \<exists>q'. push x q = Some (queued q = [], q') \<and> ok q' \<and> queued q' = queued q @ [x]"
    and pop_law: "ok q \<Longrightarrow> queued q = x # xs \<Longrightarrow>
      \<exists>q'. pop q = Some (case xs of [] \<Rightarrow> none | y # ys \<Rightarrow> y, q') \<and> ok q' \<and> queued q' = xs"
begin

primrec push_all :: "'a list \<Rightarrow> 'q \<Rightarrow> (bool list \<times> 'q) option" where
  "push_all [] q = Some ([], q)"
| "push_all (x # xs) q = do { (b, q) \<leftarrow> push x q; (bs, q) \<leftarrow> push_all xs q; Some (b # bs, q) }"

primrec pop_all :: "nat \<Rightarrow> 'q \<Rightarrow> ('a list \<times> 'q) option" where
  "pop_all 0 q = Some ([], q)"
| "pop_all (Suc n) q = do { (x, q) \<leftarrow> pop q; (xs, q) \<leftarrow> pop_all n q; Some (x # xs, q) }"

lemma push_all_busy:
  assumes "ok q" and "queued q \<noteq> []"
  shows "\<exists>q'. push_all xs q = Some (replicate (length xs) False, q') \<and> ok q' \<and> queued q' = queued q @ xs"
  using assms
proof (induction xs arbitrary: q)
  case Nil
  then show ?case by simp
next
  case (Cons x xs)
  obtain q1 where q1: "push x q = Some (False, q1)" "ok q1" "queued q1 = queued q @ [x]"
    using push_law [OF Cons.prems(1), of x] Cons.prems(2) by auto
  then show ?case using Cons.IH [of q1] by auto
qed

text \<open>Of the pushes onto an idle queue only the first starts a transfer.\<close>

lemma push_all_idle:
  assumes "ok q" and "queued q = []"
  shows "\<exists>q'. push_all (x # xs) q = Some (True # replicate (length xs) False, q') \<and>
           ok q' \<and> queued q' = x # xs"
proof -
  obtain q1 where q1: "push x q = Some (True, q1)" "ok q1" "queued q1 = [x]"
    using push_law [OF assms(1), of x] assms(2) by auto
  then show ?thesis using push_all_busy [of q1 xs] by auto
qed

text \<open>The completions then hand out the rest in order and end with \<open>none\<close>.\<close>

lemma pop_all_order:
  assumes "ok q" and "queued q = x # xs"
  shows "\<exists>q'. pop_all (Suc (length xs)) q = Some (xs @ [none], q') \<and> ok q' \<and> queued q' = []"
  using assms
proof (induction xs arbitrary: q x)
  case Nil
  then obtain q1 where "pop q = Some (none, q1)" "ok q1" "queued q1 = []"
    using pop_law [OF Nil.prems] by auto
  then show ?case by simp
next
  case (Cons y ys)
  then obtain q1 where q1: "pop q = Some (y, q1)" "ok q1" "queued q1 = y # ys"
    using pop_law [OF Cons.prems] by auto
  obtain q' where q': "pop_all (Suc (length ys)) q1 = Some (ys @ [none], q')" "ok q'" "queued q' = []"
    using Cons.IH [OF q1(2,3)] by blast
  with q1(1) have "pop_all (Suc (Suc (length ys))) q = Some (y # ys @ [none], q')"
    by (subst pop_all.simps(2)) (simp del: pop_all.simps)
  with q' show ?case by simp
qed

end

definition send_order :: "recv_sock \<Rightarrow> addr list" where
  "send_order rs = (case lstSend rs of None \<Rightarrow> [] | Some q \<Rightarrow> rev q)"

interpretation sendq: send_queue send_order NULL CheckSend GetNextData "\<lambda>rs. lstSend rs \<noteq> None"
proof unfold_locales
  fix rs :: recv_sock and x :: addr
  assume "lstSend rs \<noteq> None"
  then show "\<exists>q'. CheckSend x rs = Some (send_order rs = [], q') \<and> lstSend q' \<noteq> None \<and>
      send_order q' = send_order rs @ [x]"
    by (auto simp: CheckSend_def send_order_def)
next
  fix rs :: recv_sock and x :: addr and xs
  assume "lstSend rs \<noteq> None" and "send_order rs = x # xs"
  then obtain q where q: "lstSend rs = Some q" "rev q = x # xs" by (auto simp: send_order_def)
  then have "q = rev xs @ [x]" by (metis rev.simps(2) rev_rev_ident)
  with q show "\<exists>q'. GetNextData rs = Some (case xs of [] \<Rightarrow> NULL | y # ys \<Rightarrow> y, q') \<and>
      lstSend q' \<noteq> None \<and> send_order q' = xs"
    by (auto simp: GetNextData_def send_order_def Let_def last_rev split: list.splits)
qed

end
