(* ===== verification/World.thy ===== *)
theory World
  imports Objects
begin

text \<open>
  The state of the whole program: one heap per object type, the four free lists of
  \<^verbatim>\<open>ms_memory.cpp\<close>, the tables of \<^verbatim>\<open>ms_initsock.cpp\<close>, the overlapped operations in flight and
  the calls made to the system.

  Windows is a parameter: \<open>os_env\<close> answers the n-th system call of a run, so a theorem over all
  environments is a theorem over all sequences of answers. Addresses are serial numbers of
  allocations, 0 is the null pointer, and a freed object leaves its heap: a use after free is a
  lookup that fails.
\<close>

subsection \<open>The system\<close>

text \<open>Answers to the calls. A pair is a return value and what \<^verbatim>\<open>WSAGetLastError\<close> says after it.\<close>

record os_env =
  heap_ok :: "nat \<Rightarrow> bool"
  os_socket :: "nat \<Rightarrow> SOCKET"
  os_rand :: "nat \<Rightarrow> int"
  os_AcceptEx :: "nat \<Rightarrow> bool \<times> nat"
  os_WSARecv :: "nat \<Rightarrow> int \<times> nat"
  os_WSASend :: "nat \<Rightarrow> int \<times> nat"
  os_CreateIoCompletionPort :: "nat \<Rightarrow> nat"
  os_PostQueuedCompletionStatus :: "nat \<Rightarrow> int"
  os_StrStrI :: "byte list \<Rightarrow> byte list \<Rightarrow> nat option"
  os_OpenEvent :: "nat \<Rightarrow> nat"
  os_CreateEvent :: "nat \<Rightarrow> nat"
  os_WSAStartup :: "nat \<Rightarrow> int"
  os_WSAIoctl :: "nat \<Rightarrow> int \<times> nat"
  os_WSACreateEvent :: "nat \<Rightarrow> nat"
  os_WSAEventSelect :: "nat \<Rightarrow> int"
  os_bind :: "nat \<Rightarrow> int"
  os_listen :: "nat \<Rightarrow> int"
  os_GetSystemInfo :: "nat \<Rightarrow> DWORD \<times> DWORD"
  os_beginthreadex :: "nat \<Rightarrow> nat"
  os_WSAWaitForMultipleEvents :: "nat \<Rightarrow> nat"
  os_WaitForSingleObject :: "nat \<Rightarrow> nat"
  os_getsockopt :: "nat \<Rightarrow> int \<times> 32 word"
  os_indeterminate :: "nat \<Rightarrow> SOCKET"
  RECV_SOCK_SIZE :: DWORD
  BUFFER_OBJ_SIZE :: DWORD

abbreviation (input) SOCKET_ERROR :: int where "SOCKET_ERROR \<equiv> - 1"
abbreviation (input) WSA_IO_PENDING :: nat where "WSA_IO_PENDING \<equiv> 997"

datatype os_event =
    Closed SOCKET
  | FreedAddrInfo addr
  | Listening SOCKET nat
  | ThreadStarted nat

subsection \<open>Operations in flight\<close>

text \<open>The completion key a packet will carry and the object its \<^verbatim>\<open>OVERLAPPED\<close> lies in.\<close>

datatype comp_key = KeyL addr | KeyR addr | KeyB addr | KeyObj addr

datatype objref = RO addr | BO addr

subsection \<open>State\<close>

record world =
  rsocks :: "addr \<rightharpoonup> recv_sock"
  robjs :: "addr \<rightharpoonup> recv_obj"
  bsocks :: "addr \<rightharpoonup> buffer_sock"
  bobjs :: "addr \<rightharpoonup> buffer_obj"
  lsocks :: "addr \<rightharpoonup> listen_sock"
  v_RSock :: "addr list"
  v_RObj :: "addr list"
  v_BSock :: "addr list"
  v_BObj :: "addr list"
  LSock_Array :: "addr list"
  hEvent_Array :: "nat list"
  g_dwListenCount :: DWORD
  g_dwPagesize :: DWORD
  pending :: "(comp_key \<times> objref) list"
  next_addr :: addr
  hComport :: nat
  hUniqueInstance :: nat
  lpfnAccpetEx :: nat
  lpfnGetAcceptExSockaddrs :: nat
  lpfnConnectEx :: nat
  tick :: nat
  trace :: "os_event list"

text \<open>Each call to the system takes the next answer.\<close>

definition os_call :: "(nat \<Rightarrow> 'a) \<Rightarrow> world \<Rightarrow> 'a \<times> world" where
  "os_call f w = (f (tick w), w\<lparr>tick := Suc (tick w)\<rparr>)"

definition log_closed :: "SOCKET list \<Rightarrow> world \<Rightarrow> world" where
  "log_closed ss w = w\<lparr>trace := trace w @ map Closed ss\<rparr>"

definition post_io :: "comp_key \<Rightarrow> objref \<Rightarrow> world \<Rightarrow> world" where
  "post_io k ob w = w\<lparr>pending := pending w @ [(k, ob)]\<rparr>"

text \<open>Stores through a pointer.\<close>

definition put_rsock :: "addr \<Rightarrow> recv_sock \<Rightarrow> world \<Rightarrow> world" where
  "put_rsock p rs w = w\<lparr>rsocks := (rsocks w)(p \<mapsto> rs)\<rparr>"

definition put_robj :: "addr \<Rightarrow> recv_obj \<Rightarrow> world \<Rightarrow> world" where
  "put_robj p ro w = w\<lparr>robjs := (robjs w)(p \<mapsto> ro)\<rparr>"

definition put_bsock :: "addr \<Rightarrow> buffer_sock \<Rightarrow> world \<Rightarrow> world" where
  "put_bsock p bs w = w\<lparr>bsocks := (bsocks w)(p \<mapsto> bs)\<rparr>"

definition put_bobj :: "addr \<Rightarrow> buffer_obj \<Rightarrow> world \<Rightarrow> world" where
  "put_bobj p bo w = w\<lparr>bobjs := (bobjs w)(p \<mapsto> bo)\<rparr>"

definition put_lsock :: "addr \<Rightarrow> listen_sock \<Rightarrow> world \<Rightarrow> world" where
  "put_lsock p ls w = w\<lparr>lsocks := (lsocks w)(p \<mapsto> ls)\<rparr>"

definition update_rsock :: "addr \<Rightarrow> (recv_sock \<Rightarrow> recv_sock) \<Rightarrow> world \<Rightarrow> world option" where
  "update_rsock p f w = do { rs \<leftarrow> rsocks w p; Some (put_rsock p (f rs) w) }"

definition update_robj :: "addr \<Rightarrow> (recv_obj \<Rightarrow> recv_obj) \<Rightarrow> world \<Rightarrow> world option" where
  "update_robj p f w = do { ro \<leftarrow> robjs w p; Some (put_robj p (f ro) w) }"

definition update_bsock :: "addr \<Rightarrow> (buffer_sock \<Rightarrow> buffer_sock) \<Rightarrow> world \<Rightarrow> world option" where
  "update_bsock p f w = do { bs \<leftarrow> bsocks w p; Some (put_bsock p (f bs) w) }"

definition update_bobj :: "addr \<Rightarrow> (buffer_obj \<Rightarrow> buffer_obj) \<Rightarrow> world \<Rightarrow> world option" where
  "update_bobj p f w = do { bo \<leftarrow> bobjs w p; Some (put_bobj p (f bo) w) }"

definition update_lsock :: "addr \<Rightarrow> (listen_sock \<Rightarrow> listen_sock) \<Rightarrow> world \<Rightarrow> world option" where
  "update_lsock p f w = do { ls \<leftarrow> lsocks w p; Some (put_lsock p (f ls) w) }"

lemmas put_defs = put_rsock_def put_robj_def put_bsock_def put_bobj_def put_lsock_def

lemmas update_defs = update_rsock_def update_robj_def update_bsock_def update_bobj_def update_lsock_def

subsection \<open>\<^verbatim>\<open>ms_data.cpp\<close>\<close>

definition GetRand :: "os_env \<Rightarrow> world \<Rightarrow> int \<times> world" where
  "GetRand e w = os_call (os_rand e) w"

text \<open>\<^verbatim>\<open>CMCloseSocket\<close> on the objects that start with a \<^verbatim>\<open>KEY_VALUE\<close>.\<close>

fun CMCloseSocket :: "sockref \<Rightarrow> world \<Rightarrow> world option" where
  "CMCloseSocket (RS p) w = do {
     rs \<leftarrow> rsocks w p;
     if rs_sock rs \<noteq> INVALID_SOCKET
     then Some (put_rsock p (rs\<lparr>rs_sock := INVALID_SOCKET\<rparr>) (log_closed [rs_sock rs] w))
     else Some w }"
| "CMCloseSocket (BS p) w = do {
     bs \<leftarrow> bsocks w p;
     if bs_sock bs \<noteq> INVALID_SOCKET
     then Some (put_bsock p (bs\<lparr>bs_sock := INVALID_SOCKET\<rparr>) (log_closed [bs_sock bs] w))
     else Some w }"

text \<open>\<^verbatim>\<open>CMCloseSocket\<close> applied to a \<^verbatim>\<open>BUFFER_OBJ\<close>, as \<^verbatim>\<open>CheckNCData\<close> does: the word read as the socket
  is the second word of the object's \<^verbatim>\<open>OVERLAPPED\<close>.\<close>

definition CMCloseSocket_bobj :: "addr \<Rightarrow> world \<Rightarrow> world option" where
  "CMCloseSocket_bobj p w = do {
     bo \<leftarrow> bobjs w p;
     if bo_InternalHigh bo \<noteq> INVALID_SOCKET
     then Some (put_bobj p (bo\<lparr>bo_InternalHigh := INVALID_SOCKET\<rparr>) (log_closed [bo_InternalHigh bo] w))
     else Some w }"

subsection \<open>The initial state\<close>

text \<open>The globals before \<^verbatim>\<open>main\<close> runs; \<^verbatim>\<open>WSA_MAXIMUM_WAIT_EVENTS\<close> is 64.\<close>

definition boot_world :: world where
  "boot_world =
     \<lparr>rsocks = Map.empty, robjs = Map.empty, bsocks = Map.empty, bobjs = Map.empty, lsocks = Map.empty,
      v_RSock = [], v_RObj = [], v_BSock = [], v_BObj = [], LSock_Array = replicate 64 NULL,
      hEvent_Array = replicate 64 0, g_dwListenCount = 0, g_dwPagesize = 0, pending = [], next_addr = 1,
      hComport = 0, hUniqueInstance = 0, lpfnAccpetEx = 0, lpfnGetAcceptExSockaddrs = 0, lpfnConnectEx = 0,
      tick = 0, trace = []\<rparr>"

text \<open>A system on which every call succeeds; the sizes are those of the 64-bit build.\<close>

definition calm_env :: os_env where
  "calm_env =
     \<lparr>heap_ok = \<lambda>_. True, os_socket = \<lambda>t. of_nat (t + 100), os_rand = \<lambda>t. int t, os_AcceptEx = \<lambda>_. (False, 997),
      os_WSARecv = \<lambda>_. (0, 0), os_WSASend = \<lambda>_. (0, 0), os_CreateIoCompletionPort = \<lambda>_. 1,
      os_PostQueuedCompletionStatus = \<lambda>_. 1, os_StrStrI = \<lambda>_ _. None, os_OpenEvent = \<lambda>_. 0,
      os_CreateEvent = \<lambda>_. 1, os_WSAStartup = \<lambda>_. 0, os_WSAIoctl = \<lambda>t. (0, Suc t), os_WSACreateEvent = \<lambda>t. Suc t,
      os_WSAEventSelect = \<lambda>_. 0, os_bind = \<lambda>_. 0, os_listen = \<lambda>_. 0, os_GetSystemInfo = \<lambda>_. (1, 4096),
      os_beginthreadex = \<lambda>t. Suc t, os_WSAWaitForMultipleEvents = \<lambda>_. 0, os_WaitForSingleObject = \<lambda>_. 0,
      os_getsockopt = \<lambda>_. (0, 61), os_indeterminate = \<lambda>_. INVALID_SOCKET,
      RECV_SOCK_SIZE = 160, BUFFER_OBJ_SIZE = 88\<rparr>"

end
