(* ===== verification/Memory.thy ===== *)
theory Memory
  imports World
begin

text \<open>
  The object pools of \<^verbatim>\<open>ms_memory.cpp\<close>: four vectors of free objects of at most 500 elements
  each, in front of the process heap. The interface \<open>object_pool\<close> states what the
  completion routines rely on, and is interpreted for the four pairs of functions.
\<close>

abbreviation (input) RSOCK_SIZE_MAX :: nat where "RSOCK_SIZE_MAX \<equiv> 500"
abbreviation (input) ROBJ_SIZE_MAX :: nat where "ROBJ_SIZE_MAX \<equiv> 500"
abbreviation (input) BSOCK_SIZE_MAX :: nat where "BSOCK_SIZE_MAX \<equiv> 500"
abbreviation (input) BOBJ_SIZE_MAX :: nat where "BOBJ_SIZE_MAX \<equiv> 500"

definition InitMemory :: "world \<Rightarrow> world" where
  "InitMemory w = w\<lparr>v_RSock := [], v_RObj := [], v_BSock := [], v_BObj := []\<rparr>"

subsection \<open>Fresh objects: \<^verbatim>\<open>HeapAlloc\<close> with \<^verbatim>\<open>HEAP_ZERO_MEMORY\<close>\<close>

definition HeapAlloc :: "os_env \<Rightarrow> world \<Rightarrow> addr \<times> world" where
  "HeapAlloc e w =
     (let (ok, w) = os_call (heap_ok e) w in
      if ok then (next_addr w, w\<lparr>next_addr := Suc (next_addr w)\<rparr>) else (NULL, w))"

definition zero_wsabuf :: wsabuf where
  "zero_wsabuf = \<lparr>wb_buf = None, wb_len = 0\<rparr>"

definition zero_recv_sock :: "nat \<Rightarrow> recv_sock" where
  "zero_recv_sock n =
     \<lparr>rs_nKey = 0, rs_sock = 0, lstSend = None, wsabuf0 = zero_wsabuf, wsabuf1 = zero_wsabuf,
      dwBufsize = 0, dwWritepos = 0, dwReadpos = 0, dwRightsize = 0, dwLeftsize = 0,
      bFull = False, bEmpty = False, rs_sum = 0, nRef = 0, buf = replicate n 0\<rparr>"

definition zero_recv_obj :: recv_obj where
  "zero_recv_obj = \<lparr>ro_fpSuccess = None, ro_fpFailed = None, ro_pRelateSock = NULL\<rparr>"

definition zero_buffer_sock :: buffer_sock where
  "zero_buffer_sock = \<lparr>bs_nKey = 0, bs_sock = 0, bs_sAddrInfo = NULL\<rparr>"

definition zero_buffer_obj :: "nat \<Rightarrow> buffer_obj" where
  "zero_buffer_obj n =
     \<lparr>bo_InternalHigh = 0, bo_fpSuccess = None, bo_fpFailed = None, bo_pRelateSock = NULL,
      bo_wsaBuf = zero_wsabuf, dwRecvedCount = 0, dwSendedCount = 0, datalen = 0,
      data = replicate n 0\<rparr>"

subsection \<open>\<^verbatim>\<open>RECV_SOCK\<close>\<close>

text \<open>A fresh object gets its list through \<^verbatim>\<open>pRSock->lstSend\<close> before the pointer is tested, so a
  failed \<^verbatim>\<open>HeapAlloc\<close> is a null dereference.\<close>

definition allocRSock :: "os_env \<Rightarrow> DWORD \<Rightarrow> world \<Rightarrow> (addr \<times> world) option" where
  "allocRSock e dwSize w = do {
     (p, w) \<leftarrow>
       (if v_RSock w = []
        then let (p, w) = HeapAlloc e w in
          if p = NULL then None
          else Some (p, put_rsock p ((zero_recv_sock (unat (dwSize - RECV_SOCK_SIZE e)))\<lparr>lstSend := Some []\<rparr>) w)
        else Some (last (v_RSock w), w\<lparr>v_RSock := butlast (v_RSock w)\<rparr>));
     rs \<leftarrow> rsocks w p;
     (rs, closed) \<leftarrow> RSock_Init (dwSize - RECV_SOCK_SIZE e) rs;
     Some (p, put_rsock p rs (log_closed closed w)) }"

definition freeRSock :: "addr \<Rightarrow> world \<Rightarrow> world option" where
  "freeRSock p w = do {
     rs \<leftarrow> rsocks w p;
     if length (v_RSock w) < RSOCK_SIZE_MAX then Some (w\<lparr>v_RSock := v_RSock w @ [p]\<rparr>)
     else Some (w\<lparr>rsocks := (rsocks (put_rsock p (RSock_Clear rs) w))(p := None)\<rparr>) }"

subsection \<open>\<^verbatim>\<open>RECV_OBJ\<close>\<close>

definition allocRObj :: "os_env \<Rightarrow> world \<Rightarrow> (addr \<times> world) option" where
  "allocRObj e w =
     (let (p, w) =
        (if v_RObj w = []
         then let (p, w) = HeapAlloc e w in (p, if p = NULL then w else put_robj p zero_recv_obj w)
         else (last (v_RObj w), w\<lparr>v_RObj := butlast (v_RObj w)\<rparr>)) in
      if p \<noteq> NULL then do { w \<leftarrow> update_robj p RObj_Init w; Some (p, w) } else Some (p, w))"

definition freeRObj :: "addr \<Rightarrow> world \<Rightarrow> world option" where
  "freeRObj p w = do {
     ro \<leftarrow> robjs w p;
     if length (v_RObj w) < ROBJ_SIZE_MAX then Some (w\<lparr>v_RObj := v_RObj w @ [p]\<rparr>)
     else Some (w\<lparr>robjs := (robjs w)(p := None)\<rparr>) }"

subsection \<open>\<^verbatim>\<open>BUFFER_SOCK\<close>\<close>

definition allocBSock :: "os_env \<Rightarrow> world \<Rightarrow> (addr \<times> world) option" where
  "allocBSock e w =
     (let (p, w) =
        (if v_BSock w = []
         then let (p, w) = HeapAlloc e w in (p, if p = NULL then w else put_bsock p zero_buffer_sock w)
         else (last (v_BSock w), w\<lparr>v_BSock := butlast (v_BSock w)\<rparr>)) in
      if p \<noteq> NULL
      then do {
        bs \<leftarrow> bsocks w p;
        let (bs, closed, freed) = BSock_Init bs;
        Some (p, put_bsock p bs (w\<lparr>trace := trace w @ map Closed closed @ map FreedAddrInfo freed\<rparr>)) }
      else Some (p, w))"

definition freeBSock :: "addr \<Rightarrow> world \<Rightarrow> world option" where
  "freeBSock p w = do {
     bs \<leftarrow> bsocks w p;
     if length (v_BSock w) < BSOCK_SIZE_MAX then Some (w\<lparr>v_BSock := v_BSock w @ [p]\<rparr>)
     else Some (w\<lparr>bsocks := (bsocks w)(p := None)\<rparr>) }"

subsection \<open>\<^verbatim>\<open>BUFFER_OBJ\<close>\<close>

definition allocBObj :: "os_env \<Rightarrow> DWORD \<Rightarrow> world \<Rightarrow> (addr \<times> world) option" where
  "allocBObj e dwSize w =
     (let (p, w) =
        (if v_BObj w = []
         then let (p, w) = HeapAlloc e w in
           (p, if p = NULL then w else put_bobj p (zero_buffer_obj (unat (dwSize - BUFFER_OBJ_SIZE e))) w)
         else (last (v_BObj w), w\<lparr>v_BObj := butlast (v_BObj w)\<rparr>)) in
      if p \<noteq> NULL then do { w \<leftarrow> update_bobj p (BObj_Init (dwSize - BUFFER_OBJ_SIZE e)) w; Some (p, w) }
      else Some (p, w))"

definition freeBObj :: "addr \<Rightarrow> world \<Rightarrow> world option" where
  "freeBObj p w = do {
     bo \<leftarrow> bobjs w p;
     if length (v_BObj w) < BOBJ_SIZE_MAX then Some (w\<lparr>v_BObj := v_BObj w @ [p]\<rparr>)
     else Some (w\<lparr>bobjs := (bobjs w)(p := None)\<rparr>) }"

lemmas alloc_defs = allocRSock_def allocRObj_def allocBSock_def allocBObj_def
lemmas free_defs = freeRSock_def freeRObj_def freeBSock_def freeBObj_def

subsection \<open>The interface of a pool\<close>

text \<open>
  An object is in use when it exists and is not in the free list. Allocation hands out an object
  that was not in use, freeing takes exactly that object out of use, and the free list never grows
  past its capacity. \<open>cell\<close> is what every object of the heap satisfies.
\<close>

definition pool_use :: "addr list \<Rightarrow> (addr \<rightharpoonup> 'obj) \<Rightarrow> addr set" where
  "pool_use v h = dom h - set v"

definition pool_inv :: "nat \<Rightarrow> ('obj \<Rightarrow> bool) \<Rightarrow> addr \<Rightarrow> addr list \<Rightarrow> (addr \<rightharpoonup> 'obj) \<Rightarrow> bool" where
  "pool_inv cap cell bnd v h \<longleftrightarrow>
     distinct v \<and> set v \<subseteq> dom h \<and> length v \<le> cap \<and> 0 < bnd \<and>
     (\<forall>p ob. h p = Some ob \<longrightarrow> 0 < p \<and> p < bnd \<and> cell ob)"

locale object_pool =
  fixes pool :: "'w \<Rightarrow> addr list"
    and heap :: "'w \<Rightarrow> addr \<rightharpoonup> 'obj"
    and pool_ok :: "'w \<Rightarrow> bool"
    and cap :: nat
    and alloc :: "'w \<Rightarrow> (addr \<times> 'w) option"
    and free :: "addr \<Rightarrow> 'w \<Rightarrow> 'w option"
  assumes capacity: "pool_ok w \<Longrightarrow> length (pool w) \<le> cap"
    and alloc_law: "pool_ok w \<Longrightarrow> alloc w = Some (p, w') \<Longrightarrow>
      pool_ok w' \<and>
      (if p = 0 then pool_use (pool w') (heap w') = pool_use (pool w) (heap w)
       else p \<notin> pool_use (pool w) (heap w) \<and>
            pool_use (pool w') (heap w') = insert p (pool_use (pool w) (heap w)))"
    and free_law: "pool_ok w \<Longrightarrow> p \<in> pool_use (pool w) (heap w) \<Longrightarrow>
      \<exists>w'. free p w = Some w' \<and> pool_ok w' \<and>
           pool_use (pool w') (heap w') = pool_use (pool w) (heap w) - {p}"
begin

abbreviation (input) in_use :: "'w \<Rightarrow> addr set" where
  "in_use w \<equiv> pool_use (pool w) (heap w)"

text \<open>A run of allocations and frees, a client that frees only what it holds.\<close>

inductive client :: "'w \<Rightarrow> addr set \<Rightarrow> 'w \<Rightarrow> addr set \<Rightarrow> bool" where
  start: "client w H w H"
| get: "client w H w1 H1 \<Longrightarrow> alloc w1 = Some (p, w2) \<Longrightarrow> p \<noteq> 0 \<Longrightarrow> client w H w2 (insert p H1)"
| fail: "client w H w1 H1 \<Longrightarrow> alloc w1 = Some (p, w2) \<Longrightarrow> p = 0 \<Longrightarrow> client w H w2 H1"
| put: "client w H w1 H1 \<Longrightarrow> p \<in> H1 \<Longrightarrow> free p w1 = Some w2 \<Longrightarrow> client w H w2 (H1 - {p})"

lemma client_in_use:
  assumes "client w H w' H'" and "pool_ok w" and "in_use w = H"
  shows "pool_ok w' \<and> in_use w' = H'"
  using assms
proof (induction rule: client.induct)
  case (start w H)
  then show ?case by simp
next
  case (get w H w1 H1 p w2)
  then show ?case using alloc_law [of w1 p w2] by simp
next
  case (fail w H w1 H1 p w2)
  then show ?case using alloc_law [of w1 p w2] by simp
next
  case (put w H w1 H1 p w2)
  then show ?case using free_law [of w1 p] by auto
qed

lemma pool_bounded: "client w H w' H' \<Longrightarrow> pool_ok w \<Longrightarrow> in_use w = H \<Longrightarrow> length (pool w') \<le> cap"
  using client_in_use capacity by blast

text \<open>No allocation returns an object the client still holds.\<close>

lemma alloc_not_held:
  "client w H w1 H1 \<Longrightarrow> pool_ok w \<Longrightarrow> in_use w = H \<Longrightarrow> alloc w1 = Some (p, w2) \<Longrightarrow> p \<noteq> 0 \<Longrightarrow> p \<notin> H1"
  using client_in_use [of w H w1 H1] alloc_law [of w1 p w2] by auto

end

subsection \<open>Facts about one free list\<close>

lemma pool_last:
  assumes "pool_inv cap cell bnd v h" and "v \<noteq> []"
  shows "last v \<notin> pool_use v h" and "0 < last v" and "\<exists>ob. h (last v) = Some ob \<and> cell ob"
proof -
  have "last v \<in> set v" using assms(2) by simp
  then show "last v \<notin> pool_use v h" and "0 < last v" and "\<exists>ob. h (last v) = Some ob \<and> cell ob"
    using assms(1) by (auto simp: pool_inv_def pool_use_def)
qed

lemma pool_inv_pop:
  assumes "pool_inv cap cell bnd v h" and "v \<noteq> []" and "cell ob"
  shows "pool_inv cap cell bnd (butlast v) (h(last v \<mapsto> ob))"
    and "pool_use (butlast v) (h(last v \<mapsto> ob)) = insert (last v) (pool_use v h)"
proof -
  obtain v' p where v: "v = v' @ [p]" using assms(2) by (metis append_butlast_last_id)
  show "pool_inv cap cell bnd (butlast v) (h(last v \<mapsto> ob))"
    "pool_use (butlast v) (h(last v \<mapsto> ob)) = insert (last v) (pool_use v h)"
    using assms(1,3) by (auto simp: v pool_inv_def pool_use_def dom_def)
qed

lemma pool_fresh:
  assumes "pool_inv cap cell bnd v h"
  shows "h bnd = None" and "bnd \<notin> pool_use v h" and "0 < bnd"
  using assms by (cases "h bnd"; fastforce simp: pool_inv_def pool_use_def)+

lemma pool_inv_fresh:
  assumes "pool_inv cap cell bnd v h" and "cell ob"
  shows "pool_inv cap cell (Suc bnd) v (h(bnd \<mapsto> ob))"
    and "pool_use v (h(bnd \<mapsto> ob)) = insert bnd (pool_use v h)"
  using assms pool_fresh [OF assms(1)]
  by (auto simp: pool_inv_def pool_use_def dom_def less_Suc_eq)

lemma pool_inv_push:
  assumes "pool_inv cap cell bnd v h" and "p \<in> pool_use v h" and "length v < cap"
  shows "pool_inv cap cell bnd (v @ [p]) h" and "pool_use (v @ [p]) h = pool_use v h - {p}"
  using assms by (auto simp: pool_inv_def pool_use_def)

lemma pool_inv_release:
  assumes "pool_inv cap cell bnd v h" and "p \<in> pool_use v h"
  shows "pool_inv cap cell bnd v (h(p := None))" and "pool_use v (h(p := None)) = pool_use v h - {p}"
  using assms by (auto simp: pool_inv_def pool_use_def)

lemma pool_inv_bound_mono: "pool_inv cap cell bnd v h \<Longrightarrow> bnd \<le> bnd' \<Longrightarrow> pool_inv cap cell bnd' v h"
  by (fastforce simp: pool_inv_def)

lemma pool_inv_update:
  assumes "pool_inv cap cell bnd v h" and "h p \<noteq> None" and "cell ob"
  shows "pool_inv cap cell bnd v (h(p \<mapsto> ob))" and "pool_use v (h(p \<mapsto> ob)) = pool_use v h"
  using assms by (auto simp: pool_inv_def pool_use_def)

subsection \<open>The four pools\<close>

definition rsock_pool_ok :: "world \<Rightarrow> bool" where
  "rsock_pool_ok w \<longleftrightarrow> pool_inv RSOCK_SIZE_MAX (\<lambda>rs. lstSend rs \<noteq> None) (next_addr w) (v_RSock w) (rsocks w)"

definition robj_pool_ok :: "world \<Rightarrow> bool" where
  "robj_pool_ok w \<longleftrightarrow> pool_inv ROBJ_SIZE_MAX (\<lambda>_. True) (next_addr w) (v_RObj w) (robjs w)"

definition bsock_pool_ok :: "world \<Rightarrow> bool" where
  "bsock_pool_ok w \<longleftrightarrow> pool_inv BSOCK_SIZE_MAX (\<lambda>_. True) (next_addr w) (v_BSock w) (bsocks w)"

definition bobj_pool_ok :: "world \<Rightarrow> bool" where
  "bobj_pool_ok w \<longleftrightarrow> pool_inv BOBJ_SIZE_MAX (\<lambda>_. True) (next_addr w) (v_BObj w) (bobjs w)"

interpretation rsock_pool: object_pool v_RSock rsocks rsock_pool_ok RSOCK_SIZE_MAX "allocRSock e n" freeRSock
  for e n
proof unfold_locales
  fix w p w'
  assume ok: "rsock_pool_ok w"
  then show "length (v_RSock w) \<le> RSOCK_SIZE_MAX" by (simp add: rsock_pool_ok_def pool_inv_def)
  {
    assume a: "allocRSock e n w = Some (p, w')"
    show "rsock_pool_ok w' \<and>
      (if p = 0 then pool_use (v_RSock w') (rsocks w') = pool_use (v_RSock w) (rsocks w)
       else p \<notin> pool_use (v_RSock w) (rsocks w) \<and>
            pool_use (v_RSock w') (rsocks w') = insert p (pool_use (v_RSock w) (rsocks w)))"
    proof (cases "v_RSock w = []")
      case True
      with a ok pool_inv_fresh [OF ok [unfolded rsock_pool_ok_def]]
        pool_fresh [OF ok [unfolded rsock_pool_ok_def]] show ?thesis
        by (auto simp: allocRSock_def HeapAlloc_def os_call_def put_rsock_def log_closed_def
            RSock_Init_def rsock_pool_ok_def Let_def split: if_splits prod.splits)
    next
      case False
      with a ok pool_inv_pop [OF ok [unfolded rsock_pool_ok_def]]
        pool_last [OF ok [unfolded rsock_pool_ok_def]] show ?thesis
        by (auto simp: allocRSock_def put_rsock_def log_closed_def
            RSock_Init_def rsock_pool_ok_def Let_def bind_eq_Some_conv split: option.splits)
    qed
  }
  assume p: "p \<in> pool_use (v_RSock w) (rsocks w)"
  then obtain rs where rs: "rsocks w p = Some rs" by (auto simp: pool_use_def)
  show "\<exists>w'. freeRSock p w = Some w' \<and> rsock_pool_ok w' \<and>
      pool_use (v_RSock w') (rsocks w') = pool_use (v_RSock w) (rsocks w) - {p}"
    using rs pool_inv_push [OF ok [unfolded rsock_pool_ok_def] p]
      pool_inv_release [OF ok [unfolded rsock_pool_ok_def] p]
    by (auto simp: freeRSock_def rsock_pool_ok_def put_rsock_def)
qed

interpretation robj_pool: object_pool v_RObj robjs robj_pool_ok ROBJ_SIZE_MAX "allocRObj e" freeRObj
  for e
proof unfold_locales
  fix w p w'
  assume ok: "robj_pool_ok w"
  note inv = ok [unfolded robj_pool_ok_def]
  show "length (v_RObj w) \<le> ROBJ_SIZE_MAX" using inv by (simp add: pool_inv_def)
  show "robj_pool_ok w' \<and>
      (if p = 0 then pool_use (v_RObj w') (robjs w') = pool_use (v_RObj w) (robjs w)
       else p \<notin> pool_use (v_RObj w) (robjs w) \<and>
            pool_use (v_RObj w') (robjs w') = insert p (pool_use (v_RObj w) (robjs w)))"
    if "allocRObj e w = Some (p, w')"
    proof (cases "v_RObj w = []")
      case True
      then show ?thesis
        using that inv pool_inv_fresh [OF inv] pool_fresh [OF inv]
        by (auto simp: alloc_defs HeapAlloc_def os_call_def put_defs update_defs robj_pool_ok_def 
          Let_def bind_eq_Some_conv split: if_splits prod.splits)
    next
      case False
      then show ?thesis
        using that pool_inv_pop [OF inv] pool_last [OF inv]
        by (auto simp: alloc_defs HeapAlloc_def os_call_def put_defs update_defs robj_pool_ok_def 
          Let_def bind_eq_Some_conv split: if_splits prod.splits)
    qed
  assume p: "p \<in> pool_use (v_RObj w) (robjs w)"
  then show "\<exists>w'. freeRObj p w = Some w' \<and> robj_pool_ok w' \<and>
      pool_use (v_RObj w') (robjs w') = pool_use (v_RObj w) (robjs w) - {p}"
    using pool_inv_push [OF inv p] pool_inv_release [OF inv p]
    by (auto simp: free_defs robj_pool_ok_def pool_use_def)
qed

lemma allocBSock_pop:
  assumes "v_BSock w \<noteq> []" and "0 < last (v_BSock w)" and "bsocks w (last (v_BSock w)) = Some bs"
  shows "\<exists>bs' t. allocBSock e w = Some (last (v_BSock w),
           put_bsock (last (v_BSock w)) bs' (w\<lparr>v_BSock := butlast (v_BSock w), trace := t\<rparr>))"
  using assms by (cases "BSock_Init bs") (simp add: allocBSock_def Let_def, blast)

interpretation bsock_pool: object_pool v_BSock bsocks bsock_pool_ok BSOCK_SIZE_MAX "allocBSock e" freeBSock
  for e
proof unfold_locales
  fix w p w'
  assume ok: "bsock_pool_ok w"
  note inv = ok [unfolded bsock_pool_ok_def]
  show "length (v_BSock w) \<le> BSOCK_SIZE_MAX" using inv by (simp add: pool_inv_def)
  show "bsock_pool_ok w' \<and>
      (if p = 0 then pool_use (v_BSock w') (bsocks w') = pool_use (v_BSock w) (bsocks w)
       else p \<notin> pool_use (v_BSock w) (bsocks w) \<and>
            pool_use (v_BSock w') (bsocks w') = insert p (pool_use (v_BSock w) (bsocks w)))"
    if "allocBSock e w = Some (p, w')"
    proof (cases "v_BSock w = []")
      case True
      then show ?thesis
        using that inv pool_inv_fresh [OF inv] pool_fresh [OF inv]
        by (auto simp: alloc_defs HeapAlloc_def os_call_def put_defs update_defs bsock_pool_ok_def BSock_Init_def
          Let_def bind_eq_Some_conv split: if_splits prod.splits)
    next
      case False
      obtain bs where "bsocks w (last (v_BSock w)) = Some bs"
        using pool_last(3) [OF inv False] by blast
      from allocBSock_pop [OF False pool_last(2) [OF inv False] this, of e] that
      show ?thesis
        using pool_inv_pop [OF inv False] pool_last [OF inv False]
        by (auto simp: put_bsock_def bsock_pool_ok_def)
    qed
  assume p: "p \<in> pool_use (v_BSock w) (bsocks w)"
  then show "\<exists>w'. freeBSock p w = Some w' \<and> bsock_pool_ok w' \<and>
      pool_use (v_BSock w') (bsocks w') = pool_use (v_BSock w) (bsocks w) - {p}"
    using pool_inv_push [OF inv p] pool_inv_release [OF inv p]
    by (auto simp: free_defs bsock_pool_ok_def pool_use_def)
qed

interpretation bobj_pool: object_pool v_BObj bobjs bobj_pool_ok BOBJ_SIZE_MAX "allocBObj e n" freeBObj
  for e n
proof unfold_locales
  fix w p w'
  assume ok: "bobj_pool_ok w"
  note inv = ok [unfolded bobj_pool_ok_def]
  show "length (v_BObj w) \<le> BOBJ_SIZE_MAX" using inv by (simp add: pool_inv_def)
  show "bobj_pool_ok w' \<and>
      (if p = 0 then pool_use (v_BObj w') (bobjs w') = pool_use (v_BObj w) (bobjs w)
       else p \<notin> pool_use (v_BObj w) (bobjs w) \<and>
            pool_use (v_BObj w') (bobjs w') = insert p (pool_use (v_BObj w) (bobjs w)))"
    if "allocBObj e n w = Some (p, w')"
    proof (cases "v_BObj w = []")
      case True
      then show ?thesis
        using that inv pool_inv_fresh [OF inv] pool_fresh [OF inv]
        by (auto simp: alloc_defs HeapAlloc_def os_call_def put_defs update_defs bobj_pool_ok_def 
          Let_def bind_eq_Some_conv split: if_splits prod.splits)
    next
      case False
      then show ?thesis
        using that pool_inv_pop [OF inv] pool_last [OF inv]
        by (auto simp: alloc_defs HeapAlloc_def os_call_def put_defs update_defs bobj_pool_ok_def 
          Let_def bind_eq_Some_conv split: if_splits prod.splits)
    qed
  assume p: "p \<in> pool_use (v_BObj w) (bobjs w)"
  then show "\<exists>w'. freeBObj p w = Some w' \<and> bobj_pool_ok w' \<and>
      pool_use (v_BObj w') (bobjs w') = pool_use (v_BObj w) (bobjs w) - {p}"
    using pool_inv_push [OF inv p] pool_inv_release [OF inv p]
    by (auto simp: free_defs bobj_pool_ok_def pool_use_def)
qed

end
