(* ===== verification/Client.thy ===== *)
theory Client
  imports Memory
begin

text \<open>
  The client connections: posting of overlapped operations (\<^verbatim>\<open>ms_client_request.cpp\<close>), their
  completion routines (\<^verbatim>\<open>ms_client_requestcompletion.cpp\<close>) and the command routines
  (\<^verbatim>\<open>ms_cmd.cpp\<close>). A routine maps the state to the state after it; \<^const>\<open>None\<close> is undefined behaviour or,
  for the loops, a loop that does not end.
\<close>

subsection \<open>Shared steps\<close>

fun sock_key :: "sockref \<Rightarrow> world \<Rightarrow> int option" where
  "sock_key (RS p) w = map_option rs_nKey (rsocks w p)"
| "sock_key (BS p) w = map_option bs_nKey (bsocks w p)"

text \<open>\<^verbatim>\<open>pLSock->DeleteFromPendingMap(sock)\<close>: the key is read through the socket object.\<close>

definition delete_pending :: "addr \<Rightarrow> sockref \<Rightarrow> world \<Rightarrow> world option" where
  "delete_pending l p w = do { k \<leftarrow> sock_key p w; update_lsock l (DeleteFromPendingMap k) w }"

text \<open>\<^verbatim>\<open>if (0 == InterlockedDecrement(&pRSock->nRef)) { CMCloseSocket(pRSock); freeRSock(pRSock); }\<close>\<close>

definition unref_rsock :: "addr \<Rightarrow> world \<Rightarrow> world option" where
  "unref_rsock p w = do {
     rs \<leftarrow> rsocks w p;
     let n = nRef rs - 1;
     let w = put_rsock p (rs\<lparr>nRef := n\<rparr>) w;
     if n = 0 then do { w \<leftarrow> CMCloseSocket (RS p) w; freeRSock p w } else Some w }"

subsection \<open>\<^verbatim>\<open>ms_client_request.cpp\<close>\<close>

definition Client_PostAcceptEx :: "os_env \<Rightarrow> addr \<Rightarrow> world \<Rightarrow> (bool \<times> world) option" where
  "Client_PostAcceptEx e l w = do {
     (ro, w) \<leftarrow> allocRObj e w;
     if ro = NULL then Some (False, w)
     else do {
       (rp, w) \<leftarrow> allocRSock e (g_dwPagesize w * 8) w;
       if rp = NULL then do { w \<leftarrow> freeRObj ro w; Some (False, w) }
       else do {
         let (s, w) = os_call (os_socket e) w;
         w \<leftarrow> update_rsock rp (\<lambda>rs. rs\<lparr>rs_sock := s\<rparr>) w;
         if s = INVALID_SOCKET
         then do { w \<leftarrow> freeRObj ro w; w \<leftarrow> freeRSock rp w; Some (False, w) }
         else do {
           w \<leftarrow> update_robj ro (\<lambda>r. RObj_SetIoRequestFunction Client_AcceptCompletion
                                    Client_AcceptCompletion (r\<lparr>ro_pRelateSock := rp\<rparr>)) w;
           let (k, w) = GetRand e w;
           w \<leftarrow> update_rsock rp (\<lambda>rs. rs\<lparr>rs_nKey := k\<rparr>) w;
           w \<leftarrow> update_lsock l (InsertIntoPendingMap k (RS rp)) w;
           let ((ok, err), w) = os_call (os_AcceptEx e) w;
           if \<not> ok \<and> WSA_IO_PENDING \<noteq> err
           then do {
             w \<leftarrow> delete_pending l (RS rp) w;
             w \<leftarrow> CMCloseSocket (RS rp) w;
             w \<leftarrow> freeRObj ro w;
             w \<leftarrow> freeRSock rp w;
             Some (False, w) }
           else Some (True, post_io (KeyL l) (RO ro) w) } } } }"

definition Client_PostZeroRecv :: "os_env \<Rightarrow> addr \<Rightarrow> addr \<Rightarrow> world \<Rightarrow> (bool \<times> world) option" where
  "Client_PostZeroRecv e rp ro w = do {
     w \<leftarrow> update_rsock rp (\<lambda>rs. rs\<lparr>wsabuf0 := zero_wsabuf, wsabuf1 := zero_wsabuf\<rparr>) w;
     let ((err, last), w) = os_call (os_WSARecv e) w;
     if SOCKET_ERROR = err \<and> WSA_IO_PENDING \<noteq> last then Some (False, w)
     else Some (True, post_io (KeyR rp) (RO ro) w) }"

definition Client_PostRecv :: "os_env \<Rightarrow> addr \<Rightarrow> addr \<Rightarrow> world \<Rightarrow> (bool \<times> world) option" where
  "Client_PostRecv e rp ro w = do {
     w \<leftarrow> update_rsock rp InitWSABUFS w;
     let ((err, last), w) = os_call (os_WSARecv e) w;
     if SOCKET_ERROR = err \<and> WSA_IO_PENDING \<noteq> last then Some (False, w)
     else Some (True, post_io (KeyR rp) (RO ro) w) }"

definition CLient_PostSend :: "os_env \<Rightarrow> addr \<Rightarrow> addr \<Rightarrow> world \<Rightarrow> (bool \<times> world) option" where
  "CLient_PostSend e rp bp w = do {
     w \<leftarrow> update_bobj bp (\<lambda>bo. bo\<lparr>bo_wsaBuf := \<lparr>wb_buf = Some (unat (dwSendedCount bo)),
                                       wb_len = dwRecvedCount bo - dwSendedCount bo\<rparr>\<rparr>) w;
     rs \<leftarrow> rsocks w rp;
     let ((err, last), w) = os_call (os_WSASend e) w;
     if SOCKET_ERROR = err \<and> WSA_IO_PENDING \<noteq> last then Some (False, w)
     else Some (True, post_io (KeyR rp) (BO bp) w) }"

subsection \<open>\<^verbatim>\<open>ms_cmd.cpp\<close>\<close>

definition Client_CmdCompletionFailed :: "addr \<Rightarrow> world \<Rightarrow> world option" where
  "Client_CmdCompletionFailed bp w = do {
     bo \<leftarrow> bobjs w bp;
     w \<leftarrow> unref_rsock (bo_pRelateSock bo) w;
     freeBObj bp w }"

text \<open>The body of the success routine is commented out in the source.\<close>

definition Client_CmdCompletionSuccess :: "DWORD \<Rightarrow> addr \<Rightarrow> world \<Rightarrow> world option" where
  "Client_CmdCompletionSuccess dwTranstion bp w = Some w"

subsection \<open>\<^verbatim>\<open>ms_client_requestcompletion.cpp\<close>\<close>

definition Client_AcceptCompletionFailed :: "addr \<Rightarrow> addr \<Rightarrow> world \<Rightarrow> world option" where
  "Client_AcceptCompletionFailed l ro w = do {
     r \<leftarrow> robjs w ro;
     let rp = ro_pRelateSock r;
     w \<leftarrow> delete_pending l (RS rp) w;
     w \<leftarrow> CMCloseSocket (RS rp) w;
     w \<leftarrow> freeRObj ro w;
     freeRSock rp w }"

text \<open>\<^verbatim>\<open>len = pRSock->GetCmdDataLength()\<close>\<close>

definition next_cmd :: "addr \<Rightarrow> world \<Rightarrow> (DWORD \<times> world) option" where
  "next_cmd rp w = do {
     rs \<leftarrow> rsocks w rp;
     (len, rs, closed) \<leftarrow> GetCmdDataLength rs;
     Some (len, put_rsock rp rs (log_closed closed w)) }"

text \<open>The body of the loop up to the call of \<^verbatim>\<open>PostQueuedCompletionStatus\<close>: a \<^verbatim>\<open>BUFFER_OBJ\<close> of one
  page takes the command and a reference on the connection. The pointer is not tested.\<close>

definition take_cmd :: "os_env \<Rightarrow> addr \<Rightarrow> DWORD \<Rightarrow> world \<Rightarrow> (addr \<times> world) option" where
  "take_cmd e rp len w = do {
     (bp, w) \<leftarrow> allocBObj e (g_dwPagesize w) w;
     bo \<leftarrow> bobjs w bp;
     rs \<leftarrow> rsocks w rp;
     (n, d, rs) \<leftarrow> Read (data bo) len rs;
     Some (bp, put_rsock rp (AddRef rs)
       (put_bobj bp (BObj_SetIoRequestFunction Client_CmdCompletion Client_CmdCompletion
          (bo\<lparr>data := d, dwRecvedCount := len, bo_pRelateSock := rp\<rparr>)) w)) }"

partial_function (option) accept_loop :: "os_env \<Rightarrow> addr \<Rightarrow> world \<Rightarrow> world option" where
  "accept_loop e rp w = do {
     (len, w) \<leftarrow> next_cmd rp w;
     if len = 0 then Some w
     else do {
       (bp, w) \<leftarrow> take_cmd e rp len w;
       let (rc, w) = os_call (os_PostQueuedCompletionStatus e) w;
       if rc = 0
       then do { w \<leftarrow> update_rsock rp DecRef w; w \<leftarrow> freeBObj bp w; accept_loop e rp w }
       else accept_loop e rp (post_io (KeyObj bp) (BO bp) w) } }"

definition Client_AcceptCompletionSuccess :: "os_env \<Rightarrow> DWORD \<Rightarrow> addr \<Rightarrow> addr \<Rightarrow> world \<Rightarrow> world option" where
  "Client_AcceptCompletionSuccess e dwTranstion l ro w =
     (if dwTranstion \<le> 0 then Client_AcceptCompletionFailed l ro w
      else do {
        r \<leftarrow> robjs w ro;
        let rp = ro_pRelateSock r;
        w \<leftarrow> delete_pending l (RS rp) w;
        let (h, w) = os_call (os_CreateIoCompletionPort e) w;
        if h = 0
        then do { w \<leftarrow> CMCloseSocket (RS rp) w; w \<leftarrow> freeRObj ro w; freeRSock rp w }
        else do {
          w \<leftarrow> update_rsock rp (InitWRpos dwTranstion) w;
          w \<leftarrow> accept_loop e rp w;
          w \<leftarrow> update_robj ro (RObj_SetIoRequestFunction Client_ZeroRecvCompletion Client_ZeroRecvCompletion) w;
          (ok, w) \<leftarrow> Client_PostZeroRecv e rp ro w;
          if \<not> ok then do { w \<leftarrow> unref_rsock rp w; freeRObj ro w } else Some w } })"

definition Client_ZeroRecvCompletionFailed :: "addr \<Rightarrow> addr \<Rightarrow> world \<Rightarrow> world option" where
  "Client_ZeroRecvCompletionFailed rp ro w = do { w \<leftarrow> unref_rsock rp w; freeRObj ro w }"

definition Client_ZeroRecvCompletionSuccess :: "os_env \<Rightarrow> DWORD \<Rightarrow> addr \<Rightarrow> addr \<Rightarrow> world \<Rightarrow> world option" where
  "Client_ZeroRecvCompletionSuccess e dwTranstion rp ro w = do {
     w \<leftarrow> update_robj ro (RObj_SetIoRequestFunction Client_RecvCompletion Client_RecvCompletion) w;
     (ok, w) \<leftarrow> Client_PostRecv e rp ro w;
     if \<not> ok then do { w \<leftarrow> unref_rsock rp w; freeRObj ro w } else Some w }"

definition Client_RecvCompletionFailed :: "addr \<Rightarrow> addr \<Rightarrow> world \<Rightarrow> world option" where
  "Client_RecvCompletionFailed rp ro w = do { w \<leftarrow> unref_rsock rp w; freeRObj ro w }"

text \<open>The loop of the receive routine; the flag says that the routine has returned.\<close>

partial_function (option) recv_loop :: "os_env \<Rightarrow> addr \<Rightarrow> world \<Rightarrow> (bool \<times> world) option" where
  "recv_loop e rp w = do {
     (len, w) \<leftarrow> next_cmd rp w;
     if len = 0 then Some (False, w)
     else do {
       (bp, w) \<leftarrow> take_cmd e rp len w;
       let (rc, w) = os_call (os_PostQueuedCompletionStatus e) w;
       if rc = 0
       then do {
         w \<leftarrow> freeBObj bp w;
         rs \<leftarrow> rsocks w rp;
         let n = nRef rs - 1;
         let w = put_rsock rp (rs\<lparr>nRef := n\<rparr>) w;
         if n = 0
         then do { w \<leftarrow> CMCloseSocket (RS rp) w; w \<leftarrow> freeRSock rp w; Some (True, w) }
         else recv_loop e rp w }
       else recv_loop e rp (post_io (KeyObj bp) (BO bp) w) } }"

definition Client_RecvCompletionSuccess :: "os_env \<Rightarrow> DWORD \<Rightarrow> addr \<Rightarrow> addr \<Rightarrow> world \<Rightarrow> world option" where
  "Client_RecvCompletionSuccess e dwTranstion rp ro w =
     (if dwTranstion \<le> 0 then Client_RecvCompletionFailed rp ro w
      else do {
        w \<leftarrow> update_rsock rp (InitWRpos dwTranstion) w;
        (returned, w) \<leftarrow> recv_loop e rp w;
        if returned then Some w
        else do {
          w \<leftarrow> update_robj ro (RObj_SetIoRequestFunction Client_ZeroRecvCompletion Client_ZeroRecvCompletion) w;
          (ok, w) \<leftarrow> Client_PostZeroRecv e rp ro w;
          if \<not> ok then do { w \<leftarrow> unref_rsock rp w; freeRObj ro w } else Some w } })"

partial_function (option) Client_SendCompletionFailed :: "os_env \<Rightarrow> addr \<Rightarrow> addr \<Rightarrow> world \<Rightarrow> world option" where
  "Client_SendCompletionFailed e rp bp w = do {
     rs \<leftarrow> rsocks w rp;
     (ob, rs) \<leftarrow> GetNextData rs;
     w \<leftarrow> freeBObj bp (put_rsock rp rs w);
     if ob \<noteq> NULL
     then do {
       w \<leftarrow> update_rsock rp DecRef w;
       w \<leftarrow> update_bobj ob (BObj_SetIoRequestFunction Client_SendCompletion Client_SendCompletion) w;
       (ok, w) \<leftarrow> CLient_PostSend e rp ob w;
       if \<not> ok then Client_SendCompletionFailed e rp ob w else Some w }
     else unref_rsock rp w }"

definition Client_SendCompletionSuccess :: "os_env \<Rightarrow> DWORD \<Rightarrow> addr \<Rightarrow> addr \<Rightarrow> world \<Rightarrow> world option" where
  "Client_SendCompletionSuccess e dwTranstion rp bp w =
     (if dwTranstion \<le> 0 then Client_SendCompletionFailed e rp bp w
      else do {
        w \<leftarrow> update_bobj bp (\<lambda>bo. bo\<lparr>dwSendedCount := dwSendedCount bo + dwTranstion\<rparr>) w;
        bo \<leftarrow> bobjs w bp;
        if dwSendedCount bo < dwRecvedCount bo
        then do {
          (ok, w) \<leftarrow> CLient_PostSend e rp bp w;
          if \<not> ok then Client_SendCompletionFailed e rp bp w else Some w }
        else do {
          rs \<leftarrow> rsocks w rp;
          (ob, rs) \<leftarrow> GetNextData rs;
          w \<leftarrow> freeBObj bp (put_rsock rp rs w);
          if ob \<noteq> NULL
          then do {
            w \<leftarrow> update_rsock rp DecRef w;
            w \<leftarrow> update_bobj ob (BObj_SetIoRequestFunction Client_SendCompletion Client_SendCompletion) w;
            (ok, w) \<leftarrow> CLient_PostSend e rp ob w;
            if \<not> ok then Client_SendCompletionFailed e rp ob w else Some w }
          else unref_rsock rp w } })"

end
