(* ===== verification/Nc.thy ===== *)
theory Nc
  imports Client
begin

text \<open>
  The push interface on port 80: HTTP requests received whole into one \<^verbatim>\<open>BUFFER_OBJ\<close>
  (\<^verbatim>\<open>ms_nc_request.cpp\<close>, \<^verbatim>\<open>ms_nc_requestcompletion.cpp\<close>). \<^verbatim>\<open>CheckNCData\<close> decides from the
  \<^verbatim>\<open>Content-Length\<close> header whether the request is complete.
\<close>

subsection \<open>C strings\<close>

definition bytes_of :: "string \<Rightarrow> byte list" where
  "bytes_of s = map of_char s"

text \<open>The string that starts at the beginning of a block; a block without a terminator is not a string.\<close>

definition c_string :: "byte list \<Rightarrow> byte list option" where
  "c_string m = (if 0 \<in> set m then Some (takeWhile (\<lambda>b. b \<noteq> 0) m) else None)"

text \<open>\<^verbatim>\<open>strstr\<close>\<close>

fun strstr :: "byte list \<Rightarrow> byte list \<Rightarrow> nat option" where
  "strstr [] pat = (if pat = [] then Some 0 else None)"
| "strstr (c # cs) pat =
     (if take (length pat) (c # cs) = pat then Some 0 else map_option Suc (strstr cs pat))"

text \<open>\<^verbatim>\<open>atoi\<close> on the few characters that are parsed here.\<close>

definition is_space :: "byte \<Rightarrow> bool" where
  "is_space b \<longleftrightarrow> b = 32 \<or> 9 \<le> b \<and> b \<le> 13"

definition is_digit :: "byte \<Rightarrow> bool" where
  "is_digit b \<longleftrightarrow> 48 \<le> b \<and> b \<le> 57"

fun atoi_digits :: "int \<Rightarrow> byte list \<Rightarrow> int" where
  "atoi_digits acc [] = acc"
| "atoi_digits acc (b # bs) = (if is_digit b then atoi_digits (10 * acc + int (unat b - 48)) bs else acc)"

definition atoi :: "byte list \<Rightarrow> int" where
  "atoi s =
     (case dropWhile is_space s of
        [] \<Rightarrow> 0
      | b # bs \<Rightarrow> if b = 45 then - atoi_digits 0 bs
                  else if b = 43 then atoi_digits 0 bs else atoi_digits 0 (b # bs))"

subsection \<open>\<^verbatim>\<open>CheckNCData\<close>\<close>

definition CRLF :: "byte list" where "CRLF = [13, 10]"

definition content_length_tag :: "byte list" where
  "content_length_tag = bytes_of ''Content-Length: ''"

text \<open>\<^verbatim>\<open>memcpy_s(Length, sizeof(Length), src, n)\<close> into eight zero bytes, then \<^verbatim>\<open>_tstoi\<close>: more than
  eight bytes end the process through the invalid-parameter handler, eight bytes leave no terminator.\<close>

definition parse_length :: "byte list \<Rightarrow> int \<Rightarrow> int option" where
  "parse_length src n =
     (if n < 0 \<or> 8 < n then None
      else do {
        bs \<leftarrow> mem_range src 0 (nat n);
        Length \<leftarrow> mem_write (replicate 8 0) 0 bs;
        s \<leftarrow> c_string Length;
        Some (atoi s) })"

definition CheckNCData :: "os_env \<Rightarrow> addr \<Rightarrow> world \<Rightarrow> (int \<times> world) option" where
  "CheckNCData e bp w = do {
     bo \<leftarrow> bobjs w bp;
     s \<leftarrow> c_string (data bo);
     case strstr s (CRLF @ CRLF) of
       None \<Rightarrow> Some (0, w)
     | Some h \<Rightarrow>
         (let HeaderLen = int h + 4; len = int (length content_length_tag) in
          case os_StrStrI e s content_length_tag of
            None \<Rightarrow> Some (0, w)
          | Some c \<Rightarrow>
              (case strstr (drop c s) CRLF of
                 None \<Rightarrow> Some (0, w)
               | Some k \<Rightarrow> do {
                   len \<leftarrow> parse_length (drop (c + nat len) s) (int k - len);
                   if HeaderLen + len > sint (dwRecvedCount bo) then Some (0, w)
                   else if HeaderLen + len = sint (dwRecvedCount bo) then Some (HeaderLen, w)
                   else do { w \<leftarrow> CMCloseSocket_bobj bp w; Some (0, w) } })) }"

subsection \<open>\<^verbatim>\<open>ms_nc_request.cpp\<close>\<close>

definition Nc_PostAcceptEx :: "os_env \<Rightarrow> addr \<Rightarrow> world \<Rightarrow> (bool \<times> world) option" where
  "Nc_PostAcceptEx e l w = do {
     (bp, w) \<leftarrow> allocBObj e (g_dwPagesize w) w;
     if bp = NULL then Some (False, w)
     else do {
       (sp, w) \<leftarrow> allocBSock e w;
       if sp = NULL then do { w \<leftarrow> freeBObj bp w; Some (False, w) }
       else do {
         let (s, w) = os_call (os_socket e) w;
         w \<leftarrow> update_bsock sp (\<lambda>bs. bs\<lparr>bs_sock := s\<rparr>) w;
         if s = INVALID_SOCKET
         then do { w \<leftarrow> freeBObj bp w; w \<leftarrow> freeBSock sp w; Some (False, w) }
         else do {
           w \<leftarrow> update_bobj bp (\<lambda>bo. BObj_SetIoRequestFunction Nc_AcceptCompletion Nc_AcceptCompletion
                                    (bo\<lparr>bo_pRelateSock := sp\<rparr>)) w;
           let (k, w) = GetRand e w;
           w \<leftarrow> update_bsock sp (\<lambda>bs. bs\<lparr>bs_nKey := k\<rparr>) w;
           w \<leftarrow> update_lsock l (InsertIntoPendingMap k (BS sp)) w;
           let ((ok, err), w) = os_call (os_AcceptEx e) w;
           if \<not> ok \<and> WSA_IO_PENDING \<noteq> err
           then do {
             w \<leftarrow> delete_pending l (BS sp) w;
             w \<leftarrow> CMCloseSocket (BS sp) w;
             w \<leftarrow> freeBObj bp w;
             w \<leftarrow> freeBSock sp w;
             Some (False, w) }
           else Some (True, post_io (KeyL l) (BO bp) w) } } } }"

definition Nc_PostZeroRecv :: "os_env \<Rightarrow> addr \<Rightarrow> addr \<Rightarrow> world \<Rightarrow> (bool \<times> world) option" where
  "Nc_PostZeroRecv e sp bp w = do {
     w \<leftarrow> update_bobj bp (\<lambda>bo. bo\<lparr>bo_wsaBuf := zero_wsabuf\<rparr>) w;
     bs \<leftarrow> bsocks w sp;
     let ((err, last), w) = os_call (os_WSARecv e) w;
     if SOCKET_ERROR = err \<and> WSA_IO_PENDING \<noteq> last then Some (False, w)
     else Some (True, post_io (KeyB sp) (BO bp) w) }"

definition Nc_PostRecv :: "os_env \<Rightarrow> addr \<Rightarrow> addr \<Rightarrow> world \<Rightarrow> (bool \<times> world) option" where
  "Nc_PostRecv e sp bp w = do {
     w \<leftarrow> update_bobj bp (\<lambda>bo. bo\<lparr>bo_wsaBuf := \<lparr>wb_buf = Some (unat (dwRecvedCount bo)),
                                       wb_len = datalen bo - dwRecvedCount bo\<rparr>\<rparr>) w;
     bs \<leftarrow> bsocks w sp;
     let ((err, last), w) = os_call (os_WSARecv e) w;
     if SOCKET_ERROR = err \<and> WSA_IO_PENDING \<noteq> last then Some (False, w)
     else Some (True, post_io (KeyB sp) (BO bp) w) }"

definition Nc_PostSend :: "os_env \<Rightarrow> addr \<Rightarrow> addr \<Rightarrow> world \<Rightarrow> (bool \<times> world) option" where
  "Nc_PostSend e sp bp w = do {
     w \<leftarrow> update_bobj bp (\<lambda>bo. bo\<lparr>bo_wsaBuf := \<lparr>wb_buf = Some (unat (dwSendedCount bo)),
                                       wb_len = dwRecvedCount bo - dwSendedCount bo\<rparr>\<rparr>) w;
     bs \<leftarrow> bsocks w sp;
     let ((err, last), w) = os_call (os_WSASend e) w;
     if SOCKET_ERROR = err \<and> WSA_IO_PENDING \<noteq> last then Some (False, w)
     else Some (True, post_io (KeyB sp) (BO bp) w) }"

subsection \<open>\<^verbatim>\<open>ms_nc_requestcompletion.cpp\<close>\<close>

text \<open>\<^verbatim>\<open>CMCloseSocket(pBSock); freeBSock(pBSock); freeBObj(pBObj);\<close>\<close>

definition drop_request :: "addr \<Rightarrow> addr \<Rightarrow> world \<Rightarrow> world option" where
  "drop_request sp bp w = do {
     w \<leftarrow> CMCloseSocket (BS sp) w;
     w \<leftarrow> freeBSock sp w;
     freeBObj bp w }"

definition Nc_AcceptCompletionFailed :: "addr \<Rightarrow> addr \<Rightarrow> world \<Rightarrow> world option" where
  "Nc_AcceptCompletionFailed l bp w = do {
     bo \<leftarrow> bobjs w bp;
     let sp = bo_pRelateSock bo;
     w \<leftarrow> delete_pending l (BS sp) w;
     drop_request sp bp w }"

text \<open>The end of the accept and of the receive routine: a complete request is not answered yet (the
  calls are commented out), an incomplete one waits for more.\<close>

definition check_request :: "os_env \<Rightarrow> addr \<Rightarrow> addr \<Rightarrow> world \<Rightarrow> world option" where
  "check_request e sp bp w = do {
     (Headerlen, w) \<leftarrow> CheckNCData e bp w;
     if Headerlen = 0
     then do {
       w \<leftarrow> update_bobj bp (BObj_SetIoRequestFunction NC_RecvZeroComp NC_RecvZeroComp) w;
       (ok, w) \<leftarrow> Nc_PostZeroRecv e sp bp w;
       if \<not> ok then drop_request sp bp w else Some w }
     else Some w }"

definition Nc_AcceptCompletionSuccess :: "os_env \<Rightarrow> DWORD \<Rightarrow> addr \<Rightarrow> addr \<Rightarrow> world \<Rightarrow> world option" where
  "Nc_AcceptCompletionSuccess e dwTranstion l bp w =
     (if dwTranstion \<le> 0 then Nc_AcceptCompletionFailed l bp w
      else do {
        bo \<leftarrow> bobjs w bp;
        let sp = bo_pRelateSock bo;
        w \<leftarrow> delete_pending l (BS sp) w;
        let (h, w) = os_call (os_CreateIoCompletionPort e) w;
        if h = 0 then drop_request sp bp w
        else do {
          w \<leftarrow> update_bobj bp (\<lambda>bo. bo\<lparr>dwRecvedCount := dwRecvedCount bo + dwTranstion\<rparr>) w;
          check_request e sp bp w } })"

definition NC_RecvZeroCompFailed :: "addr \<Rightarrow> addr \<Rightarrow> world \<Rightarrow> world option" where
  "NC_RecvZeroCompFailed sp bp w = drop_request sp bp w"

definition NC_RecvZeroCompSuccess :: "os_env \<Rightarrow> DWORD \<Rightarrow> addr \<Rightarrow> addr \<Rightarrow> world \<Rightarrow> world option" where
  "NC_RecvZeroCompSuccess e dwTransion sp bp w = do {
     w \<leftarrow> update_bobj bp (BObj_SetIoRequestFunction NC_RecvComp NC_RecvComp) w;
     (ok, w) \<leftarrow> Nc_PostRecv e sp bp w;
     if \<not> ok then drop_request sp bp w else Some w }"

definition NC_RecvCompFailed :: "addr \<Rightarrow> addr \<Rightarrow> world \<Rightarrow> world option" where
  "NC_RecvCompFailed sp bp w = drop_request sp bp w"

definition NC_RecvCompSuccess :: "os_env \<Rightarrow> DWORD \<Rightarrow> addr \<Rightarrow> addr \<Rightarrow> world \<Rightarrow> world option" where
  "NC_RecvCompSuccess e dwTransion sp bp w =
     (if dwTransion \<le> 0 then NC_RecvCompFailed sp bp w
      else do {
        w \<leftarrow> update_bobj bp (\<lambda>bo. bo\<lparr>dwRecvedCount := dwRecvedCount bo + dwTransion\<rparr>) w;
        check_request e sp bp w })"

definition NC_SendCompFailed :: "addr \<Rightarrow> addr \<Rightarrow> world \<Rightarrow> world option" where
  "NC_SendCompFailed sp bp w = drop_request sp bp w"

text \<open>The statements after the unconditional \<^verbatim>\<open>return\<close> of the source are unreachable.\<close>

definition NC_SendCompSuccess :: "os_env \<Rightarrow> DWORD \<Rightarrow> addr \<Rightarrow> addr \<Rightarrow> world \<Rightarrow> world option" where
  "NC_SendCompSuccess e dwTransion sp bp w =
     (if dwTransion \<le> 0 then NC_SendCompFailed sp bp w
      else do {
        w \<leftarrow> update_bobj bp (\<lambda>bo. bo\<lparr>dwSendedCount := dwSendedCount bo + dwTransion\<rparr>) w;
        bo \<leftarrow> bobjs w bp;
        if dwSendedCount bo < dwRecvedCount bo
        then do {
          (ok, w) \<leftarrow> Nc_PostSend e sp bp w;
          if \<not> ok then drop_request sp bp w else Some w }
        else drop_request sp bp w })"

end
