(* ===== verification/Server.thy ===== *)
theory Server
  imports Nc
begin

text \<open>
  Start-up (\<^verbatim>\<open>ms_initsock.cpp\<close>), the dispatch of completion packets (\<^verbatim>\<open>worker_thread.cpp\<close>) and the
  main function with its accept loop (\<^verbatim>\<open>CustomersCardMS.cpp\<close>).
\<close>

subsection \<open>\<^verbatim>\<open>ms_initsock.cpp\<close>\<close>

definition UniqueInstance :: "os_env \<Rightarrow> world \<Rightarrow> bool \<times> world" where
  "UniqueInstance e w =
     (let (h, w) = os_call (os_OpenEvent e) w; w = w\<lparr>hUniqueInstance := h\<rparr> in
      if h \<noteq> 0 then (False, w)
      else
        let (h, w) = os_call (os_CreateEvent e) w; w = w\<lparr>hUniqueInstance := h\<rparr> in
        if h = 0 then (False, w) else (True, w))"

text \<open>A call of \<^verbatim>\<open>WSAIoctl\<close> stores the pointer when it succeeds.\<close>

definition get_extension :: "os_env \<Rightarrow> (nat \<Rightarrow> world \<Rightarrow> world) \<Rightarrow> world \<Rightarrow> bool \<times> world" where
  "get_extension e store w =
     (let ((rtErr, fp), w) = os_call (os_WSAIoctl e) w in
      if rtErr = SOCKET_ERROR then (False, w) else (True, store fp w))"

definition GetExtensionFunctionPointer :: "os_env \<Rightarrow> world \<Rightarrow> bool \<times> world" where
  "GetExtensionFunctionPointer e w =
     (let (sTemp, w) = os_call (os_socket e) w in
      if sTemp = INVALID_SOCKET then (False, w)
      else
        let (ok, w) = get_extension e (\<lambda>fp w. w\<lparr>lpfnGetAcceptExSockaddrs := fp\<rparr>) w in
        if \<not> ok then (False, w)
        else
          let (ok, w) = get_extension e (\<lambda>fp w. w\<lparr>lpfnAccpetEx := fp\<rparr>) w in
          if \<not> ok then (False, w)
          else
            let (ok, w) = get_extension e (\<lambda>fp w. w\<lparr>lpfnConnectEx := fp\<rparr>) w in
            if \<not> ok then (False, w) else (True, log_closed [sTemp] w))"

definition InitWinsock2 :: "os_env \<Rightarrow> world \<Rightarrow> bool \<times> world" where
  "InitWinsock2 e w =
     (let (rc, w) = os_call (os_WSAStartup e) w in
      if rc \<noteq> 0 then (False, w) else GetExtensionFunctionPointer e w)"

text \<open>\<^verbatim>\<open>closesocket(lsock->sListenSock); lsock->sListenSock = INVALID_SOCKET;\<close>\<close>

definition close_listener :: "addr \<Rightarrow> SOCKET \<Rightarrow> world \<Rightarrow> world option" where
  "close_listener l s w = update_lsock l (\<lambda>ls. ls\<lparr>sListenSock := INVALID_SOCKET\<rparr>) (log_closed [s] w)"

text \<open>\<^verbatim>\<open>LSock_Array[g_dwListenCount] = lsock; hEvent_Array[g_dwListenCount++] = lsock->hPostAcceptexEvent;\<close>
  A store past the end of the arrays is undefined.\<close>

definition register_listener :: "addr \<Rightarrow> nat \<Rightarrow> world \<Rightarrow> world option" where
  "register_listener l h w =
     (let i = unat (g_dwListenCount w) in
      if i < length (LSock_Array w) \<and> i < length (hEvent_Array w)
      then Some (w\<lparr>LSock_Array := (LSock_Array w)[i := l], hEvent_Array := (hEvent_Array w)[i := h],
                   g_dwListenCount := g_dwListenCount w + 1\<rparr>)
      else None)"

definition InitListenSock :: "os_env \<Rightarrow> addr \<Rightarrow> nat \<Rightarrow> world \<Rightarrow> (bool \<times> world) option" where
  "InitListenSock e l nPort w =
     (if l = NULL then Some (False, w)
      else do {
        ls \<leftarrow> lsocks w l;
        let (ls, closed) = LSock_Init ls;
        let (h, w) = os_call (os_WSACreateEvent e) (log_closed closed w);
        let w = put_lsock l (ls\<lparr>hPostAcceptexEvent := h\<rparr>) w;
        if h = 0 then Some (False, w)
        else do {
          let (s, w) = os_call (os_socket e) w;
          w \<leftarrow> update_lsock l (\<lambda>ls. ls\<lparr>sListenSock := s\<rparr>) w;
          if s = INVALID_SOCKET then Some (False, w)
          else do {
            let (port, w) = os_call (os_CreateIoCompletionPort e) w;
            if port = 0 then do { w \<leftarrow> close_listener l s w; Some (False, w) }
            else do {
              w \<leftarrow> register_listener l h w;
              let (rc, w) = os_call (os_WSAEventSelect e) w;
              if rc = SOCKET_ERROR then do { w \<leftarrow> close_listener l s w; Some (False, w) }
              else do {
                let (rc, w) = os_call (os_bind e) w;
                if rc = SOCKET_ERROR then do { w \<leftarrow> close_listener l s w; Some (False, w) }
                else do {
                  let (rc, w) = os_call (os_listen e) w;
                  if rc = SOCKET_ERROR then do { w \<leftarrow> close_listener l s w; Some (False, w) }
                  else Some (True, w\<lparr>trace := trace w @ [Listening s nPort]\<rparr>) } } } } } })"

subsection \<open>\<^verbatim>\<open>worker_thread.cpp\<close>\<close>

text \<open>The call through \<^verbatim>\<open>fpSuccess\<close>: the routine casts the key and the object to the types it
  expects, so a packet with other types is undefined behaviour.\<close>

definition call_success :: "os_env \<Rightarrow> completion \<Rightarrow> DWORD \<Rightarrow> comp_key \<Rightarrow> objref \<Rightarrow> world \<Rightarrow> world option" where
  "call_success e f n key ob w =
     (case f of
        Client_AcceptCompletion \<Rightarrow>
          (case (key, ob) of (KeyL l, RO ro) \<Rightarrow> Client_AcceptCompletionSuccess e n l ro w | _ \<Rightarrow> None)
      | Client_ZeroRecvCompletion \<Rightarrow>
          (case (key, ob) of (KeyR rp, RO ro) \<Rightarrow> Client_ZeroRecvCompletionSuccess e n rp ro w | _ \<Rightarrow> None)
      | Client_RecvCompletion \<Rightarrow>
          (case (key, ob) of (KeyR rp, RO ro) \<Rightarrow> Client_RecvCompletionSuccess e n rp ro w | _ \<Rightarrow> None)
      | Client_SendCompletion \<Rightarrow>
          (case (key, ob) of (KeyR rp, BO bp) \<Rightarrow> Client_SendCompletionSuccess e n rp bp w | _ \<Rightarrow> None)
      | Client_CmdCompletion \<Rightarrow>
          (case ob of BO bp \<Rightarrow> Client_CmdCompletionSuccess n bp w | _ \<Rightarrow> None)
      | Nc_AcceptCompletion \<Rightarrow>
          (case (key, ob) of (KeyL l, BO bp) \<Rightarrow> Nc_AcceptCompletionSuccess e n l bp w | _ \<Rightarrow> None)
      | NC_RecvZeroComp \<Rightarrow>
          (case (key, ob) of (KeyB sp, BO bp) \<Rightarrow> NC_RecvZeroCompSuccess e n sp bp w | _ \<Rightarrow> None)
      | NC_RecvComp \<Rightarrow>
          (case (key, ob) of (KeyB sp, BO bp) \<Rightarrow> NC_RecvCompSuccess e n sp bp w | _ \<Rightarrow> None)
      | NC_SendComp \<Rightarrow>
          (case (key, ob) of (KeyB sp, BO bp) \<Rightarrow> NC_SendCompSuccess e n sp bp w | _ \<Rightarrow> None))"

definition call_failed :: "os_env \<Rightarrow> completion \<Rightarrow> comp_key \<Rightarrow> objref \<Rightarrow> world \<Rightarrow> world option" where
  "call_failed e f key ob w =
     (case f of
        Client_AcceptCompletion \<Rightarrow>
          (case (key, ob) of (KeyL l, RO ro) \<Rightarrow> Client_AcceptCompletionFailed l ro w | _ \<Rightarrow> None)
      | Client_ZeroRecvCompletion \<Rightarrow>
          (case (key, ob) of (KeyR rp, RO ro) \<Rightarrow> Client_ZeroRecvCompletionFailed rp ro w | _ \<Rightarrow> None)
      | Client_RecvCompletion \<Rightarrow>
          (case (key, ob) of (KeyR rp, RO ro) \<Rightarrow> Client_RecvCompletionFailed rp ro w | _ \<Rightarrow> None)
      | Client_SendCompletion \<Rightarrow>
          (case (key, ob) of (KeyR rp, BO bp) \<Rightarrow> Client_SendCompletionFailed e rp bp w | _ \<Rightarrow> None)
      | Client_CmdCompletion \<Rightarrow>
          (case ob of BO bp \<Rightarrow> Client_CmdCompletionFailed bp w | _ \<Rightarrow> None)
      | Nc_AcceptCompletion \<Rightarrow>
          (case (key, ob) of (KeyL l, BO bp) \<Rightarrow> Nc_AcceptCompletionFailed l bp w | _ \<Rightarrow> None)
      | NC_RecvZeroComp \<Rightarrow>
          (case (key, ob) of (KeyB sp, BO bp) \<Rightarrow> NC_RecvZeroCompFailed sp bp w | _ \<Rightarrow> None)
      | NC_RecvComp \<Rightarrow>
          (case (key, ob) of (KeyB sp, BO bp) \<Rightarrow> NC_RecvCompFailed sp bp w | _ \<Rightarrow> None)
      | NC_SendComp \<Rightarrow>
          (case (key, ob) of (KeyB sp, BO bp) \<Rightarrow> NC_SendCompFailed sp bp w | _ \<Rightarrow> None))"

fun obj_fpSuccess :: "objref \<Rightarrow> world \<Rightarrow> completion option" where
  "obj_fpSuccess (RO p) w = do { ro \<leftarrow> robjs w p; ro_fpSuccess ro }"
| "obj_fpSuccess (BO p) w = do { bo \<leftarrow> bobjs w p; bo_fpSuccess bo }"

fun obj_fpFailed :: "objref \<Rightarrow> world \<Rightarrow> completion option" where
  "obj_fpFailed (RO p) w = do { ro \<leftarrow> robjs w p; ro_fpFailed ro }"
| "obj_fpFailed (BO p) w = do { bo \<leftarrow> bobjs w p; bo_fpFailed bo }"

text \<open>One packet of \<^verbatim>\<open>GetQueuedCompletionStatus\<close>. A packet without an \<^verbatim>\<open>OVERLAPPED\<close> ends the thread;
  the flag says so.\<close>

record packet =
  bSuccess :: bool
  pk_dwTranstion :: DWORD
  pk_key :: comp_key
  lpol :: "objref option"

definition worker_packet :: "os_env \<Rightarrow> packet \<Rightarrow> world \<Rightarrow> (bool \<times> world) option" where
  "worker_packet e pk w =
     (case lpol pk of
        None \<Rightarrow> Some (True, w)
      | Some ob \<Rightarrow>
          if \<not> bSuccess pk
          then do { f \<leftarrow> obj_fpFailed ob w; w \<leftarrow> call_failed e f (pk_key pk) ob w; Some (False, w) }
          else do {
            f \<leftarrow> obj_fpSuccess ob w;
            w \<leftarrow> call_success e f (pk_dwTranstion pk) (pk_key pk) ob w;
            Some (False, w) })"

text \<open>The thread on a sequence of packets: the state when it returns or has used them all.\<close>

fun worker_thread :: "os_env \<Rightarrow> packet list \<Rightarrow> world \<Rightarrow> (bool \<times> world) option" where
  "worker_thread e [] w = Some (False, w)"
| "worker_thread e (pk # pks) w = do {
     (stop, w) \<leftarrow> worker_packet e pk w;
     if stop then Some (True, w) else worker_thread e pks w }"

subsection \<open>\<^verbatim>\<open>CustomersCardMS.cpp\<close>\<close>

fun call_acceptor :: "os_env \<Rightarrow> acceptor \<Rightarrow> addr \<Rightarrow> world \<Rightarrow> (bool \<times> world) option" where
  "call_acceptor e Client_PostAcceptEx_fp l w = Client_PostAcceptEx e l w"
| "call_acceptor e Nc_PostAcceptEx_fp l w = Nc_PostAcceptEx e l w"

text \<open>\<^verbatim>\<open>for (i = 0; i < n; i++) lsock->fpAcceptex(lsock);\<close>\<close>

primrec post_accepts :: "nat \<Rightarrow> os_env \<Rightarrow> addr \<Rightarrow> world \<Rightarrow> world option" where
  "post_accepts 0 e l w = Some w"
| "post_accepts (Suc n) e l w = do {
     ls \<leftarrow> lsocks w l;
     fp \<leftarrow> fpAcceptex ls;
     (ok, w) \<leftarrow> call_acceptor e fp l w;
     post_accepts n e l w }"

primrec start_threads :: "nat \<Rightarrow> os_env \<Rightarrow> world \<Rightarrow> world" where
  "start_threads 0 e w = w"
| "start_threads (Suc n) e w =
     (let (h, w) = os_call (os_beginthreadex e) w in
      start_threads n e (if h \<noteq> 0 then w\<lparr>trace := trace w @ [ThreadStarted h]\<rparr> else w))"

text \<open>\<^verbatim>\<open>new LISTEN_SOCK\<close>: the members other than the map are indeterminate; when there is no memory the
  exception is not caught.\<close>

definition new_LISTEN_SOCK :: "os_env \<Rightarrow> world \<Rightarrow> (addr \<times> world) option" where
  "new_LISTEN_SOCK e w =
     (let (p, w) = HeapAlloc e w; (s, w) = os_call (os_indeterminate e) w in
      if p = NULL then None
      else Some (p, put_lsock p \<lparr>sListenSock = s, fpAcceptex = None, hPostAcceptexEvent = 0,
                                 acceptPendingMap = []\<rparr> w))"

text \<open>One of the two listeners: create, initialise, set the acceptor, post ten accepts.\<close>

definition start_listener :: "os_env \<Rightarrow> nat \<Rightarrow> acceptor \<Rightarrow> world \<Rightarrow> (bool \<times> world) option" where
  "start_listener e nPort fp w = do {
     (l, w) \<leftarrow> new_LISTEN_SOCK e w;
     (ok, w) \<leftarrow> InitListenSock e l nPort w;
     if \<not> ok then Some (False, w\<lparr>lsocks := (lsocks w)(l := None)\<rparr>)
     else do {
       w \<leftarrow> update_lsock l (\<lambda>ls. ls\<lparr>fpAcceptex := Some fp\<rparr>) w;
       w \<leftarrow> post_accepts 10 e l w;
       Some (True, w) } }"

text \<open>The main function up to its loop; the result says whether the loop is reached.\<close>

definition main_init :: "os_env \<Rightarrow> world \<Rightarrow> (bool \<times> world) option" where
  "main_init e w =
     (let (ok, w) = UniqueInstance e w in
      if \<not> ok then Some (False, w)
      else
        let (ok, w) = InitWinsock2 e w in
        if \<not> ok then Some (False, w)
        else
          let ((cpus, page), w) = os_call (os_GetSystemInfo e) (InitMemory w);
              w = w\<lparr>g_dwPagesize := page\<rparr>;
              (port, w) = os_call (os_CreateIoCompletionPort e) w;
              w = w\<lparr>hComport := port\<rparr> in
          if port = 0 then Some (False, w)
          else do {
            let w = start_threads (unat (cpus * 2)) e w;
            (ok, w) \<leftarrow> start_listener e 7099 Client_PostAcceptEx_fp w;
            if \<not> ok then Some (False, w) else start_listener e 80 Nc_PostAcceptEx_fp w })"

text \<open>The sweep over the pending map: accepted sockets on which nothing was received for more than
  sixty seconds are closed.\<close>

fun ref_sock :: "sockref \<Rightarrow> world \<Rightarrow> SOCKET option" where
  "ref_sock (RS p) w = map_option rs_sock (rsocks w p)"
| "ref_sock (BS p) w = map_option bs_sock (bsocks w p)"

fun set_ref_sock :: "sockref \<Rightarrow> SOCKET \<Rightarrow> world \<Rightarrow> world option" where
  "set_ref_sock (RS p) s w = update_rsock p (\<lambda>rs. rs\<lparr>rs_sock := s\<rparr>) w"
| "set_ref_sock (BS p) s w = update_bsock p (\<lambda>bs. bs\<lparr>bs_sock := s\<rparr>) w"

fun sweep :: "os_env \<Rightarrow> (int \<times> sockref) list \<Rightarrow> world \<Rightarrow> world option" where
  "sweep e [] w = Some w"
| "sweep e ((k, p) # ps) w = do {
     s \<leftarrow> ref_sock p w;
     let ((nError, optval), w) = os_call (os_getsockopt e) w;
     if nError = SOCKET_ERROR then sweep e ps w
     else if optval \<noteq> 0xffffffff \<and> sint optval > 60
     then do { w \<leftarrow> set_ref_sock p INVALID_SOCKET (log_closed [s] w); sweep e ps w }
     else sweep e ps w }"

abbreviation (input) WSA_WAIT_TIMEOUT :: nat where "WSA_WAIT_TIMEOUT \<equiv> 258"
abbreviation (input) WSA_WAIT_FAILED :: nat where "WSA_WAIT_FAILED \<equiv> 0xffffffff"

text \<open>The body of the inner loop for listener \<open>i\<close>; the flag says that the program returns.\<close>

definition serve_listener :: "os_env \<Rightarrow> nat \<Rightarrow> world \<Rightarrow> (bool \<times> world) option" where
  "serve_listener e i w =
     (let (rt, w) = os_call (os_WaitForSingleObject e) w in
      if rt = WSA_WAIT_TIMEOUT then Some (False, w)
      else if rt = WSA_WAIT_FAILED then Some (True, w)
      else if length (LSock_Array w) \<le> i then None
      else do {
        let l = LSock_Array w ! i;
        w \<leftarrow> post_accepts 10 e l w;
        ls \<leftarrow> lsocks w l;
        if length (acceptPendingMap ls) > 100
        then do { w \<leftarrow> sweep e (acceptPendingMap ls) w; Some (False, w) }
        else Some (False, w) })"

fun serve_listeners :: "os_env \<Rightarrow> nat list \<Rightarrow> world \<Rightarrow> (bool \<times> world) option" where
  "serve_listeners e [] w = Some (False, w)"
| "serve_listeners e (i # is) w = do {
     (stop, w) \<leftarrow> serve_listener e i w;
     if stop then Some (True, w) else serve_listeners e is w }"

text \<open>One iteration of the outer loop.\<close>

definition main_iter :: "os_env \<Rightarrow> world \<Rightarrow> (bool \<times> world) option" where
  "main_iter e w =
     (let (rt, w) = os_call (os_WSAWaitForMultipleEvents e) w in
      if rt = WSA_WAIT_FAILED then Some (True, w)
      else serve_listeners e [0 ..< unat (g_dwListenCount w)] w)"

end
