(* ===== verification/Delivery.thy ===== *)
theory Delivery
  imports Client Frame
begin

text \<open>
  The receive loops of \<^verbatim>\<open>ms_client_requestcompletion.cpp\<close> against the frame format: the commands
  they post are the frames of the byte stream, in order, each in a buffer of its own.
\<close>

subsection \<open>The frames of a byte stream\<close>

function split_frames :: "byte list \<Rightarrow> byte list list \<times> byte list" where
  "split_frames bs =
     (case scan_frame bs of
        Frame p rest \<Rightarrow> (let (ps, r) = split_frames rest in (p # ps, r))
      | _ \<Rightarrow> ([], bs))"
  by auto
termination
  by (relation "measure length") (auto dest: scan_frame_Frame)

declare split_frames.simps [simp del]

lemma split_frames_encode:
  "\<forall>p \<in> set ps. length p < 2 ^ 32 \<Longrightarrow>
   split_frames (concat (map encode_frame ps) @ rest) =
     (ps @ fst (split_frames rest), snd (split_frames rest))"
proof (induction ps)
  case Nil
  then show ?case by simp
next
  case (Cons p ps)
  then show ?case
    by (subst split_frames.simps) (simp add: scan_encode_frame split: prod.splits)
qed

lemma split_frames_join: "split_frames bs = (ps, rest) \<Longrightarrow> bs = concat (map encode_frame ps) @ rest"
proof (induction bs arbitrary: ps rule: split_frames.induct)
  case (1 bs)
  show ?case
  proof (cases "scan_frame bs")
    case (Frame p r)
    obtain qs rest' where q: "split_frames r = (qs, rest')" by force
    then have "ps = p # qs" "rest' = rest"
      using "1.prems" Frame by (auto simp: split_frames.simps [of bs])
    then show ?thesis using "1.IH" [OF Frame, of qs] q scan_frame_Frame [OF Frame] by simp
  qed (use "1.prems" in \<open>auto simp: split_frames.simps [of bs]\<close>)
qed

lemma split_frames_rest:
  "split_frames bs = (ps, rest) \<Longrightarrow> (\<forall>p r. scan_frame rest \<noteq> Frame p r)"
proof (induction bs arbitrary: ps rule: split_frames.induct)
  case (1 bs)
  from "1.prems" show ?case
    by (subst (asm) split_frames.simps) (auto split: scan.splits prod.splits dest: "1.IH")
qed

subsection \<open>One command\<close>

text \<open>The size of the data of a \<^verbatim>\<open>BUFFER_OBJ\<close>: all are allocated with one page.\<close>

definition cmd_room :: "os_env \<Rightarrow> world \<Rightarrow> nat" where
  "cmd_room e w = unat (g_dwPagesize w - BUFFER_OBJ_SIZE e)"

definition bobj_room_ok :: "os_env \<Rightarrow> world \<Rightarrow> bool" where
  "bobj_room_ok e w \<longleftrightarrow> bobj_pool_ok w \<and> (\<forall>q bo. bobjs w q = Some bo \<longrightarrow> length (data bo) = cmd_room e w)"

text \<open>A buffer that carries the payload \<open>p\<close> of a frame of connection \<open>rp\<close>, with its checksum and
  tail byte.\<close>

definition carries :: "addr \<Rightarrow> byte list \<Rightarrow> buffer_obj \<Rightarrow> bool" where
  "carries rp p bo \<longleftrightarrow>
     take (length p + 2) (data bo) = p @ [sum_list p, 0x0d] \<and> unat (dwRecvedCount bo) = length p + 2 \<and>
     dwSendedCount bo = 0 \<and> bo_pRelateSock bo = rp \<and> bo_fpSuccess bo = Some Client_CmdCompletion \<and>
     bo_fpFailed bo = Some Client_CmdCompletion"

lemma allocBObj_room:
  assumes "bobj_room_ok e w" and "\<forall>t. heap_ok e t"
  shows "\<exists>bp bo v a t. allocBObj e (g_dwPagesize w) w =
      Some (bp, w\<lparr>bobjs := (bobjs w)(bp \<mapsto> bo), v_BObj := v, next_addr := a, tick := t\<rparr>) \<and>
      bp \<noteq> 0 \<and> length (data bo) = cmd_room e w \<and> dwSendedCount bo = 0"
proof (cases "v_BObj w = []")
  case True
  have "0 < next_addr w" using assms(1) by (simp add: bobj_room_ok_def bobj_pool_ok_def pool_inv_def)
  let ?bo = "BObj_Init (g_dwPagesize w - BUFFER_OBJ_SIZE e) (zero_buffer_obj (cmd_room e w))"
  have "allocBObj e (g_dwPagesize w) w = Some (next_addr w, w\<lparr>bobjs := (bobjs w)(next_addr w \<mapsto> ?bo),
      v_BObj := [], next_addr := Suc (next_addr w), tick := Suc (tick w)\<rparr>)"
    using True assms(2) \<open>0 < next_addr w\<close>
    by (simp add: allocBObj_def HeapAlloc_def os_call_def put_defs update_defs cmd_room_def)
  then show ?thesis using \<open>0 < next_addr w\<close>
    by (intro exI [of _ "next_addr w"] exI [of _ ?bo] exI [of _ "[]"] exI [of _ "Suc (next_addr w)"]
        exI [of _ "Suc (tick w)"]) (simp add: BObj_Init_def zero_buffer_obj_def)
next
  case False
  then obtain bo where bo: "bobjs w (last (v_BObj w)) = Some bo" "0 < last (v_BObj w)"
    using assms(1) pool_last [of _ _ _ "v_BObj w" "bobjs w"]
    by (fastforce simp: bobj_room_ok_def bobj_pool_ok_def)
  let ?bo = "BObj_Init (g_dwPagesize w - BUFFER_OBJ_SIZE e) bo"
  have "allocBObj e (g_dwPagesize w) w = Some (last (v_BObj w), w\<lparr>bobjs := (bobjs w)(last (v_BObj w) \<mapsto> ?bo),
      v_BObj := butlast (v_BObj w), next_addr := next_addr w, tick := tick w\<rparr>)"
    using False bo by (simp add: allocBObj_def put_defs update_defs)
  then show ?thesis using assms(1) bo
    by (intro exI [of _ "last (v_BObj w)"] exI [of _ ?bo] exI [of _ "butlast (v_BObj w)"]
        exI [of _ "next_addr w"] exI [of _ "tick w"]) (auto simp: BObj_Init_def bobj_room_ok_def)
qed

lemma Read_not_full: "Read dest n rs = Some (k, d, rs') \<Longrightarrow> 0 < n \<Longrightarrow> \<not> bEmpty rs \<Longrightarrow> \<not> bFull rs'"
  by (auto simp: Read_def Let_def bind_eq_Some_conv word_gt_0 split: if_splits)

text \<open>What one turn of a loop does to the state, up to the post: the first frame moves from the ring
  into a buffer that was not in use, and the connection gains a reference.\<close>

abbreviation (input) bobj_use :: "world \<Rightarrow> addr set" where
  "bobj_use w \<equiv> pool_use (v_BObj w) (bobjs w)"

definition cmd_taken :: "os_env \<Rightarrow> addr \<Rightarrow> recv_sock \<Rightarrow> byte list \<Rightarrow> byte list \<Rightarrow> world \<Rightarrow> addr \<Rightarrow> recv_sock \<Rightarrow> world \<Rightarrow> bool" where
  "cmd_taken e rp rs p rest w bp rs' w' \<longleftrightarrow>
     rsocks w' = (rsocks w)(rp \<mapsto> rs') \<and> ring_ok rs' \<and> contents rs' = rest \<and> \<not> bFull rs' \<and>
     nRef rs' = nRef rs + 1 \<and> rs_sock rs' = rs_sock rs \<and> lstSend rs' = lstSend rs \<and>
     (\<exists>bo. bobjs w' = (bobjs w)(bp \<mapsto> bo) \<and> carries rp p bo) \<and>
     bp \<notin> bobj_use w \<and> bobj_use w' = insert bp (bobj_use w) \<and> bobj_room_ok e w' \<and>
     pending w' = pending w \<and> cmd_room e w' = cmd_room e w \<and> trace w' = trace w \<and> robjs w' = robjs w \<and>
     lsocks w' = lsocks w"

lemma scan_Frame_scanned:
  assumes "ring_ok rs" and "scan_frame (contents rs) = Frame p rest"
  shows "\<exists>n rs'. GetCmdDataLength rs = Some (n, rs', []) \<and> unat n = length p + 2 \<and>
     (\<exists>s r. rs' = rs\<lparr>rs_sum := s, dwReadpos := r\<rparr>) \<and> ring_shape rs' \<and>
     contents rs' = p @ [sum_list p, 0x0d] @ rest"
proof -
  have c: "contents rs = encode_frame p @ rest" using scan_frame_Frame [OF assms(2)] .
  have sh: "ring_shape rs" using assms(1) by (simp add: ring_ok_def)
  then have ne: "\<not> bEmpty rs" using c contents_empty [of rs] by (auto simp: encode_frame_def)
  have "length (contents rs) < 2 ^ 32"
    using length_contents [OF sh] sh by (auto simp: ring_shape_def Let_def split: if_splits)
  moreover have "frame_len (contents rs) + 8 \<le> length (contents rs)"
    using assms(2) by (auto simp: scan_frame_def Let_def split: if_splits)
  ultimately have "frame_len (contents rs) + 8 < 2 ^ 32" by linarith
  from GetCmdDataLength_scan [OF assms(1) ne _ this] c obtain res
    where "GetCmdDataLength rs = Some res" "scan_result rs res" by auto
  then show ?thesis using assms(2) by (cases res) (auto simp: scan_result_def)
qed

text \<open>The scanner and the copy together: a frame in the ring comes out as its payload, checksum and tail.\<close>

lemma frame_read:
  assumes "ring_ok rs" and "contents rs = encode_frame p @ rest" and "length p + 2 \<le> length dest"
  shows "\<exists>n rs1 k d rs2. GetCmdDataLength rs = Some (n, rs1, []) \<and> unat n = length p + 2 \<and>
     Read dest n rs1 = Some (k, d, rs2) \<and> k = n \<and> take (unat k) d = p @ [sum_list p, 0x0d] \<and>
     drop (unat k) d = drop (unat k) dest \<and> contents rs2 = rest \<and> ring_ok rs2 \<and> same_conn rs rs2"
proof -
  have sh: "ring_shape rs" using assms(1) by (simp add: ring_ok_def)
  have "length (contents rs) < 2 ^ 32"
    using length_contents [OF sh] sh by (auto simp: ring_shape_def Let_def split: if_splits)
  then have "scan_frame (contents rs) = Frame p rest" using assms(2) by (simp add: scan_encode_frame)
  from scan_Frame_scanned [OF assms(1) this] obtain n rs1 s r where g: "GetCmdDataLength rs = Some (n, rs1, [])"
      "unat n = length p + 2" "rs1 = rs\<lparr>rs_sum := s, dwReadpos := r\<rparr>" "ring_shape rs1"
      "contents rs1 = p @ [sum_list p, 0x0d] @ rest" by blast
  have n0: "0 < n" using g(2) by (simp add: word_less_nat_alt)
  have ne: "\<not> bEmpty rs1" using contents_empty [OF g(4)] g(5) by auto
  obtain k d rs2 where rd: "Read dest n rs1 = Some (k, d, rs2)" "ring_read (unat n) dest rs1 (k, d, rs2)"
    using Read_ok [OF g(4) ne n0, of dest] g(2,5) assms(3) by auto
  have "k = n" using rd(2) by (simp add: ring_read_def word_unat_eq_iff)
  then show ?thesis using g rd assms(3) by (auto simp: ring_read_def same_conn_def)
qed

lemma take_frame:
  assumes rp: "rsocks w rp = Some rs" and ok: "ring_ok rs"
    and fr: "scan_frame (contents rs) = Frame p rest"
    and room: "bobj_room_ok e w" "length p + 2 \<le> cmd_room e w" and heap: "\<forall>t. heap_ok e t"
  shows "\<exists>len w1 bp rs' w'. next_cmd rp w = Some (len, w1) \<and> len \<noteq> 0 \<and>
     take_cmd e rp len w1 = Some (bp, w') \<and> cmd_taken e rp rs p rest w bp rs' w'"
proof -
  obtain n rs1 s r where g: "GetCmdDataLength rs = Some (n, rs1, [])" "unat n = length p + 2"
      "rs1 = rs\<lparr>rs_sum := s, dwReadpos := r\<rparr>" "ring_shape rs1"
      "contents rs1 = p @ [sum_list p, 0x0d] @ rest"
    using scan_Frame_scanned [OF ok fr] by blast
  define w1 where "w1 = put_rsock rp rs1 w"
  have n0: "0 < n" using g(2) by (simp add: word_less_nat_alt)
  have w1: "next_cmd rp w = Some (n, w1)" using rp g(1) by (simp add: next_cmd_def log_closed_def w1_def)
  have r1: "bobj_room_ok e w1" "cmd_room e w1 = cmd_room e w" "g_dwPagesize w1 = g_dwPagesize w"
      "bobjs w1 = bobjs w" "v_BObj w1 = v_BObj w" "pending w1 = pending w" "trace w1 = trace w"
      "rsocks w1 = (rsocks w)(rp \<mapsto> rs1)" "robjs w1 = robjs w" "lsocks w1 = lsocks w"
    using room(1) by (simp_all add: w1_def put_defs bobj_room_ok_def cmd_room_def bobj_pool_ok_def)
  obtain bp bo v a t where al: "allocBObj e (g_dwPagesize w1) w1 =
      Some (bp, w1\<lparr>bobjs := (bobjs w1)(bp \<mapsto> bo), v_BObj := v, next_addr := a, tick := t\<rparr>)"
      "bp \<noteq> 0" "length (data bo) = cmd_room e w1" "dwSendedCount bo = 0"
    using allocBObj_room [OF r1(1) heap] by blast
  let ?w2 = "w1\<lparr>bobjs := (bobjs w1)(bp \<mapsto> bo), v_BObj := v, next_addr := a, tick := t\<rparr>"
  have pool: "bobj_pool_ok w1" using r1(1) by (simp add: bobj_room_ok_def)
  from bobj_pool.alloc_law [OF pool al(1)] al(2)
  have p2: "bobj_pool_ok ?w2" "bp \<notin> bobj_use w1" "bobj_use ?w2 = insert bp (bobj_use w1)" by simp_all
  have ne: "\<not> bEmpty rs1" using contents_empty [OF g(4)] g(5) by auto
  obtain k d rs2 where rd: "Read (data bo) n rs1 = Some (k, d, rs2)"
      "ring_read (unat n) (data bo) rs1 (k, d, rs2)"
    using Read_ok [OF g(4) ne n0, of "data bo"] g(2,5) al(3) r1(2) room(2) by auto
  define bo' where "bo' = BObj_SetIoRequestFunction Client_CmdCompletion Client_CmdCompletion
      (bo\<lparr>data := d, dwRecvedCount := n, bo_pRelateSock := rp\<rparr>)"
  define w' where "w' = put_rsock rp (AddRef rs2) (put_bobj bp bo' ?w2)"
  have "take_cmd e rp n w1 = Some (bp, w')"
    using al(1) rd(1) r1(8) by (simp add: take_cmd_def w'_def bo'_def)
  moreover have "cmd_taken e rp rs p rest w bp (AddRef rs2) w'"
  proof -
    have d: "d = (p @ [sum_list p, 0x0d]) @ drop (length p + 2) (data bo)" "contents rs2 = rest" "ring_ok rs2"
        "same_conn rs1 rs2"
      using rd(2) g(2,5) by (auto simp: ring_read_def)
    have ring: "ring_ok (AddRef rs2)" "contents (AddRef rs2) = rest"
      using d(2,3) by (auto simp: AddRef_def ring_ok_def ring_shape_def contents_def Let_def)
    have "carries rp p bo'"
      using d(1) g(2) al(4) by (simp add: carries_def bo'_def BObj_SetIoRequestFunction_def)
    moreover have "length (data bo') = cmd_room e w1"
      using d(1) al(3) room(2) r1(2) by (simp add: bo'_def BObj_SetIoRequestFunction_def)
    moreover have "bobj_pool_ok w'"
      using p2(1) by (auto simp: w'_def put_defs bobj_pool_ok_def pool_inv_def)
    moreover have "bobj_use w' = insert bp (bobj_use w)"
      using p2(3) r1 by (auto simp: w'_def put_defs pool_use_def)
    ultimately show ?thesis
      using ring d(4) p2(2) r1 Read_not_full [OF rd(1) n0 ne] room(1) g(3)
      by (auto simp: cmd_taken_def w'_def put_defs AddRef_def same_conn_def bobj_room_ok_def cmd_room_def)
  qed
  ultimately show ?thesis using w1 n0 by (metis word_gt_0)
qed

subsection \<open>The end of the loop\<close>

text \<open>What is left must be empty or hold at least the six bytes of a header whose length does not
  overflow: a shorter rest that wraps around the end of the ring is scanned past its end.\<close>

definition rest_ok :: "byte list \<Rightarrow> bool" where
  "rest_ok rest \<longleftrightarrow> rest = [] \<or> 6 \<le> length rest \<and> frame_len rest + 8 < 2 ^ 32"

text \<open>A rest that is not a prefix of a frame, or fills the ring, closes the connection; any other stays.\<close>

definition loop_end :: "recv_sock \<Rightarrow> recv_sock \<Rightarrow> SOCKET list \<Rightarrow> bool" where
  "loop_end rs rs' closed \<longleftrightarrow>
     nRef rs' = nRef rs \<and>
     (if scan_frame (contents rs) = Bad \<or> bFull rs
      then rs_sock rs' = INVALID_SOCKET \<and> closed = [rs_sock rs]
      else contents rs' = contents rs \<and> ring_ok rs' \<and> rs_sock rs' = rs_sock rs \<and> closed = [])"

lemma next_cmd_stop:
  assumes rp: "rsocks w rp = Some rs" and ok: "ring_ok rs" and rest: "rest_ok (contents rs)"
    and no: "\<And>p r. scan_frame (contents rs) \<noteq> Frame p r"
  shows "\<exists>rs' closed. next_cmd rp w = Some (0, put_rsock rp rs' (log_closed closed w)) \<and>
     loop_end rs rs' closed"
proof (cases "bEmpty rs")
  case True
  then have "contents rs = []" by (simp add: contents_def)
  moreover have "\<not> bFull rs" using ok True by (simp add: ring_ok_def)
  ultimately have "loop_end rs rs []" using ok by (simp add: loop_end_def scan_frame_def)
  then show ?thesis using True rp by (auto simp: next_cmd_def GetCmdDataLength_empty)
next
  case False
  then have r: "6 \<le> length (contents rs)" "frame_len (contents rs) + 8 < 2 ^ 32"
    using rest ok contents_empty [of rs] by (auto simp: rest_ok_def ring_ok_def)
  then obtain res where res: "GetCmdDataLength rs = Some res" "scan_result rs res"
    using GetCmdDataLength_scan [OF ok False] by blast
  have keep: "contents (rs\<lparr>rs_sum := s\<rparr>) = contents rs" "ring_ok (rs\<lparr>rs_sum := s\<rparr>)" for s
    using ok by (auto simp: contents_def ring_ok_def ring_shape_def Let_def)
  show ?thesis
  proof (cases "scan_frame (contents rs)")
    case NeedMore
    then show ?thesis using res rp keep
      by (auto simp: scan_result_def dropped_def next_cmd_def loop_end_def split: if_splits)
  next
    case Bad
    then show ?thesis using res rp
      by (auto simp: scan_result_def dropped_def next_cmd_def loop_end_def)
  qed (use no in auto)
qed

subsection \<open>The loops\<close>

text \<open>The buffers posted for a list of payloads: pairwise different, none in use before, each
  carrying its payload.\<close>

definition delivered :: "addr \<Rightarrow> byte list list \<Rightarrow> world \<Rightarrow> addr list \<Rightarrow> world \<Rightarrow> bool" where
  "delivered rp ps w bps w' \<longleftrightarrow>
     pending w' = pending w @ map (\<lambda>b. (KeyObj b, BO b)) bps \<and>
     distinct bps \<and> set bps \<inter> bobj_use w = {} \<and> bobj_use w' = bobj_use w \<union> set bps \<and>
     list_all2 (\<lambda>p b. \<exists>bo. bobjs w' b = Some bo \<and> carries rp p bo) ps bps \<and>
     (\<forall>q \<in> bobj_use w. bobjs w' q = bobjs w q)"

text \<open>Both receive routines drain the ring with a loop that stops when no command is left and, when
  the post succeeds, goes on with the next.\<close>

locale cmd_loop =
  fixes loop :: "os_env \<Rightarrow> addr \<Rightarrow> world \<Rightarrow> 'r option"
    and finish :: "world \<Rightarrow> 'r"
  assumes stop: "next_cmd rp w = Some (0, w1) \<Longrightarrow> loop e rp w = Some (finish w1)"
    and turn: "next_cmd rp w = Some (len, w1) \<Longrightarrow> len \<noteq> 0 \<Longrightarrow> take_cmd e rp len w1 = Some (bp, w2) \<Longrightarrow>
      os_PostQueuedCompletionStatus e (tick w2) \<noteq> 0 \<Longrightarrow>
      loop e rp w = loop e rp (post_io (KeyObj bp) (BO bp) (w2\<lparr>tick := Suc (tick w2)\<rparr>))"
begin

lemma loop_delivers:
  assumes "split_frames (contents rs) = (ps, rest)"
    and "rsocks w rp = Some rs" and "ring_ok rs" and "rest_ok rest"
    and "bobj_room_ok e w" and "\<forall>p \<in> set ps. length p + 2 \<le> cmd_room e w"
    and "\<forall>t. heap_ok e t" and "\<forall>t. os_PostQueuedCompletionStatus e t \<noteq> 0"
  shows "\<exists>bps w' rs1 rs' closed. loop e rp w = Some (finish w') \<and> delivered rp ps w bps w' \<and>
     rsocks w' = (rsocks w)(rp \<mapsto> rs') \<and> contents rs1 = rest \<and> (ps \<noteq> [] \<longrightarrow> \<not> bFull rs1) \<and>
     (ps = [] \<longrightarrow> rs1 = rs) \<and> rs_sock rs1 = rs_sock rs \<and> nRef rs1 = nRef rs + of_nat (length ps) \<and>
     loop_end rs1 rs' closed \<and> trace w' = trace w @ map Closed closed \<and> robjs w' = robjs w \<and>
     lsocks w' = lsocks w"
  using assms
proof (induction ps arbitrary: rs w)
  case Nil
  then have c: "contents rs = rest" using split_frames_join by fastforce
  have no: "\<And>p r. scan_frame (contents rs) \<noteq> Frame p r"
    using split_frames_rest [OF Nil.prems(1)] by (simp add: c)
  from next_cmd_stop [OF Nil.prems(2,3) _ no] Nil.prems(4) c obtain rs' closed where
    n: "next_cmd rp w = Some (0, put_rsock rp rs' (log_closed closed w))" "loop_end rs rs' closed" by auto
  from stop [OF n(1), of e] n(2) c show ?case
    by (intro exI [of _ "[]"] exI [of _ "put_rsock rp rs' (log_closed closed w)"] exI [of _ rs]
        exI [of _ rs'] exI [of _ closed])
      (auto simp: delivered_def put_defs log_closed_def)
next
  case (Cons p ps)
  from Cons.prems(1) obtain r where f: "scan_frame (contents rs) = Frame p r" "split_frames r = (ps, rest)"
    by (subst (asm) split_frames.simps) (auto split: scan.splits prod.splits)
  from take_frame [OF Cons.prems(2,3) f(1) Cons.prems(5) _ Cons.prems(7)] Cons.prems(6)
  obtain len w1 bp rs2 w2 where t: "next_cmd rp w = Some (len, w1)" "len \<noteq> 0"
      "take_cmd e rp len w1 = Some (bp, w2)" "cmd_taken e rp rs p r w bp rs2 w2" by auto
  define w3 where "w3 = post_io (KeyObj bp) (BO bp) (w2\<lparr>tick := Suc (tick w2)\<rparr>)"
  have l: "loop e rp w = loop e rp w3"
    using turn [OF t(1-3)] Cons.prems(8) by (simp add: w3_def)
  obtain bo where bo: "bobjs w2 = (bobjs w)(bp \<mapsto> bo)" "carries rp p bo"
    using t(4) by (auto simp: cmd_taken_def)
  have w3: "rsocks w3 rp = Some rs2" "ring_ok rs2" "bobj_room_ok e w3" "cmd_room e w3 = cmd_room e w"
      "contents rs2 = r" "bobjs w3 = (bobjs w)(bp \<mapsto> bo)" "bobj_use w3 = insert bp (bobj_use w)"
      "bp \<notin> bobj_use w" "pending w3 = pending w @ [(KeyObj bp, BO bp)]" "trace w3 = trace w"
      "rsocks w3 = (rsocks w)(rp \<mapsto> rs2)" "\<not> bFull rs2" "nRef rs2 = nRef rs + 1" "rs_sock rs2 = rs_sock rs"
      "robjs w3 = robjs w" "lsocks w3 = lsocks w"
    using t(4) bo by (auto simp: cmd_taken_def w3_def post_io_def bobj_room_ok_def cmd_room_def bobj_pool_ok_def)
  have "split_frames (contents rs2) = (ps, rest)" using f(2) w3(5) by simp
  moreover have "\<forall>q \<in> set ps. length q + 2 \<le> cmd_room e w3" using w3(4) Cons.prems(6) by simp
  moreover note ih = Cons.IH [OF _ w3(1-2) Cons.prems(4) w3(3) _ Cons.prems(7,8)]
  ultimately obtain bps w' rs1 rs' closed where ih: "loop e rp w3 = Some (finish w')" "delivered rp ps w3 bps w'"
      "rsocks w' = (rsocks w3)(rp \<mapsto> rs')" "contents rs1 = rest" "ps \<noteq> [] \<longrightarrow> \<not> bFull rs1"
      "ps = [] \<longrightarrow> rs1 = rs2" "rs_sock rs1 = rs_sock rs2" "nRef rs1 = nRef rs2 + of_nat (length ps)"
      "loop_end rs1 rs' closed" "trace w' = trace w3 @ map Closed closed" "robjs w' = robjs w3"
      "lsocks w' = lsocks w3" by blast
  have "delivered rp (p # ps) w (bp # bps) w'"
    using ih(2) w3(6-9) bo(2) by (auto simp: delivered_def)
  then show ?case
    using l ih w3(10-16)
    by (intro exI [of _ "bp # bps"] exI [of _ w'] exI [of _ rs1] exI [of _ rs'] exI [of _ closed]) auto
qed

end

interpretation accept_cmds: cmd_loop accept_loop "\<lambda>w. w"
  by unfold_locales (subst accept_loop.simps, simp add: os_call_def)+

interpretation recv_cmds: cmd_loop recv_loop "\<lambda>w. (False, w)"
  by unfold_locales (subst recv_loop.simps, simp add: os_call_def)+

subsection \<open>The receive completion\<close>

lemma loop_end_wsabufs: "loop_end rs rs' closed \<Longrightarrow> loop_end rs (rs'\<lparr>wsabuf0 := b0, wsabuf1 := b1\<rparr>) closed"
  by (auto simp: loop_end_def contents_def ring_ok_def ring_shape_def Let_def)

lemma delivered_weaken:
  assumes "delivered rp ps w bps w'" and "pending w'' = pending w' @ ops"
    and "bobjs w'' = bobjs w'" and "v_BObj w'' = v_BObj w'"
  shows "pending w'' = pending w @ map (\<lambda>b. (KeyObj b, BO b)) bps @ ops"
    and "list_all2 (\<lambda>p b. \<exists>bo. bobjs w'' b = Some bo \<and> carries rp p bo) ps bps"
    and "distinct bps" and "set bps \<inter> bobj_use w = {}"
  using assms by (auto simp: delivered_def)

text \<open>Both receive routines end with the post of the next receive, of no bytes.\<close>

definition zero_recv_posted :: "addr \<Rightarrow> addr \<Rightarrow> recv_sock \<Rightarrow> world \<Rightarrow> world \<Rightarrow> bool" where
  "zero_recv_posted rp ro rs w w' \<longleftrightarrow>
     pending w' = pending w @ [(KeyR rp, RO ro)] \<and>
     rsocks w' rp = Some (rs\<lparr>wsabuf0 := zero_wsabuf, wsabuf1 := zero_wsabuf\<rparr>) \<and>
     bobjs w' = bobjs w \<and> v_BObj w' = v_BObj w \<and> lsocks w' = lsocks w \<and> trace w' = trace w"

lemma next_zero_recv:
  assumes "rsocks w rp = Some rs" and "robjs w ro = Some r" and "\<forall>t. fst (os_WSARecv e t) \<noteq> SOCKET_ERROR"
  shows "\<exists>w1 w'. update_robj ro (RObj_SetIoRequestFunction Client_ZeroRecvCompletion Client_ZeroRecvCompletion) w = Some w1 \<and>
     Client_PostZeroRecv e rp ro w1 = Some (True, w') \<and> zero_recv_posted rp ro rs w w'"
  using assms(1,2) assms(3) [rule_format, of "tick w"]
  by (auto simp: Client_PostZeroRecv_def zero_recv_posted_def put_defs update_defs os_call_def post_io_def
      split: prod.splits)

lemma recv_completion_delivers:
  assumes ok: "ring_ok rs" and ne: "bs \<noteq> []"
    and filled: "wsarecv_filled (wsabuf0 (InitWSABUFS rs)) (wsabuf1 (InitWSABUFS rs)) bs (buf rs) m'"
    and st: "rsocks w rp = Some ((InitWSABUFS rs)\<lparr>buf := m'\<rparr>)" "robjs w ro = Some r"
    and fr: "split_frames (contents rs @ bs) = (ps, rest)" "rest_ok rest"
    and room: "bobj_room_ok e w" "\<forall>p \<in> set ps. length p + 2 \<le> cmd_room e w"
    and os: "\<forall>t. heap_ok e t" "\<forall>t. os_PostQueuedCompletionStatus e t \<noteq> 0"
      "\<forall>t. fst (os_WSARecv e t) \<noteq> SOCKET_ERROR"
  shows "\<exists>bps w' rs1 rs' closed.
     Client_RecvCompletionSuccess e (of_nat (length bs)) rp ro w = Some w' \<and>
     pending w' = pending w @ map (\<lambda>b. (KeyObj b, BO b)) bps @ [(KeyR rp, RO ro)] \<and>
     list_all2 (\<lambda>p b. \<exists>bo. bobjs w' b = Some bo \<and> carries rp p bo) ps bps \<and>
     distinct bps \<and> set bps \<inter> bobj_use w = {} \<and>
     rsocks w' rp = Some rs' \<and> contents rs1 = rest \<and> (ps \<noteq> [] \<longrightarrow> \<not> bFull rs1) \<and>
     nRef rs1 = nRef (recv_into bs m' rs) + of_nat (length ps) \<and> loop_end rs1 rs' closed \<and>
     trace w' = trace w @ map Closed closed"
proof -
  have len: "length bs < 2 ^ 32"
    using filled_memory(1,2) [OF ok filled ne] InitWSABUFS_free [OF ok] ok
    by (auto simp: ring_ok_def ring_shape_def split: if_splits)
  then have pos: "\<not> (of_nat (length bs) :: DWORD) \<le> 0" using ne
    by (simp add: word_le_nat_alt unat_of_nat_small)
  let ?rs = "recv_into bs m' rs"
  define w1 where "w1 = put_rsock rp ?rs w"
  have w1: "rsocks w1 rp = Some ?rs" "bobj_room_ok e w1" "cmd_room e w1 = cmd_room e w"
      "pending w1 = pending w" "bobjs w1 = bobjs w" "v_BObj w1 = v_BObj w" "trace w1 = trace w"
      "robjs w1 = robjs w"
    using room(1) by (simp_all add: w1_def put_defs bobj_room_ok_def cmd_room_def bobj_pool_ok_def)
  have "split_frames (contents ?rs) = (ps, rest)" "ring_ok ?rs" "\<forall>p \<in> set ps. length p + 2 \<le> cmd_room e w1"
    using recv_into_ok [OF ok filled ne] fr(1) room(2) w1(3) by simp_all
  from recv_cmds.loop_delivers [OF this(1) w1(1) this(2) fr(2) w1(2) this(3) os(1,2)]
  obtain bps w2 rs1 rs' closed where lp: "recv_loop e rp w1 = Some (False, w2)" "delivered rp ps w1 bps w2"
      "rsocks w2 = (rsocks w1)(rp \<mapsto> rs')" "contents rs1 = rest" "ps \<noteq> [] \<longrightarrow> \<not> bFull rs1"
      "nRef rs1 = nRef ?rs + of_nat (length ps)" "loop_end rs1 rs' closed"
      "trace w2 = trace w1 @ map Closed closed" "robjs w2 = robjs w1" by blast
  obtain w3 w' where z: "update_robj ro (RObj_SetIoRequestFunction Client_ZeroRecvCompletion Client_ZeroRecvCompletion) w2 = Some w3"
      "Client_PostZeroRecv e rp ro w3 = Some (True, w')" "zero_recv_posted rp ro rs' w2 w'"
    using next_zero_recv [OF _ _ os(3), of w2 rp rs' ro r] lp(3,9) w1(8) st(2) by auto
  note z' = z(3) [unfolded zero_recv_posted_def]
  have "update_rsock rp (InitWRpos (of_nat (length bs))) w = Some w1"
    using st(1) by (simp add: update_rsock_def w1_def recv_into_def)
  then have "Client_RecvCompletionSuccess e (of_nat (length bs)) rp ro w = Some w'"
    using pos lp(1) z(1,2) by (simp add: Client_RecvCompletionSuccess_def)
  moreover note delivered_weaken [OF lp(2), of w' "[(KeyR rp, RO ro)]"] loop_end_wsabufs [OF lp(7), of zero_wsabuf zero_wsabuf]
  ultimately show ?thesis
    using lp(4-6,8) w1(4-7) z'
    by (intro exI [of _ bps] exI [of _ w'] exI [of _ rs1] exI [of _ "rs'\<lparr>wsabuf0 := zero_wsabuf, wsabuf1 := zero_wsabuf\<rparr>"]
        exI [of _ closed]) simp
qed

end
