(* ===== verification/Accepts.thy ===== *)
theory Accepts
  imports Delivery Server
begin

text \<open>
  An overlapped accept from its post to its end: the first bytes of an accepted connection, the accept
  that fails, and the sweep of the main loop that closes accepts on which nothing is received.
\<close>

subsection \<open>The sweep\<close>

text \<open>The answer of \<^verbatim>\<open>getsockopt(SO_CONNECT_TIME)\<close> number \<open>t\<close>: connected for more than sixty seconds.\<close>

definition idle_at :: "os_env \<Rightarrow> nat \<Rightarrow> bool" where
  "idle_at e t \<longleftrightarrow> fst (os_getsockopt e t) \<noteq> SOCKET_ERROR \<and>
     snd (os_getsockopt e t) \<noteq> 0xffffffff \<and> 60 < sint (snd (os_getsockopt e t))"

text \<open>The elements of the map that a sweep starting at call \<open>t\<close> finds idle.\<close>

primrec idle_socks :: "os_env \<Rightarrow> nat \<Rightarrow> (int \<times> sockref) list \<Rightarrow> sockref list" where
  "idle_socks e t [] = []"
| "idle_socks e t (kp # ps) = (if idle_at e t then [snd kp] else []) @ idle_socks e (Suc t) ps"

lemma idle_socks_subset: "set (idle_socks e t ps) \<subseteq> snd ` set ps"
  by (induction ps arbitrary: t) auto

text \<open>The objects without their socket member.\<close>

definition rsocks_but_socket :: "(addr \<rightharpoonup> recv_sock) \<Rightarrow> addr \<rightharpoonup> recv_sock" where
  "rsocks_but_socket h = (\<lambda>q. map_option (rs_sock_update (\<lambda>_. 0)) (h q))"

definition bsocks_but_socket :: "(addr \<rightharpoonup> buffer_sock) \<Rightarrow> addr \<rightharpoonup> buffer_sock" where
  "bsocks_but_socket h = (\<lambda>q. map_option (bs_sock_update (\<lambda>_. 0)) (h q))"

lemma but_socket_update [simp]:
  "h q = Some rs \<Longrightarrow> rsocks_but_socket (h(q \<mapsto> rs\<lparr>rs_sock := s\<rparr>)) = rsocks_but_socket h"
  "h' q = Some bs \<Longrightarrow> bsocks_but_socket (h'(q \<mapsto> bs\<lparr>bs_sock := s\<rparr>)) = bsocks_but_socket h'"
  by (auto simp: rsocks_but_socket_def bsocks_but_socket_def)

lemma set_ref_sock_ok:
  assumes "ref_sock p w \<noteq> None"
  shows "\<exists>rh bh. set_ref_sock p s w = Some (w\<lparr>rsocks := rh, bsocks := bh\<rparr>) \<and>
     rsocks_but_socket rh = rsocks_but_socket (rsocks w) \<and> bsocks_but_socket bh = bsocks_but_socket (bsocks w) \<and>
     (\<forall>q. ref_sock q (w\<lparr>rsocks := rh, bsocks := bh\<rparr>) = (if q = p then Some s else ref_sock q w))"
proof (cases p)
  case (RS r)
  then obtain rs where rs: "rsocks w r = Some rs" using assms by auto
  define rh where "rh = (rsocks w)(r \<mapsto> rs\<lparr>rs_sock := s\<rparr>)"
  have "ref_sock q (w\<lparr>rsocks := rh, bsocks := bsocks w\<rparr>) = (if q = p then Some s else ref_sock q w)" for q
    using RS by (cases q) (auto simp: rh_def)
  moreover have "rsocks_but_socket rh = rsocks_but_socket (rsocks w)" using rs by (simp add: rh_def)
  moreover have "set_ref_sock p s w = Some (w\<lparr>rsocks := rh, bsocks := bsocks w\<rparr>)"
    using RS rs by (simp add: update_rsock_def put_rsock_def rh_def)
  ultimately show ?thesis by blast
next
  case (BS b)
  then obtain bs where bs: "bsocks w b = Some bs" using assms by auto
  define bh where "bh = (bsocks w)(b \<mapsto> bs\<lparr>bs_sock := s\<rparr>)"
  have "ref_sock q (w\<lparr>rsocks := rsocks w, bsocks := bh\<rparr>) = (if q = p then Some s else ref_sock q w)" for q
    using BS by (cases q) (auto simp: bh_def)
  moreover have "bsocks_but_socket bh = bsocks_but_socket (bsocks w)" using bs by (simp add: bh_def)
  moreover have "set_ref_sock p s w = Some (w\<lparr>rsocks := rsocks w, bsocks := bh\<rparr>)"
    using BS bs by (simp add: update_bsock_def put_bsock_def bh_def)
  ultimately show ?thesis by blast
qed

lemma ref_sock_log [simp]:
  "ref_sock p (log_closed ss w) = ref_sock p w" "ref_sock p (w\<lparr>tick := t\<rparr>) = ref_sock p w"
  by (cases p; simp add: log_closed_def)+

text \<open>What the sweep leaves alone: everything but the socket members, the log and the call counter.\<close>

definition swept :: "SOCKET list \<Rightarrow> nat \<Rightarrow> world \<Rightarrow> world \<Rightarrow> bool" where
  "swept ss n w w' \<longleftrightarrow>
     (\<exists>rh bh. w' = w\<lparr>rsocks := rh, bsocks := bh, tick := tick w + n, trace := trace w @ map Closed ss\<rparr> \<and>
        rsocks_but_socket rh = rsocks_but_socket (rsocks w) \<and> bsocks_but_socket bh = bsocks_but_socket (bsocks w))"

lemma swept_trans:
  assumes "swept ss m w w1" and "swept ts n w1 w2"
  shows "swept (ss @ ts) (m + n) w w2"
proof -
  from assms(2) obtain rh bh where "w2 = w1\<lparr>rsocks := rh, bsocks := bh, tick := tick w1 + n,
      trace := trace w1 @ map Closed ts\<rparr>" "rsocks_but_socket rh = rsocks_but_socket (rsocks w1)" "bsocks_but_socket bh = bsocks_but_socket (bsocks w1)"
    by (auto simp: swept_def)
  with assms(1) show ?thesis
    unfolding swept_def by (elim exE conjE) (intro exI [of _ rh] exI [of _ bh], simp)
qed

lemma sweep_closes:
  assumes "\<forall>kp \<in> set ps. ref_sock (snd kp) w \<noteq> None" and "distinct (map snd ps)"
  shows "\<exists>w'. sweep e ps w = Some w' \<and>
     swept (map (\<lambda>p. the (ref_sock p w)) (idle_socks e (tick w) ps)) (length ps) w w' \<and>
     (\<forall>p. ref_sock p w' = (if p \<in> set (idle_socks e (tick w) ps) then Some INVALID_SOCKET else ref_sock p w))"
  using assms
proof (induction ps arbitrary: w)
  case Nil
  then show ?case by (auto simp: swept_def intro!: exI [of _ "rsocks w"] exI [of _ "bsocks w"])
next
  case (Cons kp ps)
  obtain k p where kp: "kp = (k, p)" by force
  obtain s where s: "ref_sock p w = Some s" using Cons.prems(1) kp by auto
  let ?w1 = "w\<lparr>tick := Suc (tick w)\<rparr>"
  define idle where "idle = idle_at e (tick w)"
  have "\<exists>w2. sweep e (kp # ps) w = sweep e ps w2 \<and> tick w2 = Suc (tick w) \<and>
      swept (if idle then [s] else []) 1 w w2 \<and>
      (\<forall>q. ref_sock q w2 = (if idle \<and> q = p then Some INVALID_SOCKET else ref_sock q w))"
  proof (cases idle)
    case False
    then show ?thesis using kp s
      by (intro exI [of _ ?w1])
        (auto simp: os_call_def idle_def idle_at_def swept_def split: prod.splits
          intro!: exI [of _ "rsocks w"] exI [of _ "bsocks w"])
  next
    case True
    have "ref_sock p (log_closed [s] ?w1) \<noteq> None" using s by simp
    from set_ref_sock_ok [OF this, of INVALID_SOCKET] obtain rh bh where w2:
      "set_ref_sock p INVALID_SOCKET (log_closed [s] ?w1) = Some ((log_closed [s] ?w1)\<lparr>rsocks := rh, bsocks := bh\<rparr>)"
      "rsocks_but_socket rh = rsocks_but_socket (rsocks w)" "bsocks_but_socket bh = bsocks_but_socket (bsocks w)"
      "\<forall>q. ref_sock q ((log_closed [s] ?w1)\<lparr>rsocks := rh, bsocks := bh\<rparr>) =
           (if q = p then Some INVALID_SOCKET else ref_sock q w)"
      unfolding ref_sock_log by (auto simp: log_closed_def)
    moreover have "swept [s] 1 w ((log_closed [s] ?w1)\<lparr>rsocks := rh, bsocks := bh\<rparr>)"
      unfolding swept_def using w2(2,3)
      by (intro exI [of _ rh] exI [of _ bh] conjI world.equality) (simp_all add: log_closed_def)
    moreover have "sweep e (kp # ps) w = sweep e ps ((log_closed [s] ?w1)\<lparr>rsocks := rh, bsocks := bh\<rparr>)"
      using True kp s w2(1) by (auto simp: os_call_def idle_def idle_at_def split: prod.splits)
    ultimately show ?thesis using True
      by (intro exI [of _ "(log_closed [s] ?w1)\<lparr>rsocks := rh, bsocks := bh\<rparr>"]) (simp add: log_closed_def)
  qed
  then obtain w2 where w2: "sweep e (kp # ps) w = sweep e ps w2" "tick w2 = Suc (tick w)"
      "swept (if idle then [s] else []) 1 w w2"
      "\<And>q. ref_sock q w2 = (if idle \<and> q = p then Some INVALID_SOCKET else ref_sock q w)" by blast
  have fresh: "p \<notin> snd ` set ps" using Cons.prems(2) kp by simp
  then have "\<forall>kp \<in> set ps. ref_sock (snd kp) w2 \<noteq> None" using Cons.prems(1) w2(4) by auto
  from Cons.IH [OF this] Cons.prems(2) obtain w' where w': "sweep e ps w2 = Some w'"
      "swept (map (\<lambda>p. the (ref_sock p w2)) (idle_socks e (Suc (tick w)) ps)) (length ps) w2 w'"
      "\<And>p. ref_sock p w' = (if p \<in> set (idle_socks e (Suc (tick w)) ps) then Some INVALID_SOCKET else ref_sock p w2)"
    using w2(2) by auto
  have np: "p \<notin> set (idle_socks e (Suc (tick w)) ps)" using fresh idle_socks_subset by blast
  then have m: "map (\<lambda>p. the (ref_sock p w2)) (idle_socks e (Suc (tick w)) ps) =
      map (\<lambda>p. the (ref_sock p w)) (idle_socks e (Suc (tick w)) ps)"
    using w2(4) by (intro map_cong) auto
  have "swept (map (\<lambda>p. the (ref_sock p w)) (idle_socks e (tick w) (kp # ps))) (length (kp # ps)) w w'"
    using swept_trans [OF w2(3) w'(2) [unfolded m]] kp s by (cases idle) (simp_all add: idle_def)
  then show ?case using w2(1,4) w'(1,3) kp np
    by (intro exI [of _ w']) (auto simp: idle_def)
qed

subsection \<open>An accept that fails\<close>

abbreviation (input) rsock_use :: "world \<Rightarrow> addr set" where
  "rsock_use w \<equiv> pool_use (v_RSock w) (rsocks w)"

abbreviation (input) robj_use :: "world \<Rightarrow> addr set" where
  "robj_use w \<equiv> pool_use (v_RObj w) (robjs w)"

text \<open>An accept in flight on listener \<open>l\<close>: the connection object under its key in the map, and the
  object with the \<^verbatim>\<open>OVERLAPPED\<close> that points to it; both are in use.\<close>

definition accept_posted :: "addr \<Rightarrow> addr \<Rightarrow> addr \<Rightarrow> recv_sock \<Rightarrow> listen_sock \<Rightarrow> world \<Rightarrow> bool" where
  "accept_posted l ro rp rs ls w \<longleftrightarrow>
     lsocks w l = Some ls \<and> rsocks w rp = Some rs \<and> rp \<in> rsock_use w \<and> rsock_pool_ok w \<and>
     ro \<in> robj_use w \<and> robj_pool_ok w \<and>
     (\<exists>r. robjs w ro = Some r \<and> ro_pRelateSock r = rp \<and>
        ro_fpSuccess r = Some Client_AcceptCompletion \<and> ro_fpFailed r = Some Client_AcceptCompletion)"

definition open_socket :: "recv_sock \<Rightarrow> SOCKET list" where
  "open_socket rs = (if rs_sock rs = INVALID_SOCKET then [] else [rs_sock rs])"

text \<open>What the operations on connections leave alone; the buffer of a connection keeps its place.\<close>

definition others_kept :: "world \<Rightarrow> world \<Rightarrow> bool" where
  "others_kept w w' \<longleftrightarrow>
     bsocks w' = bsocks w \<and> bobjs w' = bobjs w \<and> v_BSock w' = v_BSock w \<and> v_BObj w' = v_BObj w \<and>
     g_dwPagesize w' = g_dwPagesize w \<and> next_addr w \<le> next_addr w'"

definition buffers_kept :: "world \<Rightarrow> world \<Rightarrow> bool" where
  "buffers_kept w w' \<longleftrightarrow>
     (\<forall>q rs'. rsocks w' q = Some rs' \<longrightarrow> (\<exists>rs. rsocks w q = Some rs \<and> buf rs = buf rs'))"

definition accept_released :: "addr \<Rightarrow> addr \<Rightarrow> addr \<Rightarrow> recv_sock \<Rightarrow> listen_sock \<Rightarrow> world \<Rightarrow> world \<Rightarrow> bool" where
  "accept_released l ro rp rs ls w w' \<longleftrightarrow>
     trace w' = trace w @ map Closed (open_socket rs) \<and>
     lsocks w' = (lsocks w)(l \<mapsto> DeleteFromPendingMap (rs_nKey rs) ls) \<and>
     rsock_pool_ok w' \<and> rsock_use w' = rsock_use w - {rp} \<and>
     robj_pool_ok w' \<and> robj_use w' = robj_use w - {ro} \<and>
     others_kept w w' \<and> buffers_kept w w' \<and> pending w' = pending w"

lemma CMCloseSocket_RS:
  assumes "rsocks w p = Some rs"
  shows "CMCloseSocket (RS p) w =
    Some (w\<lparr>rsocks := (rsocks w)(p \<mapsto> rs\<lparr>rs_sock := INVALID_SOCKET\<rparr>), trace := trace w @ map Closed (open_socket rs)\<rparr>)"
  using assms by (auto simp: open_socket_def put_rsock_def log_closed_def intro!: world.equality)

lemma freeRObj_frame:
  assumes "robjs w p \<noteq> None"
  shows "\<exists>v h. freeRObj p w = Some (w\<lparr>v_RObj := v, robjs := h\<rparr>)"
proof (cases "length (v_RObj w) < ROBJ_SIZE_MAX")
  case True
  then show ?thesis using assms
    by (intro exI [of _ "v_RObj w @ [p]"] exI [of _ "robjs w"]) (auto simp: freeRObj_def intro!: world.equality)
next
  case False
  then show ?thesis using assms
    by (intro exI [of _ "v_RObj w"] exI [of _ "(robjs w)(p := None)"]) (auto simp: freeRObj_def intro!: world.equality)
qed

lemma freeRSock_frame:
  assumes "rsocks w p \<noteq> None"
  shows "\<exists>v h. freeRSock p w = Some (w\<lparr>v_RSock := v, rsocks := h\<rparr>) \<and> h \<subseteq>\<^sub>m rsocks w"
proof (cases "length (v_RSock w) < RSOCK_SIZE_MAX")
  case True
  then have eq: "freeRSock p w = Some (w\<lparr>v_RSock := v_RSock w @ [p], rsocks := rsocks w\<rparr>)"
    using assms by (auto simp: freeRSock_def)
  show ?thesis by (intro exI conjI, rule eq) simp
next
  case False
  then have eq: "freeRSock p w = Some (w\<lparr>v_RSock := v_RSock w, rsocks := (rsocks w)(p := None)\<rparr>)"
    using assms by (auto simp: freeRSock_def put_rsock_def)
  show ?thesis by (intro exI conjI, rule eq) (auto simp: map_le_def)
qed

text \<open>\<^verbatim>\<open>freeRObj(pRObj); freeRSock(pRSock);\<close>\<close>

definition objects_released :: "addr \<Rightarrow> addr \<Rightarrow> world \<Rightarrow> world \<Rightarrow> bool" where
  "objects_released ro rp w w' \<longleftrightarrow>
     rsock_pool_ok w' \<and> rsock_use w' = rsock_use w - {rp} \<and>
     robj_pool_ok w' \<and> robj_use w' = robj_use w - {ro} \<and>
     others_kept w w' \<and> buffers_kept w w' \<and> pending w' = pending w \<and> lsocks w' = lsocks w \<and> trace w' = trace w"

lemma release_objects:
  assumes "rsock_pool_ok w" "rp \<in> rsock_use w" and "robj_pool_ok w" "ro \<in> robj_use w"
  shows "\<exists>w1 w2. freeRObj ro w = Some w1 \<and> freeRSock rp w1 = Some w2 \<and> objects_released ro rp w w2"
proof -
  obtain w1 where w1: "freeRObj ro w = Some w1" "robj_pool_ok w1" "robj_use w1 = robj_use w - {ro}"
    using robj_pool.free_law [OF assms(3,4)] by auto
  have "robjs w ro \<noteq> None" using assms(4) by (auto simp: pool_use_def)
  from freeRObj_frame [OF this] obtain v h where f1: "w1 = w\<lparr>v_RObj := v, robjs := h\<rparr>" using w1(1) by auto
  then have inv1: "rsock_pool_ok w1" "rsock_use w1 = rsock_use w" using assms(1) by (simp_all add: rsock_pool_ok_def)
  obtain w2 where w2: "freeRSock rp w1 = Some w2" "rsock_pool_ok w2" "rsock_use w2 = rsock_use w - {rp}"
    using rsock_pool.free_law [OF inv1(1), of rp] inv1(2) assms(2) by auto
  have "rsocks w1 rp \<noteq> None" using assms(2) f1 by (auto simp: pool_use_def)
  from freeRSock_frame [OF this] obtain v' h' where f2: "w2 = w1\<lparr>v_RSock := v', rsocks := h'\<rparr>"
      "h' \<subseteq>\<^sub>m rsocks w1" using w2(1) by auto
  have "buffers_kept w w2" using f1 f2 by (fastforce simp: buffers_kept_def map_le_def dom_def)
  moreover have "others_kept w w2" using f1 f2(1) by (simp add: others_kept_def)
  ultimately have "objects_released ro rp w w2"
    using w1(2,3) w2(2,3) f1 f2(1) by (simp add: objects_released_def robj_pool_ok_def)
  with w1(1) w2(1) show ?thesis by blast
qed

text \<open>A store into a connection object leaves the pool and the buffers as they are.\<close>

lemma put_rsock_keeps:
  assumes "rsock_pool_ok w" and "rsocks w rp = Some rs" and "lstSend rs' \<noteq> None" and "buf rs' = buf rs"
    and "rsocks w' = (rsocks w)(rp \<mapsto> rs')" and "v_RSock w' = v_RSock w" and "next_addr w' = next_addr w"
  shows "rsock_pool_ok w'" and "rsock_use w' = rsock_use w" and "buffers_kept w w'"
  using assms pool_inv_update [of RSOCK_SIZE_MAX "\<lambda>rs. lstSend rs \<noteq> None" "next_addr w" "v_RSock w" "rsocks w" rp rs']
  by (auto simp: rsock_pool_ok_def buffers_kept_def)

lemma buffers_kept_trans: "buffers_kept w w1 \<Longrightarrow> buffers_kept w1 w2 \<Longrightarrow> buffers_kept w w2"
  by (fastforce simp: buffers_kept_def)

lemma others_kept_trans: "others_kept w w1 \<Longrightarrow> others_kept w1 w2 \<Longrightarrow> others_kept w w2"
  by (simp add: others_kept_def)

lemma AcceptCompletionFailed_releases:
  assumes "accept_posted l ro rp rs ls w"
  shows "\<exists>w'. Client_AcceptCompletionFailed l ro w = Some w' \<and> accept_released l ro rp rs ls w w'"
proof -
  from assms obtain r where a: "lsocks w l = Some ls" "rsocks w rp = Some rs" "rp \<in> rsock_use w" "rsock_pool_ok w"
      "ro \<in> robj_use w" "robj_pool_ok w" "robjs w ro = Some r" "ro_pRelateSock r = rp"
    by (auto simp: accept_posted_def)
  define w1 where "w1 = put_lsock l (DeleteFromPendingMap (rs_nKey rs) ls) w"
  define w2 where "w2 = w1\<lparr>rsocks := (rsocks w)(rp \<mapsto> rs\<lparr>rs_sock := INVALID_SOCKET\<rparr>),
      trace := trace w @ map Closed (open_socket rs)\<rparr>"
  have w1: "delete_pending l (RS rp) w = Some w1"
    using a by (simp add: delete_pending_def update_lsock_def w1_def)
  have w2: "CMCloseSocket (RS rp) w1 = Some w2"
    using CMCloseSocket_RS [of w1 rp rs] a by (simp add: w1_def w2_def put_lsock_def)
  have "lstSend (rs\<lparr>rs_sock := INVALID_SOCKET\<rparr>) \<noteq> None" using a(2,4) by (auto simp: rsock_pool_ok_def pool_inv_def)
  from put_rsock_keeps [OF a(4,2) this, of w2]
  have k: "rsock_pool_ok w2" "rsock_use w2 = rsock_use w" "buffers_kept w w2"
    by (simp_all add: w2_def w1_def put_lsock_def)
  have "robj_pool_ok w2" "robj_use w2 = robj_use w"
    using a(6) by (simp_all add: w2_def w1_def put_lsock_def robj_pool_ok_def)
  with release_objects [OF k(1), of rp ro] k(2) a(3,5) obtain w3 w4 where
    w4: "freeRObj ro w2 = Some w3" "freeRSock rp w3 = Some w4" "objects_released ro rp w2 w4" by auto
  have "others_kept w w2" by (simp add: others_kept_def w2_def w1_def put_lsock_def)
  then have "accept_released l ro rp rs ls w w4"
    using w4(3) k(2) buffers_kept_trans [OF k(3)] others_kept_trans \<open>robj_use w2 = robj_use w\<close>
    by (auto simp: accept_released_def objects_released_def w2_def w1_def put_lsock_def)
  then show ?thesis using a(7,8) w1 w2 w4(1,2)
    by (auto simp: Client_AcceptCompletionFailed_def simp del: CMCloseSocket.simps)
qed

text \<open>Both ways into the routine: the packet of a failed accept, and a success packet without bytes.\<close>

lemma failed_accept_packet:
  assumes "accept_posted l ro rp rs ls w" and "pk_key pk = KeyL l" and "lpol pk = Some (RO ro)"
    and "bSuccess pk \<longrightarrow> pk_dwTranstion pk = 0"
  shows "\<exists>w'. worker_packet e pk w = Some (False, w') \<and> accept_released l ro rp rs ls w w'"
  using AcceptCompletionFailed_releases [OF assms(1)] assms
  by (fastforce simp: accept_posted_def worker_packet_def call_failed_def call_success_def
      Client_AcceptCompletionSuccess_def)

text \<open>An accept that the sweep has closed is still in flight, without its socket.\<close>

lemma but_socket_lookup:
  assumes "rsocks_but_socket h = rsocks_but_socket h'" and "h' p = Some rs"
  shows "\<exists>s. h p = Some (rs\<lparr>rs_sock := s\<rparr>)"
proof -
  have "map_option (rs_sock_update (\<lambda>_. 0)) (h p) = map_option (rs_sock_update (\<lambda>_. 0)) (Some rs)"
    using fun_cong [OF assms(1), of p] assms(2) by (simp add: rsocks_but_socket_def)
  then obtain rs1 where h: "h p = Some rs1" "rs1\<lparr>rs_sock := 0\<rparr> = rs\<lparr>rs_sock := 0\<rparr>" by auto
  from arg_cong [OF h(2), of "rs_sock_update (\<lambda>_. rs_sock rs1)"]
  have "rs1 = rs\<lparr>rs_sock := rs_sock rs1\<rparr>" by simp
  with h(1) show ?thesis by metis
qed

lemma but_socket_pool:
  assumes "rsocks_but_socket h = rsocks_but_socket h'"
    and "pool_inv cap (\<lambda>rs. lstSend rs \<noteq> None) bnd v h'"
  shows "pool_inv cap (\<lambda>rs. lstSend rs \<noteq> None) bnd v h" and "pool_use v h = pool_use v h'"
proof -
  have "h' p \<noteq> None \<longleftrightarrow> h p \<noteq> None" for p
    using fun_cong [OF assms(1), of p] by (cases "h p"; cases "h' p") (simp_all add: rsocks_but_socket_def)
  then have d: "dom h = dom h'" by auto
  have "0 < p \<and> p < bnd \<and> lstSend rs \<noteq> None" if "h p = Some rs" for p rs
    using but_socket_lookup [OF assms(1) [symmetric] that] assms(2) by (fastforce simp: pool_inv_def)
  with d assms(2) show "pool_inv cap (\<lambda>rs. lstSend rs \<noteq> None) bnd v h" by (simp add: pool_inv_def)
  show "pool_use v h = pool_use v h'" by (simp add: pool_use_def d)
qed

lemma swept_accept_posted:
  assumes "accept_posted l ro rp rs ls w" and "swept ss n w w'" and "ref_sock (RS rp) w' = Some s"
  shows "accept_posted l ro rp (rs\<lparr>rs_sock := s\<rparr>) ls w'" and "rsock_use w' = rsock_use w" and "robj_use w' = robj_use w"
proof -
  obtain rh bh where w': "w' = w\<lparr>rsocks := rh, bsocks := bh, tick := tick w + n, trace := trace w @ map Closed ss\<rparr>"
      and rh: "rsocks_but_socket rh = rsocks_but_socket (rsocks w)"
    using assms(2) by (auto simp: swept_def)
  have a: "rsocks w rp = Some rs" "pool_inv RSOCK_SIZE_MAX (\<lambda>rs. lstSend rs \<noteq> None) (next_addr w) (v_RSock w) (rsocks w)"
    using assms(1) by (auto simp: accept_posted_def rsock_pool_ok_def)
  obtain s' where "rh rp = Some (rs\<lparr>rs_sock := s'\<rparr>)" using but_socket_lookup [OF rh a(1)] by blast
  with assms(3) have "rh rp = Some (rs\<lparr>rs_sock := s\<rparr>)" by (simp add: w')
  with assms(1) but_socket_pool [OF rh a(2)]
  show "accept_posted l ro rp (rs\<lparr>rs_sock := s\<rparr>) ls w'" and "rsock_use w' = rsock_use w" and "robj_use w' = robj_use w"
    by (simp_all add: accept_posted_def w' rsock_pool_ok_def robj_pool_ok_def)
qed

lemma idle_accept_ends:
  assumes ps: "\<forall>kp \<in> set ps. ref_sock (snd kp) w \<noteq> None" "distinct (map snd ps)"
    and acc: "accept_posted l ro rp rs ls w" "RS rp \<in> set (idle_socks e (tick w) ps)"
    and pk: "pk_key pk = KeyL l" "lpol pk = Some (RO ro)" "\<not> bSuccess pk"
  shows "\<exists>w1 w2. sweep e ps w = Some w1 \<and>
     trace w1 = trace w @ map (\<lambda>p. Closed (the (ref_sock p w))) (idle_socks e (tick w) ps) \<and>
     (\<forall>p. ref_sock p w1 = (if p \<in> set (idle_socks e (tick w) ps) then Some INVALID_SOCKET else ref_sock p w)) \<and>
     worker_packet e pk w1 = Some (False, w2) \<and> trace w2 = trace w1 \<and>
     rsock_pool_ok w2 \<and> rsock_use w2 = rsock_use w - {rp} \<and> robj_pool_ok w2 \<and> robj_use w2 = robj_use w - {ro} \<and>
     lsocks w2 = (lsocks w)(l \<mapsto> DeleteFromPendingMap (rs_nKey rs) ls)"
proof -
  obtain w1 where w1: "sweep e ps w = Some w1"
      "swept (map (\<lambda>p. the (ref_sock p w)) (idle_socks e (tick w) ps)) (length ps) w w1"
      "\<forall>p. ref_sock p w1 = (if p \<in> set (idle_socks e (tick w) ps) then Some INVALID_SOCKET else ref_sock p w)"
    using sweep_closes [OF ps] by blast
  have "ref_sock (RS rp) w1 = Some INVALID_SOCKET" using w1(3) acc(2) by simp
  note posted = swept_accept_posted [OF acc(1) w1(2) this]
  have "bSuccess pk \<longrightarrow> pk_dwTranstion pk = 0" using pk(3) by simp
  from failed_accept_packet [OF posted(1) pk(1,2) this, of e] obtain w2 where w2:
    "worker_packet e pk w1 = Some (False, w2)" "accept_released l ro rp (rs\<lparr>rs_sock := INVALID_SOCKET\<rparr>) ls w1 w2"
    by blast
  have "lsocks w1 = lsocks w"
    "trace w1 = trace w @ map (\<lambda>p. Closed (the (ref_sock p w))) (idle_socks e (tick w) ps)"
    using w1(2) by (auto simp: swept_def)
  with w1(1,3) w2 posted(2,3) show ?thesis
    by (intro exI [of _ w1] exI [of _ w2]) (simp add: accept_released_def open_socket_def)
qed

subsection \<open>The post of an accept\<close>

text \<open>The size of the buffer of a connection object; all are allocated with eight pages.\<close>

definition ring_room :: "os_env \<Rightarrow> world \<Rightarrow> DWORD" where
  "ring_room e w = g_dwPagesize w * 8 - RECV_SOCK_SIZE e"

definition rsock_room_ok :: "os_env \<Rightarrow> world \<Rightarrow> bool" where
  "rsock_room_ok e w \<longleftrightarrow> rsock_pool_ok w \<and> (\<forall>q rs. rsocks w q = Some rs \<longrightarrow> length (buf rs) = unat (ring_room e w))"

text \<open>A connection object as an accept takes it: an empty ring, no partial sizes, one reference.\<close>

definition accept_ready :: "os_env \<Rightarrow> world \<Rightarrow> recv_sock \<Rightarrow> bool" where
  "accept_ready e w rs \<longleftrightarrow>
     length (buf rs) = unat (dwBufsize rs) \<and> dwBufsize rs = ring_room e w \<and> \<not> bFull rs \<and> bEmpty rs \<and>
     dwReadpos rs = 0 \<and> dwWritepos rs = 0 \<and> dwRightsize rs = 0 \<and> nRef rs = 1 \<and> lstSend rs = Some []"

lemma allocRObj_any:
  assumes "robj_pool_ok w"
  shows "\<exists>p v h a t. allocRObj e w = Some (p, w\<lparr>v_RObj := v, robjs := h, next_addr := a, tick := t\<rparr>) \<and>
     next_addr w \<le> a \<and> (p \<noteq> 0 \<longrightarrow> (\<exists>r. h p = Some r))"
proof (cases "v_RObj w = []")
  case True
  have "0 < next_addr w" using assms by (simp add: robj_pool_ok_def pool_inv_def)
  with True have eq: "allocRObj e w =
      (if heap_ok e (tick w)
       then Some (next_addr w, w\<lparr>v_RObj := v_RObj w, robjs := (robjs w)(next_addr w \<mapsto> RObj_Init zero_recv_obj),
              next_addr := Suc (next_addr w), tick := Suc (tick w)\<rparr>)
       else Some (0, w\<lparr>v_RObj := v_RObj w, robjs := robjs w, next_addr := next_addr w, tick := Suc (tick w)\<rparr>))"
    by (simp add: allocRObj_def HeapAlloc_def os_call_def put_defs World.update_defs)
  show ?thesis
  proof (cases "heap_ok e (tick w)")
    case True
    show ?thesis by (intro exI conjI, rule eq [unfolded if_P [OF True]]) simp_all
  next
    case False
    show ?thesis by (intro exI conjI, rule eq [unfolded if_not_P [OF False]]) simp_all
  qed
next
  case False
  let ?p = "last (v_RObj w)"
  obtain r where r: "robjs w ?p = Some r" "0 < ?p"
    using pool_last [OF assms [unfolded robj_pool_ok_def] False] by blast
  with False have eq: "allocRObj e w = Some (?p, w\<lparr>v_RObj := butlast (v_RObj w), robjs := (robjs w)(?p \<mapsto> RObj_Init r),
      next_addr := next_addr w, tick := tick w\<rparr>)"
    by (simp add: allocRObj_def put_defs World.update_defs)
  show ?thesis by (intro exI conjI, rule eq) simp_all
qed

lemma allocRSock_any:
  assumes "rsock_room_ok e w" and "v_RSock w \<noteq> [] \<or> heap_ok e (tick w)"
  shows "\<exists>p rs v a t c. allocRSock e (g_dwPagesize w * 8) w =
       Some (p, w\<lparr>v_RSock := v, rsocks := (rsocks w)(p \<mapsto> rs), next_addr := a, tick := t, trace := trace w @ map Closed c\<rparr>) \<and>
     p \<noteq> 0 \<and> next_addr w \<le> a \<and> accept_ready e w rs"
proof (cases "v_RSock w = []")
  case True
  let ?n = "g_dwPagesize w * 8 - RECV_SOCK_SIZE e"
  obtain rs c where rs: "RSock_Init ?n ((zero_recv_sock (unat ?n))\<lparr>lstSend := Some []\<rparr>) = Some (rs, c)"
      "accept_ready e w rs"
    by (auto simp: RSock_Init_def zero_recv_sock_def accept_ready_def ring_room_def)
  have "0 < next_addr w" using assms(1) by (simp add: rsock_room_ok_def rsock_pool_ok_def pool_inv_def)
  with True rs(1) assms(2) have eq: "allocRSock e (g_dwPagesize w * 8) w =
      Some (next_addr w, w\<lparr>v_RSock := v_RSock w, rsocks := (rsocks w)(next_addr w \<mapsto> rs),
        next_addr := Suc (next_addr w), tick := Suc (tick w), trace := trace w @ map Closed c\<rparr>)"
    by (simp add: allocRSock_def HeapAlloc_def os_call_def put_rsock_def log_closed_def)
  show ?thesis by (intro exI conjI, rule eq) (simp_all add: rs(2) \<open>0 < next_addr w\<close>)
next
  case False
  let ?p = "last (v_RSock w)"
  obtain r where r: "rsocks w ?p = Some r" "0 < ?p" "lstSend r \<noteq> None" "length (buf r) = unat (ring_room e w)"
    using pool_last [OF _ False, of RSOCK_SIZE_MAX "\<lambda>rs. lstSend rs \<noteq> None" "next_addr w" "rsocks w"] assms(1)
    by (auto simp: rsock_room_ok_def rsock_pool_ok_def)
  then obtain rs c where rs: "RSock_Init (ring_room e w) r = Some (rs, c)" "accept_ready e w rs"
    by (auto simp: RSock_Init_def accept_ready_def)
  with False r(1) have eq: "allocRSock e (g_dwPagesize w * 8) w =
      Some (?p, w\<lparr>v_RSock := butlast (v_RSock w), rsocks := (rsocks w)(?p \<mapsto> rs),
        next_addr := next_addr w, tick := tick w, trace := trace w @ map Closed c\<rparr>)"
    by (simp add: allocRSock_def put_rsock_def log_closed_def ring_room_def)
  show ?thesis by (intro exI conjI, rule eq) (simp_all add: rs(2) r(2))
qed

text \<open>The outcome of a post: an accept in flight with two objects that were not in use, or nothing in
  use that was not before.\<close>

definition accept_outcome :: "os_env \<Rightarrow> addr \<Rightarrow> listen_sock \<Rightarrow> world \<Rightarrow> bool \<Rightarrow> world \<Rightarrow> bool" where
  "accept_outcome e l ls w ok w' \<longleftrightarrow>
     rsock_room_ok e w' \<and> robj_pool_ok w' \<and> others_kept w w' \<and>
     (if ok then \<exists>ro rp rs.
        pending w' = pending w @ [(KeyL l, RO ro)] \<and>
        ro \<notin> robj_use w \<and> robj_use w' = insert ro (robj_use w) \<and>
        rp \<notin> rsock_use w \<and> rsock_use w' = insert rp (rsock_use w) \<and>
        lsocks w' = (lsocks w)(l \<mapsto> InsertIntoPendingMap (rs_nKey rs) (RS rp) ls) \<and>
        accept_posted l ro rp rs (InsertIntoPendingMap (rs_nKey rs) (RS rp) ls) w' \<and>
        accept_ready e w' rs \<and> rs_sock rs \<noteq> INVALID_SOCKET
      else
        pending w' = pending w \<and> robj_use w' = robj_use w \<and> rsock_use w' = rsock_use w \<and>
        (\<exists>ls'. lsocks w' = (lsocks w)(l \<mapsto> ls') \<and>
           (pending_map ls' = pending_map ls \<or> (\<exists>k. pending_map ls' = (pending_map ls)(k := None)))))"

lemma buffers_kept_room:
  assumes "rsock_room_ok e w" and "buffers_kept w w'" and "rsock_pool_ok w'" and "g_dwPagesize w' = g_dwPagesize w"
  shows "rsock_room_ok e w'"
  using assms by (fastforce simp: rsock_room_ok_def buffers_kept_def ring_room_def)

text \<open>The two allocations.\<close>

definition accept_allocated :: "os_env \<Rightarrow> addr \<Rightarrow> addr \<Rightarrow> world \<Rightarrow> world \<Rightarrow> bool" where
  "accept_allocated e ro rp w w' \<longleftrightarrow>
     rsock_room_ok e w' \<and> robj_pool_ok w' \<and> others_kept w w' \<and> pending w' = pending w \<and> lsocks w' = lsocks w \<and>
     ro \<notin> robj_use w \<and> robj_use w' = insert ro (robj_use w) \<and>
     rp \<notin> rsock_use w \<and> rsock_use w' = insert rp (rsock_use w) \<and>
     (\<exists>r. robjs w' ro = Some r) \<and> (\<exists>rs. rsocks w' rp = Some rs \<and> accept_ready e w' rs)"

lemma accept_allocs:
  assumes ok: "rsock_room_ok e w" "robj_pool_ok w" and heap: "v_RSock w \<noteq> [] \<or> (\<forall>t. heap_ok e t)"
  shows "\<exists>ro w1. allocRObj e w = Some (ro, w1) \<and>
     (if ro = 0
      then rsock_room_ok e w1 \<and> robj_pool_ok w1 \<and> others_kept w w1 \<and> pending w1 = pending w \<and> lsocks w1 = lsocks w \<and>
        robj_use w1 = robj_use w \<and> rsock_use w1 = rsock_use w
      else \<exists>rp w2. allocRSock e (g_dwPagesize w1 * 8) w1 = Some (rp, w2) \<and> rp \<noteq> 0 \<and> accept_allocated e ro rp w w2)"
proof -
  obtain ro v h a t where al: "allocRObj e w = Some (ro, w\<lparr>v_RObj := v, robjs := h, next_addr := a, tick := t\<rparr>)"
      "next_addr w \<le> a" "ro \<noteq> 0 \<longrightarrow> (\<exists>r. h ro = Some r)"
    using allocRObj_any [OF ok(2)] by blast
  let ?w1 = "w\<lparr>v_RObj := v, robjs := h, next_addr := a, tick := t\<rparr>"
  have room1: "rsock_room_ok e ?w1"
    using ok(1) al(2) by (auto simp: rsock_room_ok_def rsock_pool_ok_def ring_room_def intro: pool_inv_bound_mono)
  note law1 = robj_pool.alloc_law [OF ok(2) al(1)]
  have "\<exists>rp w2. allocRSock e (g_dwPagesize ?w1 * 8) ?w1 = Some (rp, w2) \<and> rp \<noteq> 0 \<and> accept_allocated e ro rp w w2"
    if "ro \<noteq> 0"
  proof -
    have "v_RSock ?w1 \<noteq> [] \<or> heap_ok e (tick ?w1)" using heap by simp
    from allocRSock_any [OF room1 this] obtain rp rs v' a' t' c where
      al2: "allocRSock e (g_dwPagesize ?w1 * 8) ?w1 = Some (rp, ?w1\<lparr>v_RSock := v',
        rsocks := (rsocks ?w1)(rp \<mapsto> rs), next_addr := a', tick := t', trace := trace ?w1 @ map Closed c\<rparr>)"
        "rp \<noteq> 0" "next_addr ?w1 \<le> a'" "accept_ready e ?w1 rs" by (elim exE conjE)
    let ?w2 = "?w1\<lparr>v_RSock := v', rsocks := (rsocks ?w1)(rp \<mapsto> rs), next_addr := a', tick := t',
        trace := trace ?w1 @ map Closed c\<rparr>"
    have "rsock_pool_ok ?w1" using room1 by (simp add: rsock_room_ok_def)
    note law2 = rsock_pool.alloc_law [OF this al2(1)]
    have "rsock_room_ok e ?w2"
      using law2 room1 al2(4) by (auto simp: rsock_room_ok_def ring_room_def accept_ready_def)
    moreover have "robj_pool_ok ?w2"
      using law1 al2(3) by (auto simp: robj_pool_ok_def intro: pool_inv_bound_mono)
    ultimately have "accept_allocated e ro rp w ?w2"
      using law1 law2 that al(2,3) al2(2-4)
      by (simp add: accept_allocated_def others_kept_def accept_ready_def ring_room_def)
    with al2(1,2) show ?thesis by blast
  qed
  moreover have "robj_pool_ok ?w1 \<and> (ro = 0 \<longrightarrow> robj_use ?w1 = robj_use w)" using law1 by (auto split: if_splits)
  ultimately show ?thesis using al(1,2) room1
    by (intro exI [of _ ro] exI [of _ ?w1]) (simp add: others_kept_def)
qed

text \<open>No socket for the connection: both objects go back.\<close>

lemma accept_no_socket:
  assumes a1: "allocRObj e w = Some (ro, w1)" "ro \<noteq> 0"
    and a2: "allocRSock e (g_dwPagesize w1 * 8) w1 = Some (rp, w2)" "rp \<noteq> 0" "accept_allocated e ro rp w w2"
    and s: "os_socket e (tick w2) = INVALID_SOCKET" and ls: "lsocks w l = Some ls"
  shows "\<exists>w'. Client_PostAcceptEx e l w = Some (False, w') \<and> accept_outcome e l ls w False w'"
proof -
  obtain rs where al: "rsock_room_ok e w2" "robj_pool_ok w2" "others_kept w w2" "pending w2 = pending w"
      "lsocks w2 = lsocks w" "ro \<notin> robj_use w" "robj_use w2 = insert ro (robj_use w)" "rp \<notin> rsock_use w"
      "rsock_use w2 = insert rp (rsock_use w)" "rsocks w2 rp = Some rs" "accept_ready e w2 rs"
    using a2(3) by (auto simp: accept_allocated_def)
  have pool: "rsock_pool_ok w2" using al(1) by (simp add: rsock_room_ok_def)
  define w3 where "w3 = put_rsock rp (rs\<lparr>rs_sock := INVALID_SOCKET\<rparr>) (w2\<lparr>tick := Suc (tick w2)\<rparr>)"
  have "lstSend (rs\<lparr>rs_sock := INVALID_SOCKET\<rparr>) \<noteq> None" using al(11) by (simp add: accept_ready_def)
  from put_rsock_keeps [OF pool al(10) this, of w3]
  have k: "rsock_pool_ok w3" "rsock_use w3 = rsock_use w2" "buffers_kept w2 w3"
    by (simp_all add: w3_def put_rsock_def)
  have r3: "robj_pool_ok w3" "robj_use w3 = robj_use w2" "others_kept w2 w3" "pending w3 = pending w"
      "lsocks w3 = lsocks w"
    using al(2,4,5) by (simp_all add: w3_def put_rsock_def robj_pool_ok_def others_kept_def)
  with release_objects [OF k(1), of rp ro] k(2) al(7,9) obtain w4 w5 where
    w5: "freeRObj ro w3 = Some w4" "freeRSock rp w4 = Some w5" "objects_released ro rp w3 w5" by auto
  have "Client_PostAcceptEx e l w = Some (False, w5)"
    using a1 a2(1,2) al(10) s w5(1,2)
    by (simp add: Client_PostAcceptEx_def os_call_def update_rsock_def w3_def)
  moreover have "rsock_room_ok e w5"
    using buffers_kept_room [OF al(1), of w5] buffers_kept_trans [OF k(3), of w5] w5(3) r3(3)
    by (auto simp: objects_released_def others_kept_def)
  moreover have "others_kept w w5"
    using w5(3) others_kept_trans [OF others_kept_trans [OF al(3) r3(3)]] by (simp add: objects_released_def)
  moreover have "robj_use w5 = robj_use w" "rsock_use w5 = rsock_use w" "robj_pool_ok w5"
    "pending w5 = pending w" "lsocks w5 = (lsocks w)(l \<mapsto> ls)"
    using w5(3) k(2) r3 al(6-9) ls by (auto simp: objects_released_def fun_upd_idem)
  ultimately have "accept_outcome e l ls w False w5"
    unfolding accept_outcome_def by (simp only: if_False) blast
  with \<open>Client_PostAcceptEx e l w = Some (False, w5)\<close> show ?thesis by blast
qed

text \<open>The state in which \<^verbatim>\<open>AcceptEx\<close> is called: the objects are tied together and in the map.\<close>

definition accept_prepared :: "os_env \<Rightarrow> addr \<Rightarrow> addr \<Rightarrow> addr \<Rightarrow> recv_sock \<Rightarrow> listen_sock \<Rightarrow> world \<Rightarrow> world \<Rightarrow> bool" where
  "accept_prepared e l ro rp rs ls w w' \<longleftrightarrow>
     rsock_room_ok e w' \<and> robj_pool_ok w' \<and> others_kept w w' \<and> pending w' = pending w \<and>
     ro \<notin> robj_use w \<and> robj_use w' = insert ro (robj_use w) \<and>
     rp \<notin> rsock_use w \<and> rsock_use w' = insert rp (rsock_use w) \<and>
     lsocks w' = (lsocks w)(l \<mapsto> InsertIntoPendingMap (rs_nKey rs) (RS rp) ls) \<and>
     accept_posted l ro rp rs (InsertIntoPendingMap (rs_nKey rs) (RS rp) ls) w' \<and>
     accept_ready e w' rs \<and> rs_sock rs \<noteq> INVALID_SOCKET"

lemma accept_prepare:
  assumes a1: "allocRObj e w = Some (ro, w1)" "ro \<noteq> 0"
    and a2: "allocRSock e (g_dwPagesize w1 * 8) w1 = Some (rp, w2)" "rp \<noteq> 0" "accept_allocated e ro rp w w2"
    and s: "os_socket e (tick w2) \<noteq> INVALID_SOCKET" and ls: "lsocks w l = Some ls"
  shows "\<exists>rs w3 t. accept_prepared e l ro rp rs ls w w3 \<and> Client_PostAcceptEx e l w =
    (if \<not> fst (os_AcceptEx e t) \<and> WSA_IO_PENDING \<noteq> snd (os_AcceptEx e t)
     then do { w \<leftarrow> Client_AcceptCompletionFailed l ro w3; Some (False, w) }
     else Some (True, post_io (KeyL l) (RO ro) w3))"
proof -
  obtain r rs where al: "rsock_room_ok e w2" "robj_pool_ok w2" "others_kept w w2" "pending w2 = pending w"
      "lsocks w2 = lsocks w" "ro \<notin> robj_use w" "robj_use w2 = insert ro (robj_use w)" "rp \<notin> rsock_use w"
      "rsock_use w2 = insert rp (rsock_use w)" "robjs w2 ro = Some r" "rsocks w2 rp = Some rs" "accept_ready e w2 rs"
    using a2(3) by (auto simp: accept_allocated_def)
  have pool: "rsock_pool_ok w2" using al(1) by (simp add: rsock_room_ok_def)
  define k where "k = os_rand e (Suc (tick w2))"
  define rs' where "rs' = rs\<lparr>rs_sock := os_socket e (tick w2), rs_nKey := k\<rparr>"
  define r' where "r' = RObj_SetIoRequestFunction Client_AcceptCompletion Client_AcceptCompletion (r\<lparr>ro_pRelateSock := rp\<rparr>)"
  let ?ls = "InsertIntoPendingMap k (RS rp) ls"
  define w3 where "w3 = w2\<lparr>robjs := (robjs w2)(ro \<mapsto> r'), rsocks := (rsocks w2)(rp \<mapsto> rs'),
    lsocks := (lsocks w)(l \<mapsto> ?ls), tick := Suc (Suc (Suc (tick w2)))\<rparr>"
  have "Client_PostAcceptEx e l w =
    (if \<not> fst (os_AcceptEx e (Suc (Suc (tick w2)))) \<and> WSA_IO_PENDING \<noteq> snd (os_AcceptEx e (Suc (Suc (tick w2))))
     then do { w \<leftarrow> Client_AcceptCompletionFailed l ro w3; Some (False, w) }
     else Some (True, post_io (KeyL l) (RO ro) w3))"
    using a1 a2(1,2) al(5,10,11) ls s
    by (simp add: Client_PostAcceptEx_def Client_AcceptCompletionFailed_def os_call_def GetRand_def
        World.update_defs put_defs k_def [symmetric] w3_def rs'_def r'_def
        RObj_SetIoRequestFunction_def delete_pending_def split: prod.splits
        del: CMCloseSocket.simps)
  moreover have rdy: "accept_ready e w3 rs'" "rs_nKey rs' = k" "rs_sock rs' \<noteq> INVALID_SOCKET"
    using al(12) s by (simp_all add: rs'_def accept_ready_def w3_def ring_room_def)
  have "lstSend rs' \<noteq> None" "buf rs' = buf rs" using al(12) by (simp_all add: rs'_def accept_ready_def)
  from put_rsock_keeps [OF pool al(11) this, of w3]
  have kp: "rsock_pool_ok w3" "rsock_use w3 = rsock_use w2" "buffers_kept w2 w3" by (simp_all add: w3_def)
  have rb: "robj_pool_ok w3" "robj_use w3 = robj_use w2" "others_kept w2 w3" "pending w3 = pending w"
      "lsocks w3 = (lsocks w)(l \<mapsto> ?ls)"
    using al(2,4,10) by (auto simp: w3_def robj_pool_ok_def pool_inv_def pool_use_def others_kept_def)
  have "accept_posted l ro rp rs' ?ls w3"
    using kp rb al(7,9) by (simp add: accept_posted_def w3_def r'_def RObj_SetIoRequestFunction_def)
  moreover have "rsock_room_ok e w3"
    using buffers_kept_room [OF al(1) kp(3,1)] by (simp add: w3_def)
  ultimately have "accept_prepared e l ro rp rs' ls w w3"
    using rdy kp(2) rb al(6-9) others_kept_trans [OF al(3) rb(3)] by (simp add: accept_prepared_def)
  with \<open>Client_PostAcceptEx e l w = _\<close> show ?thesis by blast
qed

lemma prepared_failed:
  assumes "accept_prepared e l ro rp rs ls w w1"
  shows "\<exists>w'. Client_AcceptCompletionFailed l ro w1 = Some w' \<and> accept_outcome e l ls w False w'"
proof -
  let ?ls = "InsertIntoPendingMap (rs_nKey rs) (RS rp) ls"
  note p = assms [unfolded accept_prepared_def]
  obtain w' where w': "Client_AcceptCompletionFailed l ro w1 = Some w'" "accept_released l ro rp rs ?ls w1 w'"
    using AcceptCompletionFailed_releases p by blast
  have "rsock_room_ok e w'"
    using buffers_kept_room [of e w1 w'] p w'(2) by (simp add: accept_released_def others_kept_def)
  moreover have "pending_map (DeleteFromPendingMap (rs_nKey rs) ?ls) = (pending_map ls)(rs_nKey rs := None)"
    by (simp add: Delete_pending_map Insert_pending_map)
  moreover have "lsocks w' = (lsocks w)(l \<mapsto> DeleteFromPendingMap (rs_nKey rs) ?ls)" "pending w' = pending w"
    "robj_use w' = robj_use w" "rsock_use w' = rsock_use w" "robj_pool_ok w'" "others_kept w w'"
    using w'(2) p others_kept_trans [of w w1 w'] by (simp_all add: accept_released_def)
  ultimately show ?thesis
    unfolding accept_outcome_def using w'(1) by (intro exI [of _ w']) (simp only: if_False, blast)
qed

lemma prepared_posted:
  assumes "accept_prepared e l ro rp rs ls w w1"
  shows "accept_outcome e l ls w True (post_io (KeyL l) (RO ro) w1)"
proof -
  let ?w = "post_io (KeyL l) (RO ro) w1" and ?ls = "InsertIntoPendingMap (rs_nKey rs) (RS rp) ls"
  note p = assms [unfolded accept_prepared_def]
  have "accept_posted l ro rp rs ?ls ?w" "accept_ready e ?w rs" "rsock_room_ok e ?w" "others_kept w ?w" "robj_pool_ok ?w"
    using p
    by (simp_all add: post_io_def accept_posted_def rsock_pool_ok_def robj_pool_ok_def accept_ready_def
        ring_room_def rsock_room_ok_def others_kept_def)
  moreover have "pending ?w = pending w @ [(KeyL l, RO ro)]" "robj_use ?w = insert ro (robj_use w)"
    "rsock_use ?w = insert rp (rsock_use w)" "lsocks ?w = (lsocks w)(l \<mapsto> ?ls)"
    using p by (simp_all add: post_io_def)
  ultimately show ?thesis unfolding accept_outcome_def using p by (simp only: if_True) blast
qed

lemma Client_PostAcceptEx_outcome:
  assumes ok: "rsock_room_ok e w" "robj_pool_ok w" and heap: "v_RSock w \<noteq> [] \<or> (\<forall>t. heap_ok e t)"
    and ls: "lsocks w l = Some ls"
  shows "\<exists>ok w'. Client_PostAcceptEx e l w = Some (ok, w') \<and> accept_outcome e l ls w ok w'"
proof -
  obtain ro w1 where a1: "allocRObj e w = Some (ro, w1)"
    and c: "if ro = 0
      then rsock_room_ok e w1 \<and> robj_pool_ok w1 \<and> others_kept w w1 \<and> pending w1 = pending w \<and> lsocks w1 = lsocks w \<and>
        robj_use w1 = robj_use w \<and> rsock_use w1 = rsock_use w
      else \<exists>rp w2. allocRSock e (g_dwPagesize w1 * 8) w1 = Some (rp, w2) \<and> rp \<noteq> 0 \<and> accept_allocated e ro rp w w2"
    using accept_allocs [OF ok heap] by blast
  show ?thesis
  proof (cases "ro = 0")
    case True
    then have "Client_PostAcceptEx e l w = Some (False, w1)" using a1 by (simp add: Client_PostAcceptEx_def)
    moreover have "accept_outcome e l ls w False w1"
      using c True ls by (auto simp: accept_outcome_def intro!: exI [of _ ls])
    ultimately show ?thesis by blast
  next
    case False
    then obtain rp w2 where a2: "allocRSock e (g_dwPagesize w1 * 8) w1 = Some (rp, w2)" "rp \<noteq> 0"
        "accept_allocated e ro rp w w2" using c by auto
    show ?thesis
    proof (cases "os_socket e (tick w2) = INVALID_SOCKET")
      case True
      from accept_no_socket [OF a1 \<open>ro \<noteq> 0\<close> a2 True ls] show ?thesis by blast
    next
      case False
      from accept_prepare [OF a1 \<open>ro \<noteq> 0\<close> a2 False ls] prepared_failed prepared_posted show ?thesis
        by (elim exE conjE) (split if_splits; fastforce)
    qed
  qed
qed

subsection \<open>An accept that succeeds\<close>

text \<open>The connection object after \<^verbatim>\<open>AcceptEx\<close> has stored the first bytes \<open>bs\<close> at the beginning of its
  buffer; \<^verbatim>\<open>Init\<close> has left the positions and the sizes of the free parts zero.\<close>

definition accept_filled :: "byte list \<Rightarrow> recv_sock \<Rightarrow> bool" where
  "accept_filled bs rs \<longleftrightarrow>
     length (buf rs) = unat (dwBufsize rs) \<and> unat (dwBufsize rs) < 2 ^ 31 \<and> \<not> bFull rs \<and>
     dwReadpos rs = 0 \<and> dwRightsize rs = 0 \<and>
     bs \<noteq> [] \<and> length bs < length (buf rs) \<and> take (length bs) (buf rs) = bs"

text \<open>The kernel leaves room for the two addresses of \<^verbatim>\<open>sizeof(sockaddr_in) + 16\<close> bytes.\<close>

lemma accept_ready_filled:
  assumes "accept_ready e w rs" and "unat (ring_room e w) < 2 ^ 31" and "bs \<noteq> []"
    and "length bs + 64 \<le> unat (ring_room e w)"
  shows "accept_filled bs (rs\<lparr>buf := bs @ drop (length bs) (buf rs)\<rparr>)"
  using assms by (simp add: accept_ready_def accept_filled_def)

lemma InitWRpos_accepted:
  assumes "accept_filled bs rs"
  shows "ring_ok (InitWRpos (of_nat (length bs)) rs) \<and> contents (InitWRpos (of_nat (length bs)) rs) = bs \<and>
     (\<exists>p f b. InitWRpos (of_nat (length bs)) rs = rs\<lparr>dwWritepos := p, bFull := f, bEmpty := b\<rparr>)"
proof -
  let ?n = "of_nat (length bs) :: DWORD"
  have n: "unat ?n = length bs" "length bs \<noteq> 0"
    using assms unat_of_nat_small [of "length bs"] by (auto simp: accept_filled_def)
  then have "?n \<noteq> 0" by (metis unat_0)
  then have "InitWRpos ?n rs = rs\<lparr>dwWritepos := ?n, bFull := False, bEmpty := False\<rparr>"
    using assms by (simp add: InitWRpos_def accept_filled_def Let_def word_gt_0)
  with assms n \<open>?n \<noteq> 0\<close> show ?thesis
    by (auto simp: accept_filled_def ring_ok_def ring_shape_def contents_def Let_def)
qed

lemma AcceptCompletionSuccess_delivers:
  assumes acc: "accept_posted l ro rp rs ls w" and fill: "accept_filled bs rs"
    and fr: "split_frames bs = (ps, rest)" "rest_ok rest"
    and room: "bobj_room_ok e w" "\<forall>p \<in> set ps. length p + 2 \<le> cmd_room e w"
    and os: "\<forall>t. heap_ok e t" "\<forall>t. os_PostQueuedCompletionStatus e t \<noteq> 0"
      "\<forall>t. fst (os_WSARecv e t) \<noteq> SOCKET_ERROR" "\<forall>t. os_CreateIoCompletionPort e t \<noteq> 0"
  shows "\<exists>bps w' rs1 rs' closed.
     Client_AcceptCompletionSuccess e (of_nat (length bs)) l ro w = Some w' \<and>
     pending w' = pending w @ map (\<lambda>b. (KeyObj b, BO b)) bps @ [(KeyR rp, RO ro)] \<and>
     list_all2 (\<lambda>p b. \<exists>bo. bobjs w' b = Some bo \<and> carries rp p bo) ps bps \<and>
     distinct bps \<and> set bps \<inter> bobj_use w = {} \<and>
     lsocks w' = (lsocks w)(l \<mapsto> DeleteFromPendingMap (rs_nKey rs) ls) \<and>
     rsocks w' rp = Some rs' \<and> contents rs1 = rest \<and> rs_sock rs1 = rs_sock rs \<and>
     nRef rs1 = nRef rs + of_nat (length ps) \<and> loop_end rs1 rs' closed \<and>
     trace w' = trace w @ map Closed closed"
proof -
  obtain r where a: "lsocks w l = Some ls" "rsocks w rp = Some rs" "robjs w ro = Some r" "ro_pRelateSock r = rp"
    using acc by (auto simp: accept_posted_def)
  let ?n = "of_nat (length bs) :: DWORD" and ?ls = "DeleteFromPendingMap (rs_nKey rs) ls"
  have "unat ?n = length bs" using fill by (intro unat_of_nat_small) (auto simp: accept_filled_def)
  then have pos: "\<not> ?n \<le> 0" using fill by (auto simp: accept_filled_def word_le_nat_alt)
  define rs1 where "rs1 = InitWRpos ?n rs"
  have ring: "ring_ok rs1" "contents rs1 = bs" "nRef rs1 = nRef rs" "rs_sock rs1 = rs_sock rs"
    using InitWRpos_accepted [OF fill] by (auto simp: rs1_def)
  define w1 where "w1 = (put_lsock l ?ls w)\<lparr>tick := Suc (tick w)\<rparr>"
  define w2 where "w2 = put_rsock rp rs1 w1"
  have s1: "delete_pending l (RS rp) w = Some (put_lsock l ?ls w)"
    using a by (simp add: delete_pending_def update_lsock_def)
  have s2: "update_rsock rp (InitWRpos ?n) w1 = Some w2"
    using a by (simp add: update_rsock_def w1_def w2_def rs1_def put_lsock_def)
  have w2: "rsocks w2 rp = Some rs1" "bobj_room_ok e w2" "cmd_room e w2 = cmd_room e w" "pending w2 = pending w"
      "bobjs w2 = bobjs w" "v_BObj w2 = v_BObj w" "trace w2 = trace w" "robjs w2 = robjs w"
      "lsocks w2 = (lsocks w)(l \<mapsto> ?ls)"
    using room(1) by (simp_all add: w2_def w1_def put_defs bobj_room_ok_def cmd_room_def bobj_pool_ok_def)
  have "split_frames (contents rs1) = (ps, rest)" "\<forall>p \<in> set ps. length p + 2 \<le> cmd_room e w2"
    using fr(1) room(2) ring(2) w2(3) by simp_all
  from accept_cmds.loop_delivers [OF this(1) w2(1) ring(1) fr(2) w2(2) this(2) os(1,2)]
  obtain bps w3 rs2 rs' closed where lp: "accept_loop e rp w2 = Some w3" "delivered rp ps w2 bps w3"
      "rsocks w3 = (rsocks w2)(rp \<mapsto> rs')" "contents rs2 = rest" "rs_sock rs2 = rs_sock rs1"
      "nRef rs2 = nRef rs1 + of_nat (length ps)" "loop_end rs2 rs' closed"
      "trace w3 = trace w2 @ map Closed closed" "robjs w3 = robjs w2" "lsocks w3 = lsocks w2" by blast
  obtain w4 w' where z: "update_robj ro (RObj_SetIoRequestFunction Client_ZeroRecvCompletion Client_ZeroRecvCompletion) w3 = Some w4"
      "Client_PostZeroRecv e rp ro w4 = Some (True, w')" "zero_recv_posted rp ro rs' w3 w'"
    using next_zero_recv [OF _ _ os(3), of w3 rp rs' ro r] lp(3,9) w2(8) a(3) by auto
  note z' = z(3) [unfolded zero_recv_posted_def]
  have "Client_AcceptCompletionSuccess e ?n l ro w = Some w'"
    using pos a(3,4) s1 s2 lp(1) z(1,2) os(4) [rule_format, of "tick w"] by (simp add: Client_AcceptCompletionSuccess_def os_call_def w1_def put_lsock_def)
  moreover note delivered_weaken [OF lp(2), of w' "[(KeyR rp, RO ro)]"] loop_end_wsabufs [OF lp(7), of zero_wsabuf zero_wsabuf]
  ultimately show ?thesis
    using lp(4-6,8,10) w2(4-9) ring(3,4) z'
    by (intro exI [of _ bps] exI [of _ w'] exI [of _ rs2] exI [of _ "rs'\<lparr>wsabuf0 := zero_wsabuf, wsabuf1 := zero_wsabuf\<rparr>"]
        exI [of _ closed]) simp
qed

end
