(* ===== verification/Nc_Requests.thy ===== *)
theory Nc_Requests
  imports Nc
begin

text \<open>
  \<^verbatim>\<open>CheckNCData\<close> against the format it looks for: an HTTP head of lines, of which one is the
  \<^verbatim>\<open>Content-Length\<close> field, an empty line and a body of that many bytes.
\<close>

subsection \<open>Numbers in decimal\<close>

fun decimal :: "nat \<Rightarrow> byte list" where
  "decimal n = (if n < 10 then [of_nat (48 + n)] else decimal (n div 10) @ [of_nat (48 + n mod 10)])"

declare decimal.simps [simp del]

lemma digit_byte:
  assumes "d < 10"
  shows "unat (of_nat (48 + d) :: byte) = 48 + d"
  unfolding unat_of_nat using assms by simp

lemma is_digit_of_nat: "d < 10 \<Longrightarrow> is_digit (of_nat (48 + d))"
  using digit_byte [of d] by (simp add: is_digit_def word_le_nat_alt del: of_nat_add)

lemma decimal_digits: "b \<in> set (decimal n) \<Longrightarrow> is_digit b"
proof (induction n rule: decimal.induct)
  case (1 n)
  show ?case
  proof (cases "n < 10")
    case True
    then show ?thesis using "1.prems" is_digit_of_nat [of n] by (simp add: decimal.simps [of n])
  next
    case False
    then show ?thesis using "1.prems" "1.IH" is_digit_of_nat [of "n mod 10"]
      by (auto simp: decimal.simps [of n])
  qed
qed

lemma digit_not: "is_digit b \<Longrightarrow> b \<noteq> 0 \<and> b \<noteq> 13 \<and> b \<noteq> 10 \<and> b \<noteq> 45 \<and> b \<noteq> 43 \<and> \<not> is_space b"
  by (auto simp: is_digit_def is_space_def word_le_nat_alt)

lemma decimal_ne: "decimal n \<noteq> []"
  by (subst decimal.simps) simp

lemma length_decimal: "n < 10 ^ Suc k \<Longrightarrow> length (decimal n) \<le> Suc k"
proof (induction k arbitrary: n)
  case 0
  then show ?case by (simp add: decimal.simps [of n])
next
  case (Suc k)
  then have "n div 10 < 10 ^ Suc k" by (simp add: less_mult_imp_div_less mult.commute)
  then show ?case using Suc.IH [of "n div 10"] by (simp add: decimal.simps [of n])
qed

lemma atoi_digits_append:
  "\<forall>b \<in> set xs. is_digit b \<Longrightarrow> atoi_digits a (xs @ ys) = atoi_digits (atoi_digits a xs) ys"
  by (induction xs arbitrary: a) auto

lemma atoi_digits_decimal: "atoi_digits 0 (decimal n) = int n"
proof (induction n rule: decimal.induct)
  case (1 n)
  show ?case
  proof (cases "n < 10")
    case True
    then show ?thesis using is_digit_of_nat [of n] digit_byte [of n]
      by (simp add: decimal.simps [of n] del: of_nat_add)
  next
    case False
    have d: "is_digit (of_nat (48 + n mod 10))" "unat (of_nat (48 + n mod 10) :: byte) = 48 + n mod 10"
      using is_digit_of_nat [of "n mod 10"] digit_byte [of "n mod 10"] by simp_all
    have "decimal n = decimal (n div 10) @ [of_nat (48 + n mod 10)]"
      using False by (simp add: decimal.simps [of n])
    then have "atoi_digits 0 (decimal n) = 10 * int (n div 10) + int (n mod 10)"
      using "1.IH" [OF False] d by (simp add: atoi_digits_append decimal_digits del: of_nat_add)
    also have "\<dots> = int (10 * (n div 10) + n mod 10)" by (simp only: of_nat_add of_nat_mult of_nat_numeral)
    finally show ?thesis by simp
  qed
qed

lemma atoi_decimal: "atoi (decimal n) = int n"
proof -
  obtain b bs where d: "decimal n = b # bs" using decimal_ne by (cases "decimal n") auto
  then have "is_digit b" using decimal_digits [of b n] by simp
  from digit_not [OF this] d show ?thesis
    using atoi_digits_decimal [of n] by (auto simp: atoi_def)
qed

subsection \<open>\<^verbatim>\<open>strstr\<close>\<close>

lemma strstr_bound: "strstr s pat = Some i \<Longrightarrow> i + length pat \<le> length s"
proof (induction s arbitrary: i)
  case (Cons c s)
  show ?case
  proof (cases "take (length pat) (c # s) = pat")
    case True
    then show ?thesis using Cons.prems by (metis add_0 length_take min.cobounded1 min.commute option.inject strstr.simps(2))
  qed (use Cons in auto)
qed (auto split: if_splits)

lemma strstr_more: "strstr s pat = Some i \<Longrightarrow> strstr (s @ s') pat = Some i"
proof (induction s arbitrary: i)
  case Nil
  then show ?case by (cases s') (auto split: if_splits)
next
  case (Cons c s)
  show ?case
  proof (cases "take (length pat) (c # s) = pat")
    case True
    then have "length pat \<le> length (c # s)" by (metis length_take min.absorb_iff2 min.commute)
    then have "take (length pat) (c # s @ s') = take (length pat) (c # s)"
      by (simp add: take_Cons')
    then show ?thesis using True Cons.prems by (simp del: take_append)
  next
    case False
    then obtain j where j: "i = Suc j" "strstr s pat = Some j" using Cons.prems by auto
    show ?thesis
    proof (cases "take (length pat) (c # s @ s') = pat")
      case True
      have "length pat \<le> length s" using strstr_bound [OF j(2)] by simp
      then have "take (length pat) (c # s @ s') = take (length pat) (c # s)"
        by (simp add: take_Cons')
      then show ?thesis using True False by simp
    qed (use j Cons.IH in simp)
  qed
qed

text \<open>The pattern is not found before a byte that it does not contain.\<close>

lemma strstr_over:
  assumes "x \<notin> set pat" and "strstr l pat = None"
  shows "strstr (l @ x # s) pat = map_option ((+) (Suc (length l))) (strstr s pat)"
  using assms(2)
proof (induction l)
  case Nil
  then have "pat \<noteq> []" by auto
  then have "take (length pat) (x # s) \<noteq> pat" using assms(1) by (cases pat) auto
  then show ?case by (simp add: option.map_comp comp_def)
next
  case (Cons c l)
  have n: "take (length pat) (c # l) \<noteq> pat" "strstr l pat = None"
    using Cons.prems by (auto split: if_splits)
  have "take (length pat) (c # l @ x # s) \<noteq> pat"
  proof (cases "length pat \<le> Suc (length l)")
    case True
    then show ?thesis using n(1) by (cases "pat = []") (simp_all add: take_Cons')
  next
    case False
    then have "x \<in> set (take (length pat) (c # l @ x # s))" by (auto simp: take_Cons')
    then show ?thesis using assms(1) by auto
  qed
  then show ?case using Cons.IH [OF n(2)] by (simp add: option.map_comp comp_def)
qed

lemma strstr_absent: "pat \<noteq> [] \<Longrightarrow> hd pat \<notin> set l \<Longrightarrow> strstr l pat = None"
  by (induction l) (cases pat; auto)+

lemma strstr_skip:
  assumes "hd pat \<notin> set l" and "pat \<noteq> []"
  shows "strstr (l @ s) pat = map_option ((+) (length l)) (strstr s pat)"
  using assms(1)
proof (induction l)
  case Nil
  then show ?case by (simp add: option.map_ident)
next
  case (Cons c l)
  then have "take (length pat) (c # l @ s) \<noteq> pat" using assms(2) by (cases pat) auto
  then show ?case using Cons by (simp add: option.map_comp comp_def)
qed

subsection \<open>The head of a request\<close>

text \<open>Lower case in the ASCII range.\<close>

definition lower :: "byte \<Rightarrow> byte" where
  "lower b = (if 65 \<le> b \<and> b \<le> 90 then b + 32 else b)"

text \<open>The documented behaviour of \<^verbatim>\<open>StrStrI\<close>: the first occurrence, without regard to case.\<close>

definition StrStrI_finds_first :: "os_env \<Rightarrow> bool" where
  "StrStrI_finds_first e \<longleftrightarrow> (\<forall>s pat. os_StrStrI e s pat = strstr (map lower s) (map lower pat))"

definition http_head :: "byte list list \<Rightarrow> byte list" where
  "http_head ls = concat (map (\<lambda>l. l @ CRLF) ls) @ CRLF"

text \<open>A line of a head: not empty, without carriage return and null byte.\<close>

definition http_line :: "byte list \<Rightarrow> bool" where
  "http_line l \<longleftrightarrow> l \<noteq> [] \<and> 13 \<notin> set l \<and> 0 \<notin> set l"

definition has_content_length :: "byte list \<Rightarrow> bool" where
  "has_content_length l \<longleftrightarrow> strstr (map lower l) (map lower content_length_tag) \<noteq> None"

text \<open>The head with the value \<open>v\<close> of the field in the line after \<open>before\<close>; the name of the field is
  written in any case, and no line before it contains that name.\<close>

definition request_head :: "byte list list \<Rightarrow> byte list \<Rightarrow> byte list \<Rightarrow> byte list list \<Rightarrow> byte list" where
  "request_head before name v after = http_head (before @ (name @ v) # after)"

definition request_ok :: "byte list list \<Rightarrow> byte list \<Rightarrow> byte list \<Rightarrow> byte list list \<Rightarrow> bool" where
  "request_ok before name v after \<longleftrightarrow>
     list_all http_line before \<and> list_all http_line after \<and> http_line (name @ v) \<and>
     map lower name = map lower content_length_tag \<and> \<not> list_ex has_content_length before"

lemma lower_eq [simp]: "lower b = 13 \<longleftrightarrow> b = 13" "lower b = 10 \<longleftrightarrow> b = 10"
proof -
  have "unat (b + 32) = unat b + 32" if "b \<le> 90"
    using that by (subst unat_add_lem [THEN iffD1]) (auto simp: word_le_nat_alt)
  then show "lower b = 13 \<longleftrightarrow> b = 13" "lower b = 10 \<longleftrightarrow> b = 10"
    by (auto simp: lower_def word_le_nat_alt word_unat_eq_iff)
qed

lemma lower_CRLF [simp]: "lower 13 = 13" "lower 10 = 10" by simp_all

lemma CRLF_sel [simp]: "CRLF \<noteq> []" "hd CRLF = 13" "length CRLF = 2" "set CRLF = {13, 10}"
  by (auto simp: CRLF_def)

lemma tag_chars: "13 \<notin> set content_length_tag" "10 \<notin> set content_length_tag" "0 \<notin> set content_length_tag"
    "length content_length_tag = 16"
  by (simp_all add: content_length_tag_def bytes_of_def)

text \<open>The empty line is the first place where the end of a head is found.\<close>

lemma strstr_line:
  assumes "13 \<notin> set l" and "take 2 s \<noteq> CRLF" and "s \<noteq> []"
  shows "strstr (l @ CRLF @ s) (CRLF @ CRLF) = map_option ((+) (length l + 2)) (strstr s (CRLF @ CRLF))"
  using assms strstr_skip [of "CRLF @ CRLF" l "CRLF @ s"]
  by (auto simp: CRLF_def option.map_comp comp_def neq_Nil_conv)

lemma head_end:
  assumes "list_all http_line ls" and "ls \<noteq> []"
  shows "strstr (http_head ls @ s) (CRLF @ CRLF) = Some (length (http_head ls) - 4)"
  using assms
proof (induction ls)
  case (Cons l ls)
  then have l: "13 \<notin> set l" by (simp add: http_line_def)
  show ?case
  proof (cases ls)
    case Nil
    then show ?thesis using strstr_skip [of "CRLF @ CRLF" l "CRLF @ CRLF @ s"] l
      by (simp add: http_head_def) (simp add: CRLF_def)
  next
    case (Cons l' ls')
    let ?s = "http_head ls @ s"
    obtain c cs where c: "l' = c # cs" "c \<noteq> 13"
      using Cons.prems(1) Cons by (cases l') (auto simp: http_line_def)
    then have "take 2 ?s \<noteq> CRLF" "?s \<noteq> []" using Cons by (auto simp: http_head_def CRLF_def)
    from strstr_line [OF l this] have "strstr (l @ CRLF @ ?s) (CRLF @ CRLF) =
        map_option ((+) (length l + 2)) (Some (length (http_head ls) - 4))"
      using Cons.IH Cons.prems(1) Cons by simp
    moreover have "4 \<le> length (http_head ls)" using Cons by (simp add: http_head_def)
    moreover have "http_head (l # ls) = l @ CRLF @ http_head ls" by (simp add: http_head_def)
    ultimately show ?thesis by simp
  qed
qed simp

text \<open>Nor is it found in a part of a head.\<close>

lemma head_part:
  assumes "list_all http_line ls" and "ls \<noteq> []" and "s @ t = http_head ls" and "t \<noteq> []"
  shows "strstr s (CRLF @ CRLF) = None"
proof (cases "strstr s (CRLF @ CRLF)")
  case (Some i)
  from strstr_more [OF this, of t] head_end [OF assms(1,2), of "[]"] assms(3)
  have "i = length (http_head ls) - 4" by simp
  moreover have "i + 4 \<le> length s" using strstr_bound [OF Some] by simp
  moreover have "length s < length (http_head ls)" using assms(3,4) by (metis length_append length_greater_0_conv less_add_same_cancel1)
  ultimately show ?thesis by simp
qed simp

text \<open>The field is found where its line starts.\<close>

lemma field_found:
  assumes "list_all http_line before" and "\<not> list_ex has_content_length before"
    and "map lower name = map lower content_length_tag"
  shows "strstr (map lower (concat (map (\<lambda>l. l @ CRLF) before) @ name @ s)) (map lower content_length_tag) =
           Some (length (concat (map (\<lambda>l. l @ CRLF) before)))"
  using assms(1,2)
proof (induction before)
  case Nil
  have "name \<noteq> []" using assms(3) tag_chars(4) by auto
  then obtain c cs where "map lower (name @ s) = c # cs" by (cases name) auto
  moreover have "take (length (map lower content_length_tag)) (map lower (name @ s)) = map lower content_length_tag"
    by (simp add: assms(3)) 
  ultimately show ?case by simp
next
  case (Cons l before)
  let ?s = "map lower (concat (map (\<lambda>l. l @ CRLF) before) @ name @ s)"
  let ?pat = "map lower content_length_tag"
  have n: "13 \<notin> set ?pat" "10 \<notin> set ?pat" "?pat \<noteq> []"
    using tag_chars by (auto simp: image_iff dest: sym)
  have "strstr (10 # ?s) ?pat = map_option ((+) 1) (strstr ?s ?pat)"
    using strstr_skip [of ?pat "[10]" ?s] n by (cases ?pat) auto
  moreover have "strstr (map lower l) ?pat = None" using Cons.prems(2) by (simp add: has_content_length_def)
  from strstr_over [OF n(1) this, of "10 # ?s"]
  have "strstr (map lower l @ 13 # 10 # ?s) ?pat = map_option ((+) (Suc (length l))) (strstr (10 # ?s) ?pat)" by simp
  ultimately show ?case using Cons.IH Cons.prems
    by (simp add: CRLF_def option.map_comp comp_def del: strstr.simps)
qed

subsection \<open>\<^verbatim>\<open>CheckNCData\<close>\<close>

text \<open>The C string in a buffer that has received \<open>r\<close>; what follows in the buffer starts with a null
  byte, or the head is complete and a null byte follows somewhere.\<close>

lemma c_string_append:
  assumes "0 \<notin> set r" and "c_string m = Some s"
  shows "c_string (r @ m) = Some (r @ s)"
  using assms by (auto simp: c_string_def takeWhile_append split: if_splits)

text \<open>The decision of \<^verbatim>\<open>CheckNCData\<close>, given the length of the head and the number in the field.\<close>

definition length_verdict :: "nat \<Rightarrow> int \<Rightarrow> addr \<Rightarrow> buffer_obj \<Rightarrow> world \<Rightarrow> (int \<times> world) option" where
  "length_verdict h n bp bo w =
     (if int h + n > sint (dwRecvedCount bo) then Some (0, w)
      else if int h + n = sint (dwRecvedCount bo) then Some (int h, w)
      else do { w \<leftarrow> CMCloseSocket_bobj bp w; Some (0, w) })"

lemma head_zero_free:
  assumes "list_all http_line ls"
  shows "0 \<notin> set (http_head ls)"
  using assms by (auto simp: http_head_def http_line_def CRLF_def list_all_iff)

lemma request_head_split:
  "request_head before name v after =
     concat (map (\<lambda>l. l @ CRLF) before) @ name @ v @ CRLF @ http_head after"
  by (simp add: request_head_def http_head_def)

lemma request_lines:
  "request_ok before name v after \<Longrightarrow> list_all http_line (before @ (name @ v) # after)"
  by (simp add: request_ok_def)

lemma name_length: "map lower name = map lower content_length_tag \<Longrightarrow> length name = 16"
  using tag_chars(4) by (metis length_map)

lemma CheckNCData_head:
  assumes e: "StrStrI_finds_first e" and req: "request_ok before name v after"
    and bo: "bobjs w bp = Some bo" "data bo = request_head before name v after @ m"
    and null: "0 \<in> set m"
  shows "CheckNCData e bp w = do {
     n \<leftarrow> parse_length (v @ CRLF @ http_head after @ takeWhile (\<lambda>b. b \<noteq> 0) m) (int (length v));
     length_verdict (length (request_head before name v after)) n bp bo w }"
proof -
  let ?h = "request_head before name v after" and ?t = "takeWhile (\<lambda>b. b \<noteq> 0) m"
  let ?b = "concat (map (\<lambda>l. l @ CRLF) before)"
  have r: "list_all http_line before" "\<not> list_ex has_content_length before" "13 \<notin> set name" "13 \<notin> set v"
      "map lower name = map lower content_length_tag"
    using req by (auto simp: request_ok_def http_line_def)
  have n: "length name = 16" using name_length [OF r(5)] .
  have "c_string m = Some ?t" using null by (simp add: c_string_def)
  from c_string_append [OF head_zero_free [OF request_lines [OF req]] this]
  have s: "c_string (data bo) = Some (?h @ ?t)" using bo(2) by (simp add: request_head_def)
  have h: "strstr (?h @ ?t) (CRLF @ CRLF) = Some (length ?h - 4)" and "4 \<le> length ?h"
    using head_end [OF request_lines [OF req]] n by (simp_all add: request_head_def http_head_def)
  moreover have "os_StrStrI e (?h @ ?t) content_length_tag = Some (length ?b)"
    using field_found [OF r(1,2,5), of "v @ CRLF @ http_head after @ ?t"] e
    by (simp add: StrStrI_finds_first_def request_head_split)
  moreover have d: "drop (length ?b) (?h @ ?t) = (name @ v) @ CRLF @ http_head after @ ?t"
      "drop (length ?b + 16) (?h @ ?t) = v @ CRLF @ http_head after @ ?t"
    using n by (simp_all add: request_head_split)
  moreover have "strstr ((name @ v) @ CRLF @ http_head after @ ?t) CRLF = Some (16 + length v)"
  proof -
    have "strstr (CRLF @ http_head after @ ?t) CRLF = Some 0" by (simp add: CRLF_def)
    then show ?thesis using strstr_skip [of CRLF "name @ v"] r(3,4) n by simp
  qed
  ultimately show ?thesis
    using bo(1) s tag_chars(4)
    by (simp add: CheckNCData_def length_verdict_def Let_def nat_int_add add.commute of_nat_diff
        del: append_assoc strstr.simps)
qed

lemma parse_length_decimal:
  assumes "length (decimal n) \<le> 7"
  shows "parse_length (decimal n @ s) (int (length (decimal n))) = Some (int n)"
proof -
  let ?d = "decimal n"
  have z: "0 \<notin> set ?d" using decimal_digits digit_not by blast
  have "c_string (replicate (8 - length ?d) 0) = Some []"
    using assms by (cases "8 - length ?d") (auto simp: c_string_def)
  from c_string_append [OF z this] assms show ?thesis
    by (simp add: parse_length_def atoi_decimal)
qed

lemma parse_length_long:
  assumes "7 < length v" and "0 \<notin> set v"
  shows "parse_length (v @ s) (int (length v)) = None"
proof (cases "length v = 8")
  case True
  then show ?thesis using assms(2) by (simp add: parse_length_def c_string_def)
qed (use assms in \<open>simp add: parse_length_def\<close>)

lemma request_part:
  assumes "request_ok before name v after" and "bobjs w bp = Some bo" and "data bo = r @ 0 # m"
    and "r @ t = request_head before name v after" and "t \<noteq> []"
  shows "CheckNCData e bp w = Some (0, w)"
proof -
  have "0 \<notin> set r" using head_zero_free [OF request_lines [OF assms(1)]] assms(4)
    by (metis UnCI request_head_def set_append)
  then have "c_string (data bo) = Some r"
    using c_string_append [of r "0 # m" "[]"] assms(3) by (simp add: c_string_def)
  moreover have "strstr r (CRLF @ CRLF) = None"
    using head_part [OF request_lines [OF assms(1)]] assms(4,5) by (simp add: request_head_def)
  ultimately show ?thesis using assms(2) by (simp add: CheckNCData_def)
qed

text \<open>A complete head with a number of at most seven digits.\<close>

lemma CheckNCData_number:
  assumes "StrStrI_finds_first e" and "request_ok before name (decimal n) after" and "n < 10 ^ 7"
    and "bobjs w bp = Some bo" "data bo = request_head before name (decimal n) after @ m" and "0 \<in> set m"
  shows "CheckNCData e bp w = length_verdict (length (request_head before name (decimal n) after)) (int n) bp bo w"
proof -
  have "length (decimal n) \<le> 7" using length_decimal [of n 6] assms(3) by simp
  from parse_length_decimal [OF this] CheckNCData_head [OF assms(1,2,4-6)] show ?thesis by simp
qed

text \<open>A value of more than seven characters is outside of what the routine can read.\<close>

lemma CheckNCData_long:
  assumes "StrStrI_finds_first e" and "request_ok before name v after" and "7 < length v"
    and "bobjs w bp = Some bo" "data bo = request_head before name v after @ m" and "0 \<in> set m"
  shows "CheckNCData e bp w = None"
proof -
  have "0 \<notin> set v" using assms(2) by (simp add: request_ok_def http_line_def)
  from parse_length_long [OF assms(3) this] CheckNCData_head [OF assms(1,2,4-6)] show ?thesis by simp
qed

text \<open>What has arrived of a request: its head, or a part of it, then bytes of the body.\<close>

lemma CheckNCData_arrived:
  assumes "StrStrI_finds_first e" and "request_ok before name (decimal n) after" and "n < 10 ^ 7"
    and "bobjs w bp = Some bo" "data bo = got @ 0 # m" and "sint (dwRecvedCount bo) = int (length got)"
    and "got @ t = request_head before name (decimal n) after @ body"
  shows "CheckNCData e bp w =
     (if length got < length (request_head before name (decimal n) after) then Some (0, w)
      else length_verdict (length (request_head before name (decimal n) after)) (int n) bp bo w)"
proof (cases "length got < length (request_head before name (decimal n) after)")
  case True
  let ?h = "request_head before name (decimal n) after"
  have "got = take (length got) ?h" using arg_cong [OF assms(7), of "take (length got)"] True by simp
  then have "got @ drop (length got) ?h = ?h" by (metis append_take_drop_id)
  moreover have "drop (length got) ?h \<noteq> []" using True by simp
  ultimately show ?thesis using request_part [OF assms(2,4,5)] True by simp
next
  case False
  let ?h = "request_head before name (decimal n) after"
  have "take (length ?h) got = ?h" using arg_cong [OF assms(7), of "take (length ?h)"] False by simp
  then obtain us where "got = ?h @ us" by (metis append_take_drop_id)
  with CheckNCData_number [OF assms(1-4), of "us @ 0 # m"] False assms(5) show ?thesis by simp
qed

subsection \<open>The routine that asks for more\<close>

lemma check_request_waits:
  assumes "CheckNCData e bp w = Some (0, w1)" and "bobjs w1 bp = Some bo" and "bsocks w1 sp = Some bs"
    and "fst (os_WSARecv e (tick w1)) \<noteq> SOCKET_ERROR \<or> snd (os_WSARecv e (tick w1)) = WSA_IO_PENDING"
  shows "\<exists>w' bo'. check_request e sp bp w = Some w' \<and> pending w' = pending w1 @ [(KeyB sp, BO bp)] \<and>
     bobjs w' = (bobjs w1)(bp \<mapsto> bo') \<and> data bo' = data bo \<and> dwRecvedCount bo' = dwRecvedCount bo \<and>
     bo_fpSuccess bo' = Some NC_RecvZeroComp \<and> bo_fpFailed bo' = Some NC_RecvZeroComp \<and> trace w' = trace w1"
  using assms
  by (auto simp: check_request_def Nc_PostZeroRecv_def World.update_defs put_defs os_call_def post_io_def
      BObj_SetIoRequestFunction_def split: prod.splits)

lemma check_request_done:
  assumes "CheckNCData e bp w = Some (h, w1)" and "h \<noteq> 0"
  shows "check_request e sp bp w = Some w1"
  using assms by (simp add: check_request_def)

end
