(* ===== verification/Db.thy ===== *)
theory Db
  imports Prelude "HOL-Library.Multiset" "HOL-Library.Monad_Syntax"
begin

text \<open>
  The pool of MySQL links (\<^verbatim>\<open>db_mysql.cpp\<close>): at most \<^verbatim>\<open>DB_LINK_MAX\<close> links, kept in a vector under a
  critical section. \<^verbatim>\<open>db_alloc\<close> leaves the critical section before it tests a link, so it is
  split at the points where it holds no lock, and \<open>db_step\<close> interleaves any number of threads at
  these points.

  The MySQL client library is a parameter: \<open>mysql_env\<close> answers the n-th call. Handles are serial
  numbers, 0 is the null pointer.
\<close>

record mysql_env =
  mysql_init_ok :: "nat \<Rightarrow> bool"
  mysql_real_connect :: "nat \<Rightarrow> string \<Rightarrow> string \<Rightarrow> string \<Rightarrow> string \<Rightarrow> nat \<Rightarrow> bool"
  mysql_set_character_set :: "nat \<Rightarrow> string \<Rightarrow> int"
  mysql_ping :: "nat \<Rightarrow> int"

text \<open>\<open>db_open\<close> are the handles that \<^verbatim>\<open>mysql_init\<close> returned and \<^verbatim>\<open>mysql_close\<close> has not seen.\<close>

record db_state =
  v_db :: "nat list"
  g_nCurrentLinkNumber :: int
  db_open :: "nat multiset"
  db_next :: nat
  db_tick :: nat

definition db_call :: "(nat \<Rightarrow> 'a) \<Rightarrow> db_state \<Rightarrow> 'a \<times> db_state" where
  "db_call f d = (f (db_tick d), d\<lparr>db_tick := Suc (db_tick d)\<rparr>)"

definition mysql_init :: "mysql_env \<Rightarrow> db_state \<Rightarrow> nat \<times> db_state" where
  "mysql_init e d =
     (let (ok, d) = db_call (mysql_init_ok e) d in
      if ok then (db_next d, d\<lparr>db_next := Suc (db_next d), db_open := add_mset (db_next d) (db_open d)\<rparr>)
      else (0, d))"

definition mysql_close :: "nat \<Rightarrow> db_state \<Rightarrow> db_state" where
  "mysql_close p d = d\<lparr>db_open := db_open d - {#p#}\<rparr>"

abbreviation (input) DB_HOST :: string where "DB_HOST \<equiv> ''localhost''"
abbreviation (input) DB_NAME :: string where "DB_NAME \<equiv> ''cardb''"
abbreviation (input) DB_USER :: string where "DB_USER \<equiv> ''baolan123''"
abbreviation (input) DB_PASSWORD :: string where "DB_PASSWORD \<equiv> ''baolan123''"
abbreviation (input) DB_PORT :: nat where "DB_PORT \<equiv> 3306"
abbreviation (input) DB_LINK_MAX :: int where "DB_LINK_MAX \<equiv> 50"
abbreviation (input) DB_LINK_MIN :: nat where "DB_LINK_MIN \<equiv> 10"

subsection \<open>Operations\<close>

definition db_connect ::
  "mysql_env \<Rightarrow> string \<Rightarrow> string \<Rightarrow> string \<Rightarrow> string \<Rightarrow> nat \<Rightarrow> db_state \<Rightarrow> nat \<times> db_state" where
  "db_connect e host user password db port d =
     (let (pMysql, d) = mysql_init e d in
      if pMysql = 0 then (pMysql, d)
      else
        let (ok, d) = db_call (\<lambda>t. mysql_real_connect e t host user password db port) d in
        if \<not> ok then (0, mysql_close pMysql d)
        else
          let (rc, d) = db_call (\<lambda>t. mysql_set_character_set e t ''gbk'') d in
          if rc = 0 then (0, mysql_close pMysql d) else (pMysql, d))"

definition db_connect_default :: "mysql_env \<Rightarrow> db_state \<Rightarrow> nat \<times> db_state" where
  "db_connect_default e = db_connect e DB_HOST DB_USER DB_PASSWORD DB_NAME DB_PORT"

primrec db_init_loop :: "nat \<Rightarrow> mysql_env \<Rightarrow> db_state \<Rightarrow> db_state" where
  "db_init_loop 0 e d = d"
| "db_init_loop (Suc n) e d =
     (let (pMysql, d) = db_connect_default e d in
      db_init_loop n e
        (if pMysql \<noteq> 0
         then d\<lparr>v_db := v_db d @ [pMysql], g_nCurrentLinkNumber := g_nCurrentLinkNumber d + 1\<rparr> else d))"

definition db_init :: "mysql_env \<Rightarrow> db_state \<Rightarrow> bool \<times> db_state" where
  "db_init e d = (True, db_init_loop DB_LINK_MIN e (d\<lparr>v_db := []\<rparr>))"

definition db_create :: "string \<Rightarrow> string \<Rightarrow> string \<Rightarrow> nat \<Rightarrow> bool" where
  "db_create host use password port = True"

text \<open>Where a thread stands in \<^verbatim>\<open>db_alloc\<close> once it has left the critical section: it returns, it is
  about to test a link taken from the pool, or it is about to give up the place of a dead link.\<close>

datatype db_pc = Return nat | Ping nat | Drop

definition db_alloc_locked :: "mysql_env \<Rightarrow> db_state \<Rightarrow> db_pc \<times> db_state" where
  "db_alloc_locked e d =
     (if v_db d = []
      then if g_nCurrentLinkNumber d < DB_LINK_MAX
        then let (pMysql, d) = db_connect_default e d in
          if pMysql = 0 then (Return 0, d)
          else (Return pMysql, d\<lparr>g_nCurrentLinkNumber := g_nCurrentLinkNumber d + 1\<rparr>)
        else (Return 0, d)
      else (Ping (last (v_db d)), d\<lparr>v_db := butlast (v_db d)\<rparr>))"

definition db_alloc_ping :: "mysql_env \<Rightarrow> nat \<Rightarrow> db_state \<Rightarrow> db_pc \<times> db_state" where
  "db_alloc_ping e pMysql d =
     (let (rc, d) = db_call (mysql_ping e) d in
      if rc \<noteq> 0
      then let (pMysql, d) = db_connect_default e (mysql_close pMysql d) in
        if pMysql = 0 then (Drop, d) else (Return pMysql, d)
      else (Return pMysql, d))"

definition db_alloc_drop :: "db_state \<Rightarrow> db_state" where
  "db_alloc_drop d = d\<lparr>g_nCurrentLinkNumber := g_nCurrentLinkNumber d - 1\<rparr>"

text \<open>\<^verbatim>\<open>db_alloc\<close> of a thread that is not interrupted.\<close>

definition db_alloc :: "mysql_env \<Rightarrow> db_state \<Rightarrow> nat \<times> db_state" where
  "db_alloc e d =
     (case db_alloc_locked e d of
        (Ping p, d) \<Rightarrow>
          (case db_alloc_ping e p d of
             (Return p, d) \<Rightarrow> (p, d)
           | (_, d) \<Rightarrow> (0, db_alloc_drop d))
      | (Return p, d) \<Rightarrow> (p, d)
      | (Drop, d) \<Rightarrow> (0, db_alloc_drop d))"

definition db_free :: "nat \<Rightarrow> db_state \<Rightarrow> db_state" where
  "db_free pMysql d = d\<lparr>v_db := v_db d @ [pMysql]\<rparr>"

subsection \<open>Threads\<close>

text \<open>A configuration: the shared state, the links the threads hold and the threads inside \<^verbatim>\<open>db_alloc\<close>
  outside the critical section.\<close>

fun db_return :: "db_pc \<Rightarrow> nat multiset \<Rightarrow> db_pc multiset \<Rightarrow> nat multiset \<times> db_pc multiset" where
  "db_return (Return p) H P = (if p = 0 then H else add_mset p H, P)"
| "db_return pc H P = (H, add_mset pc P)"

inductive db_step :: "mysql_env \<Rightarrow> db_state \<times> nat multiset \<times> db_pc multiset \<Rightarrow>
    db_state \<times> nat multiset \<times> db_pc multiset \<Rightarrow> bool" for e where
  enter: "db_alloc_locked e d = (pc, d') \<Longrightarrow> db_step e (d, H, P) (d', db_return pc H P)"
| ping: "Ping p \<in># P \<Longrightarrow> db_alloc_ping e p d = (pc, d') \<Longrightarrow>
    db_step e (d, H, P) (d', db_return pc H (P - {#Ping p#}))"
| drop: "Drop \<in># P \<Longrightarrow> db_step e (d, H, P) (db_alloc_drop d, H, P - {#Drop#})"
| release: "p \<in># H \<Longrightarrow> db_step e (d, H, P) (db_free p d, H - {#p#}, P)"

subsection \<open>Invariant\<close>

text \<open>Every open link is in the pool, held by a thread or being tested, exactly once, and the counter
  counts them, a place that is about to be given up included.\<close>

primrec pc_link :: "db_pc \<Rightarrow> nat multiset" where
  "pc_link (Return p) = {#}"
| "pc_link (Ping p) = {#p#}"
| "pc_link Drop = {#}"

definition pc_links :: "db_pc multiset \<Rightarrow> nat multiset" where
  "pc_links P = sum_mset (image_mset pc_link P)"

definition handles_ok :: "db_state \<Rightarrow> bool" where
  "handles_ok d \<longleftrightarrow> 0 < db_next d \<and> (\<forall>p. count (db_open d) p \<le> 1) \<and>
     (\<forall>p. p \<in># db_open d \<longrightarrow> 0 < p \<and> p < db_next d)"

fun db_inv :: "db_state \<times> nat multiset \<times> db_pc multiset \<Rightarrow> bool" where
  "db_inv (d, H, P) \<longleftrightarrow>
     handles_ok d \<and> db_open d = mset (v_db d) + H + pc_links P \<and>
     g_nCurrentLinkNumber d = int (length (v_db d) + size H + size P) \<and>
     g_nCurrentLinkNumber d \<le> DB_LINK_MAX"

lemma pc_links_add [simp]: "pc_links (add_mset pc P) = pc_link pc + pc_links P"
  by (simp add: pc_links_def)

lemma pc_links_remove: "pc \<in># P \<Longrightarrow> pc_links P = pc_link pc + pc_links (P - {#pc#})"
  by (metis insert_DiffM pc_links_add)

lemma size_remove: "x \<in># M \<Longrightarrow> size M = Suc (size (M - {#x#}))"
  by (metis insert_DiffM size_add_mset)

lemma handles_ok_updates [simp]:
  "handles_ok (d\<lparr>g_nCurrentLinkNumber := n\<rparr>) = handles_ok d"
  "handles_ok (d\<lparr>v_db := v\<rparr>) = handles_ok d"
  "handles_ok (d\<lparr>db_tick := t\<rparr>) = handles_ok d"
  by (simp_all add: handles_ok_def)

lemma pc_links_empty [simp]: "pc_links {#} = {#}"
  by (simp add: pc_links_def)

lemma handles_fresh: "handles_ok d \<Longrightarrow> count (db_open d) (db_next d) = 0"
  by (metis handles_ok_def less_irrefl not_in_iff)

lemma handles_close: "handles_ok d \<Longrightarrow> handles_ok (mysql_close p d)"
  by (auto simp: handles_ok_def mysql_close_def dest: in_diffD)

lemma db_connect_ok:
  assumes "db_connect e h u pw n port d = (p, d')" and "handles_ok d"
  shows "handles_ok d'" and "v_db d' = v_db d" and "g_nCurrentLinkNumber d' = g_nCurrentLinkNumber d"
    and "db_open d' = (if p = 0 then db_open d else add_mset p (db_open d))"
    and "p \<noteq> 0 \<Longrightarrow> p \<notin># db_open d"
  using assms handles_fresh [OF assms(2)]
  by (auto simp: db_connect_def mysql_init_def mysql_close_def db_call_def handles_ok_def
      split: if_splits)

lemmas db_connect_default_ok =
  db_connect_ok [where h = DB_HOST and u = DB_USER and pw = DB_PASSWORD and n = DB_NAME and port = DB_PORT,
    folded db_connect_default_def]

lemma db_enter_inv:
  assumes "db_alloc_locked e d = (pc, d')" and "db_inv (d, H, P)"
  shows "db_inv (d', db_return pc H P)"
proof (cases "v_db d = []")
  case True
  obtain p d1 where c: "db_connect_default e d = (p, d1)" by force
  have "handles_ok d" using assms(2) by simp
  note ok = db_connect_default_ok [OF c this]
  show ?thesis
    using assms True c ok by (auto simp: db_alloc_locked_def split: if_splits)
next
  case False
  then obtain v p where v: "v_db d = v @ [p]" by (metis append_butlast_last_id)
  show ?thesis using assms by (auto simp: v db_alloc_locked_def)
qed

lemma db_ping_inv:
  assumes "db_alloc_ping e p d = (pc, d')" and "Ping p \<in># P" and "db_inv (d, H, P)"
  shows "db_inv (d', db_return pc H (P - {#Ping p#}))"
proof -
  define Q where "Q = P - {#Ping p#}"
  have P: "P = add_mset (Ping p) Q" using assms(2) by (simp add: Q_def)
  let ?d = "mysql_close p (d\<lparr>db_tick := Suc (db_tick d)\<rparr>)"
  obtain q d1 where c: "db_connect_default e ?d = (q, d1)" by force
  have h: "handles_ok ?d"
    by (rule handles_close) (use assms(3) in simp)
  have p: "0 < p" using assms(3) by (auto simp: handles_ok_def P)
  note ok = db_connect_default_ok [OF c h]
  have closed: "v_db ?d = v_db d" "g_nCurrentLinkNumber ?d = g_nCurrentLinkNumber d"
    "db_open ?d = mset (v_db d) + H + pc_links Q"
    using assms(3) by (simp_all add: mysql_close_def P)
  show ?thesis
  proof (cases "mysql_ping e (db_tick d) = 0")
    case True
    then show ?thesis using assms(1,3) p by (auto simp: db_alloc_ping_def db_call_def P)
  next
    case False
    then have "(pc, d') = (if q = 0 then (Drop, d1) else (Return q, d1))"
      using assms(1) c by (simp add: db_alloc_ping_def db_call_def)
    then show ?thesis
      using assms(3) ok closed by (auto simp: P split: if_splits)
  qed
qed

lemma db_step_inv:
  assumes "db_step e c c'" and "db_inv c"
  shows "db_inv c'"
  using assms
proof (cases rule: db_step.cases)
  case (enter d pc d' H P)
  then show ?thesis using db_enter_inv assms(2) by simp
next
  case (ping p P d pc d' H)
  then show ?thesis using db_ping_inv assms(2) by simp
next
  case (drop P d H)
  then show ?thesis using assms(2) pc_links_remove [of Drop P] size_remove [of Drop P]
    by (auto simp: db_alloc_drop_def)
next
  case (release p H d P)
  then show ?thesis using assms(2) size_remove [of p H]
    by (auto simp: db_free_def)
qed

lemma db_steps_inv: "(db_step e)\<^sup>*\<^sup>* c c' \<Longrightarrow> db_inv c \<Longrightarrow> db_inv c'"
  by (induction rule: rtranclp_induct) (auto intro: db_step_inv)

text \<open>A run of \<^verbatim>\<open>db_alloc\<close> without interruption is a run of its steps.\<close>

lemma db_alloc_steps:
  assumes "db_alloc e d = (p, d')"
  shows "(db_step e)\<^sup>*\<^sup>* (d, H, P) (d', (if p = 0 then H else add_mset p H), P)"
proof -
  obtain pc d1 where l: "db_alloc_locked e d = (pc, d1)" by force
  then have s1: "db_step e (d, H, P) (d1, db_return pc H P)" by (rule db_step.enter)
  show ?thesis
  proof (cases pc)
    case (Return q)
    then show ?thesis using assms l s1 by (auto simp: db_alloc_def)
  next
    case (Ping q)
    obtain pc2 d2 where a: "db_alloc_ping e q d1 = (pc2, d2)" by force
    have s2: "db_step e (d1, H, add_mset (Ping q) P) (d2, db_return pc2 H P)"
      using db_step.ping [of q "add_mset (Ping q) P" e d1 pc2 d2 H] a by simp
    show ?thesis
    proof (cases pc2)
      case (Return r)
      then show ?thesis
        using assms l a s1 s2 Ping by (auto simp: db_alloc_def intro: rtranclp_trans)
    next
      case (Ping r)
      then show ?thesis
        using a by (auto simp: db_alloc_ping_def db_call_def split: if_splits prod.splits)
    next
      case Drop
      then have "db_step e (d2, H, add_mset Drop P) (db_alloc_drop d2, H, P)"
        using db_step.drop [of "add_mset Drop P" e d2 H] by simp
      then show ?thesis
        using assms l a s1 s2 Ping Drop by (auto simp: db_alloc_def intro: converse_rtranclp_into_rtranclp)
    qed
  next
    case Drop
    then show ?thesis using l by (auto simp: db_alloc_locked_def split: if_splits prod.splits)
  qed
qed

subsection \<open>Start\<close>

lemma db_init_loop_inv:
  "db_inv (d, {#}, {#}) \<Longrightarrow> length (v_db d) + n \<le> 50 \<Longrightarrow>
   db_inv (db_init_loop n e d, {#}, {#}) \<and> length (v_db (db_init_loop n e d)) \<le> length (v_db d) + n"
proof (induction n arbitrary: d)
  case 0
  then show ?case by simp
next
  case (Suc n)
  obtain p d1 where c: "db_connect_default e d = (p, d1)" by force
  have "handles_ok d" using Suc.prems(1) by simp
  note ok = db_connect_default_ok [OF c this]
  let ?d = "if p \<noteq> 0 then d1\<lparr>v_db := v_db d1 @ [p], g_nCurrentLinkNumber := g_nCurrentLinkNumber d1 + 1\<rparr> else d1"
  have "db_inv (?d, {#}, {#})" and "length (v_db ?d) \<le> Suc (length (v_db d))"
    using Suc.prems ok by auto
  with Suc.prems(2) Suc.IH [of ?d] c show ?case by auto
qed

definition db_start :: "db_state" where
  "db_start = \<lparr>v_db = [], g_nCurrentLinkNumber = 0, db_open = {#}, db_next = 1, db_tick = 0\<rparr>"

lemma db_init_inv: "db_inv (snd (db_init e db_start), {#}, {#})"
proof -
  have "db_inv (db_start, {#}, {#})" by (simp add: db_start_def handles_ok_def pc_links_def)
  from db_init_loop_inv [OF this, of DB_LINK_MIN e] show ?thesis
    by (simp add: db_init_def db_start_def del: db_inv.simps)
qed

subsection \<open>A MySQL server that works\<close>

text \<open>The documented results of the client library when every call succeeds:
  \<^verbatim>\<open>mysql_set_character_set\<close> and \<^verbatim>\<open>mysql_ping\<close> return zero.\<close>

definition mysql_works :: "mysql_env \<Rightarrow> bool" where
  "mysql_works e \<longleftrightarrow> (\<forall>t. mysql_init_ok e t) \<and>
     (\<forall>t h u pw n port. mysql_real_connect e t h u pw n port) \<and>
     (\<forall>t cs. mysql_set_character_set e t cs = 0) \<and> (\<forall>t. mysql_ping e t = 0)"

lemma db_connect_works:
  "mysql_works e \<Longrightarrow> 0 < db_next d \<Longrightarrow>
     db_connect e h u pw n port d = (0, d\<lparr>db_next := Suc (db_next d), db_tick := db_tick d + 3\<rparr>)"
  by (simp add: mysql_works_def db_connect_def mysql_init_def mysql_close_def db_call_def Let_def)

lemma db_init_loop_works:
  "mysql_works e \<Longrightarrow> 0 < db_next d \<Longrightarrow>
     db_init_loop n e d = d\<lparr>db_next := db_next d + n, db_tick := db_tick d + 3 * n\<rparr>"
  by (induction n arbitrary: d) (simp_all add: db_connect_default_def db_connect_works)

lemma db_alloc_works:
  assumes "mysql_works e" and "0 < db_next d" and "v_db d = []"
  shows "fst (db_alloc e d) = 0"
  using assms
  by (simp add: db_alloc_def db_alloc_locked_def db_connect_default_def db_connect_works)

end
