(* ===== verification/Mp_Bytes.thy ===== *)
theory Mp_Bytes
  imports Prelude
begin

text \<open>
  Byte order in msgpack (\<^verbatim>\<open>msgpack-c/include/msgpack/sysdep.h\<close> and the \<^verbatim>\<open>load\<close> functions of
  \<^verbatim>\<open>v1/unpack.hpp\<close>) on the little-endian target of the server: a number is stored by reversing its
  bytes and copying its memory.
\<close>

definition byteswap :: "nat \<Rightarrow> 'a::len word \<Rightarrow> 'a word" where
  "byteswap n x = of_nat (le_nat (rev (nat_le n (unat x))))"

definition msgpack_be16 :: "16 word \<Rightarrow> 16 word" where "msgpack_be16 x = byteswap 2 x"
definition msgpack_be32 :: "32 word \<Rightarrow> 32 word" where "msgpack_be32 x = byteswap 4 x"
definition msgpack_be64 :: "64 word \<Rightarrow> 64 word" where "msgpack_be64 x = byteswap 8 x"

definition store16 :: "16 word \<Rightarrow> byte list" where "store16 num = nat_le 2 (unat (msgpack_be16 num))"
definition store32 :: "32 word \<Rightarrow> byte list" where "store32 num = nat_le 4 (unat (msgpack_be32 num))"
definition store64 :: "64 word \<Rightarrow> byte list" where "store64 num = nat_le 8 (unat (msgpack_be64 num))"

text \<open>Loads from memory; outside of the block the result is undefined.\<close>

definition load_fix :: "byte list \<Rightarrow> nat \<Rightarrow> 32 word option" where
  "load_fix m n = do { b \<leftarrow> mem_at m n; Some (ucast b AND 0x0f) }"

definition load8 :: "byte list \<Rightarrow> nat \<Rightarrow> 8 word option" where
  "load8 m n = mem_at m n"

definition load16 :: "byte list \<Rightarrow> nat \<Rightarrow> 16 word option" where
  "load16 m n = do { bs \<leftarrow> mem_range m n 2; Some (msgpack_be16 (of_nat (le_nat bs))) }"

definition load32 :: "byte list \<Rightarrow> nat \<Rightarrow> 32 word option" where
  "load32 m n = do { bs \<leftarrow> mem_range m n 4; Some (msgpack_be32 (of_nat (le_nat bs))) }"

definition load64 :: "byte list \<Rightarrow> nat \<Rightarrow> 64 word option" where
  "load64 m n = do { bs \<leftarrow> mem_range m n 8; Some (msgpack_be64 (of_nat (le_nat bs))) }"

lemma byteswap_bytes:
  fixes x :: "'a::len word"
  assumes "LENGTH('a) = 8 * n"
  shows "nat_le n (unat (byteswap n x)) = rev (nat_le n (unat x))"
proof -
  have "le_nat (rev (nat_le n (unat x))) < 256 ^ n"
    using le_nat_bound [of "rev (nat_le n (unat x))"] by simp
  then have "unat (byteswap n x) = le_nat (rev (nat_le n (unat x)))"
    using assms by (simp add: byteswap_def unat_of_nat power_mult)
  then show ?thesis using nat_le_le_nat [of "rev (nat_le n (unat x))"] by simp
qed

lemma byteswap_load:
  fixes x :: "'a::len word"
  assumes "LENGTH('a) = 8 * n"
  shows "byteswap n (of_nat (le_nat (rev (nat_le n (unat x)))) :: 'a word) = x"
proof -
  have "nat_le n (unat (byteswap n x)) = rev (nat_le n (unat x))" by (rule byteswap_bytes [OF assms])
  moreover have "le_nat (nat_le n (unat x)) = unat x"
    by (rule le_nat_nat_le) (use assms unsigned_less [where w = x and 'a = nat] in \<open>simp add: power_mult\<close>)
  ultimately have "byteswap n (byteswap n x) = x"
    by (subst byteswap_def) simp
  then show ?thesis by (simp flip: byteswap_def)
qed

lemma store_bytes:
  "store16 d = rev (nat_le 2 (unat d))" "store32 e = rev (nat_le 4 (unat e))" "store64 f = rev (nat_le 8 (unat f))"
  by (simp_all add: store16_def store32_def store64_def msgpack_be16_def msgpack_be32_def msgpack_be64_def
      byteswap_bytes)

lemma length_store [simp]: "length (store16 d) = 2" "length (store32 e) = 4" "length (store64 f) = 8"
  by (simp_all add: store_bytes)

text \<open>What is stored is what is loaded.\<close>

lemma load_store:
  "mem_range m n 2 = Some (store16 d) \<Longrightarrow> load16 m n = Some d"
  "mem_range m n 4 = Some (store32 e) \<Longrightarrow> load32 m n = Some e"
  "mem_range m n 8 = Some (store64 f) \<Longrightarrow> load64 m n = Some f"
  using byteswap_load [of 2 d] byteswap_load [of 4 e] byteswap_load [of 8 f]
  by (simp_all add: load16_def load32_def load64_def store_bytes msgpack_be16_def msgpack_be32_def msgpack_be64_def)

end
