(* ===== verification/Mp_Pack.thy ===== *)
theory Mp_Pack
  imports Mp_Bytes
begin

text \<open>
  The packer of msgpack (\<^verbatim>\<open>msgpack-c/include/msgpack/v1/pack.hpp\<close>). A packer writes to a stream
  through \<^verbatim>\<open>append_buffer\<close>; the stream is a parameter \<open>wr\<close>, and \<^const>\<open>None\<close> is an exception it throws.
  \<^verbatim>\<open>short\<close>, \<^verbatim>\<open>int\<close>, \<^verbatim>\<open>long\<close> and \<^verbatim>\<open>long long\<close> have 2, 4, 4 and 8 bytes, as on the platform of the server.
\<close>

type_synonym 's stream_write = "byte list \<Rightarrow> 's \<Rightarrow> 's option"

subsection \<open>Low bytes\<close>

definition take8_8 :: "8 word \<Rightarrow> byte" where
  "take8_8 d = hd (nat_le 1 (unat d))"

definition take8_16 :: "16 word \<Rightarrow> byte" where
  "take8_16 d = hd (nat_le 2 (unat d))"

definition take8_32 :: "32 word \<Rightarrow> byte" where
  "take8_32 d = hd (nat_le 4 (unat d))"

definition take8_64 :: "64 word \<Rightarrow> byte" where
  "take8_64 d = hd (nat_le 8 (unat d))"

subsection \<open>Integers in the shortest format\<close>

definition pack_imp_uint8 :: "'s stream_write \<Rightarrow> 8 word \<Rightarrow> 's \<Rightarrow> 's option" where
  "pack_imp_uint8 wr d =
     (if unat d < 2 ^ 7 then wr [take8_8 d] else wr [0xcc, take8_8 d])"

definition pack_imp_uint16 :: "'s stream_write \<Rightarrow> 16 word \<Rightarrow> 's \<Rightarrow> 's option" where
  "pack_imp_uint16 wr d =
     (if unat d < 2 ^ 7 then wr [take8_16 d]
      else if unat d < 2 ^ 8 then wr [0xcc, take8_16 d]
      else wr (0xcd # store16 d))"

definition pack_imp_uint32 :: "'s stream_write \<Rightarrow> 32 word \<Rightarrow> 's \<Rightarrow> 's option" where
  "pack_imp_uint32 wr d =
     (if unat d < 2 ^ 8
      then if unat d < 2 ^ 7 then wr [take8_32 d] else wr [0xcc, take8_32 d]
      else if unat d < 2 ^ 16 then wr (0xcd # store16 (ucast d))
      else wr (0xce # store32 d))"

definition pack_imp_uint64 :: "'s stream_write \<Rightarrow> 64 word \<Rightarrow> 's \<Rightarrow> 's option" where
  "pack_imp_uint64 wr d =
     (if unat d < 2 ^ 8
      then if unat d < 2 ^ 7 then wr [take8_64 d] else wr [0xcc, take8_64 d]
      else if unat d < 2 ^ 16 then wr (0xcd # store16 (ucast d))
      else if unat d < 2 ^ 32 then wr (0xce # store32 (ucast d))
      else wr (0xcf # store64 d))"

definition pack_imp_int8 :: "'s stream_write \<Rightarrow> 8 word \<Rightarrow> 's \<Rightarrow> 's option" where
  "pack_imp_int8 wr d =
     (if sint d < - (2 ^ 5) then wr [0xd0, take8_8 d] else wr [take8_8 d])"

definition pack_imp_int16 :: "'s stream_write \<Rightarrow> 16 word \<Rightarrow> 's \<Rightarrow> 's option" where
  "pack_imp_int16 wr d =
     (if sint d < - (2 ^ 5)
      then if sint d < - (2 ^ 7) then wr (0xd1 # store16 d) else wr [0xd0, take8_16 d]
      else if sint d < 2 ^ 7 then wr [take8_16 d]
      else if sint d < 2 ^ 8 then wr [0xcc, take8_16 d]
      else wr (0xcd # store16 d))"

definition pack_imp_int32 :: "'s stream_write \<Rightarrow> 32 word \<Rightarrow> 's \<Rightarrow> 's option" where
  "pack_imp_int32 wr d =
     (if sint d < - (2 ^ 5)
      then if sint d < - (2 ^ 15) then wr (0xd2 # store32 d)
        else if sint d < - (2 ^ 7) then wr (0xd1 # store16 (ucast d))
        else wr [0xd0, take8_32 d]
      else if sint d < 2 ^ 7 then wr [take8_32 d]
      else if sint d < 2 ^ 8 then wr [0xcc, take8_32 d]
      else if sint d < 2 ^ 16 then wr (0xcd # store16 (ucast d))
      else wr (0xce # store32 d))"

definition pack_imp_int64 :: "'s stream_write \<Rightarrow> 64 word \<Rightarrow> 's \<Rightarrow> 's option" where
  "pack_imp_int64 wr d =
     (if sint d < - (2 ^ 5)
      then if sint d < - (2 ^ 15)
        then if sint d < - (2 ^ 31) then wr (0xd3 # store64 d) else wr (0xd2 # store32 (ucast d))
        else if sint d < - (2 ^ 7) then wr (0xd1 # store16 (ucast d))
        else wr [0xd0, take8_64 d]
      else if sint d < 2 ^ 7 then wr [take8_64 d]
      else if sint d < 2 ^ 16
      then if sint d < 2 ^ 8 then wr [0xcc, take8_64 d] else wr (0xcd # store16 (ucast d))
      else if sint d < 2 ^ 32 then wr (0xce # store32 (ucast d))
      else wr (0xcf # store64 d))"

definition pack_uint8 :: "'s stream_write \<Rightarrow> 8 word \<Rightarrow> 's \<Rightarrow> 's option" where
  "pack_uint8 wr d = pack_imp_uint8 wr d"

definition pack_uint16 :: "'s stream_write \<Rightarrow> 16 word \<Rightarrow> 's \<Rightarrow> 's option" where
  "pack_uint16 wr d = pack_imp_uint16 wr d"

definition pack_uint32 :: "'s stream_write \<Rightarrow> 32 word \<Rightarrow> 's \<Rightarrow> 's option" where
  "pack_uint32 wr d = pack_imp_uint32 wr d"

definition pack_uint64 :: "'s stream_write \<Rightarrow> 64 word \<Rightarrow> 's \<Rightarrow> 's option" where
  "pack_uint64 wr d = pack_imp_uint64 wr d"

definition pack_int8 :: "'s stream_write \<Rightarrow> 8 word \<Rightarrow> 's \<Rightarrow> 's option" where
  "pack_int8 wr d = pack_imp_int8 wr d"

definition pack_int16 :: "'s stream_write \<Rightarrow> 16 word \<Rightarrow> 's \<Rightarrow> 's option" where
  "pack_int16 wr d = pack_imp_int16 wr d"

definition pack_int32 :: "'s stream_write \<Rightarrow> 32 word \<Rightarrow> 's \<Rightarrow> 's option" where
  "pack_int32 wr d = pack_imp_int32 wr d"

definition pack_int64 :: "'s stream_write \<Rightarrow> 64 word \<Rightarrow> 's \<Rightarrow> 's option" where
  "pack_int64 wr d = pack_imp_int64 wr d"

subsection \<open>Integers in a fixed format\<close>

definition pack_fix_uint8 :: "'s stream_write \<Rightarrow> 8 word \<Rightarrow> 's \<Rightarrow> 's option" where
  "pack_fix_uint8 wr d = wr [0xcc, take8_8 d]"

definition pack_fix_uint16 :: "'s stream_write \<Rightarrow> 16 word \<Rightarrow> 's \<Rightarrow> 's option" where
  "pack_fix_uint16 wr d = wr (0xcd # store16 d)"

definition pack_fix_uint32 :: "'s stream_write \<Rightarrow> 32 word \<Rightarrow> 's \<Rightarrow> 's option" where
  "pack_fix_uint32 wr d = wr (0xce # store32 d)"

definition pack_fix_uint64 :: "'s stream_write \<Rightarrow> 64 word \<Rightarrow> 's \<Rightarrow> 's option" where
  "pack_fix_uint64 wr d = wr (0xcf # store64 d)"

definition pack_fix_int8 :: "'s stream_write \<Rightarrow> 8 word \<Rightarrow> 's \<Rightarrow> 's option" where
  "pack_fix_int8 wr d = wr [0xd0, take8_8 d]"

definition pack_fix_int16 :: "'s stream_write \<Rightarrow> 16 word \<Rightarrow> 's \<Rightarrow> 's option" where
  "pack_fix_int16 wr d = wr (0xd1 # store16 d)"

definition pack_fix_int32 :: "'s stream_write \<Rightarrow> 32 word \<Rightarrow> 's \<Rightarrow> 's option" where
  "pack_fix_int32 wr d = wr (0xd2 # store32 d)"

definition pack_fix_int64 :: "'s stream_write \<Rightarrow> 64 word \<Rightarrow> 's \<Rightarrow> 's option" where
  "pack_fix_int64 wr d = wr (0xd3 # store64 d)"

subsection \<open>The integer types of the language\<close>

definition pack_char :: "'s stream_write \<Rightarrow> 8 word \<Rightarrow> 's \<Rightarrow> 's option" where
  "pack_char wr d = pack_imp_int8 wr d"

definition pack_signed_char :: "'s stream_write \<Rightarrow> 8 word \<Rightarrow> 's \<Rightarrow> 's option" where
  "pack_signed_char wr d = pack_imp_int8 wr d"

definition pack_short :: "'s stream_write \<Rightarrow> 16 word \<Rightarrow> 's \<Rightarrow> 's option" where
  "pack_short wr d = pack_imp_int16 wr d"

definition pack_int :: "'s stream_write \<Rightarrow> 32 word \<Rightarrow> 's \<Rightarrow> 's option" where
  "pack_int wr d = pack_imp_int32 wr d"

definition pack_long :: "'s stream_write \<Rightarrow> 32 word \<Rightarrow> 's \<Rightarrow> 's option" where
  "pack_long wr d = pack_imp_int32 wr d"

definition pack_long_long :: "'s stream_write \<Rightarrow> 64 word \<Rightarrow> 's \<Rightarrow> 's option" where
  "pack_long_long wr d = pack_imp_int64 wr d"

definition pack_unsigned_char :: "'s stream_write \<Rightarrow> 8 word \<Rightarrow> 's \<Rightarrow> 's option" where
  "pack_unsigned_char wr d = pack_imp_uint8 wr d"

definition pack_unsigned_short :: "'s stream_write \<Rightarrow> 16 word \<Rightarrow> 's \<Rightarrow> 's option" where
  "pack_unsigned_short wr d = pack_imp_uint16 wr d"

definition pack_unsigned_int :: "'s stream_write \<Rightarrow> 32 word \<Rightarrow> 's \<Rightarrow> 's option" where
  "pack_unsigned_int wr d = pack_imp_uint32 wr d"

definition pack_unsigned_long :: "'s stream_write \<Rightarrow> 32 word \<Rightarrow> 's \<Rightarrow> 's option" where
  "pack_unsigned_long wr d = pack_imp_uint32 wr d"

definition pack_unsigned_long_long :: "'s stream_write \<Rightarrow> 64 word \<Rightarrow> 's \<Rightarrow> 's option" where
  "pack_unsigned_long_long wr d = pack_imp_uint64 wr d"

subsection \<open>Other scalars\<close>

text \<open>Floating-point numbers are given by their representation, which the code reads through a union.\<close>

definition pack_float :: "'s stream_write \<Rightarrow> 32 word \<Rightarrow> 's \<Rightarrow> 's option" where
  "pack_float wr d = wr (0xca # store32 d)"

definition pack_double :: "'s stream_write \<Rightarrow> 64 word \<Rightarrow> 's \<Rightarrow> 's option" where
  "pack_double wr d = wr (0xcb # store64 d)"

definition pack_nil :: "'s stream_write \<Rightarrow> 's \<Rightarrow> 's option" where
  "pack_nil wr = wr [0xc0]"

definition pack_true :: "'s stream_write \<Rightarrow> 's \<Rightarrow> 's option" where
  "pack_true wr = wr [0xc3]"

definition pack_false :: "'s stream_write \<Rightarrow> 's \<Rightarrow> 's option" where
  "pack_false wr = wr [0xc2]"

subsection \<open>Headers of arrays, maps and byte strings\<close>

definition pack_array :: "'s stream_write \<Rightarrow> 32 word \<Rightarrow> 's \<Rightarrow> 's option" where
  "pack_array wr n =
     (if n < 16 then wr [0x90 OR ucast n]
      else if n < 65536 then wr (0xdc # store16 (ucast n))
      else wr (0xdd # store32 n))"

definition pack_map :: "'s stream_write \<Rightarrow> 32 word \<Rightarrow> 's \<Rightarrow> 's option" where
  "pack_map wr n =
     (if n < 16 then wr [take8_8 (0x80 OR ucast n)]
      else if n < 65536 then wr (0xde # store16 (ucast n))
      else wr (0xdf # store32 n))"

definition pack_str :: "'s stream_write \<Rightarrow> 32 word \<Rightarrow> 's \<Rightarrow> 's option" where
  "pack_str wr l =
     (if l < 32 then wr [take8_8 (0xa0 OR ucast l)]
      else if l < 256 then wr [0xd9, ucast l]
      else if l < 65536 then wr (0xda # store16 (ucast l))
      else wr (0xdb # store32 l))"

definition pack_str_body :: "'s stream_write \<Rightarrow> byte list \<Rightarrow> 's \<Rightarrow> 's option" where
  "pack_str_body wr b = wr b"

definition pack_v4raw :: "'s stream_write \<Rightarrow> 32 word \<Rightarrow> 's \<Rightarrow> 's option" where
  "pack_v4raw wr l =
     (if l < 32 then wr [take8_8 (0xa0 OR ucast l)]
      else if l < 65536 then wr (0xda # store16 (ucast l))
      else wr (0xdb # store32 l))"

definition pack_v4raw_body :: "'s stream_write \<Rightarrow> byte list \<Rightarrow> 's \<Rightarrow> 's option" where
  "pack_v4raw_body wr b = wr b"

definition pack_bin :: "'s stream_write \<Rightarrow> 32 word \<Rightarrow> 's \<Rightarrow> 's option" where
  "pack_bin wr l =
     (if l < 256 then wr [0xc4, ucast l]
      else if l < 65536 then wr (0xc5 # store16 (ucast l))
      else wr (0xc6 # store32 l))"

definition pack_bin_body :: "'s stream_write \<Rightarrow> byte list \<Rightarrow> 's \<Rightarrow> 's option" where
  "pack_bin_body wr b = wr b"

definition pack_ext :: "'s stream_write \<Rightarrow> 64 word \<Rightarrow> byte \<Rightarrow> 's \<Rightarrow> 's option" where
  "pack_ext wr l type =
     (if l = 1 then wr [0xd4, type]
      else if l = 2 then wr [0xd5, type]
      else if l = 4 then wr [0xd6, type]
      else if l = 8 then wr [0xd7, type]
      else if l = 16 then wr [0xd8, type]
      else if l < 256 then wr [0xc7, ucast l, type]
      else if l < 65536 then wr (0xc8 # store16 (ucast l) @ [type])
      else wr (0xc9 # store32 (ucast l) @ [type]))"

definition pack_ext_body :: "'s stream_write \<Rightarrow> byte list \<Rightarrow> 's \<Rightarrow> 's option" where
  "pack_ext_body wr b = wr b"

end
