(* ===== verification/Mp_Parse.thy ===== *)
theory Mp_Parse
  imports Mp_Bytes
begin

text \<open>
  The streaming parser of msgpack (\<^verbatim>\<open>msgpack-c/include/msgpack/v2/parse.hpp\<close>, class \<^verbatim>\<open>context\<close>, and
  \<^verbatim>\<open>parse_imp\<close>): a state machine that reads a block of memory, keeps a stack of open containers and
  calls a visitor. The visitor is a record of functions on its own state; a callback answers true,
  false, or throws. \<^const>\<open>None\<close> is a read outside of the memory, or a loop that does not end.
\<close>

subsection \<open>Results and visitors\<close>

datatype mp_exn =
    str_size_overflow | bin_size_overflow | ext_size_overflow | array_size_overflow
  | map_size_overflow | depth_size_overflow | parse_error_exn | insufficient_bytes_exn | bad_alloc

datatype vres = VTrue | VFalse | VThrow mp_exn

text \<open>\<open>THROWN\<close> is not a value of the enumeration: the function ends with the exception.\<close>

datatype parse_return =
    PARSE_SUCCESS | PARSE_EXTRA_BYTES | PARSE_CONTINUE | PARSE_PARSE_ERROR | PARSE_STOP_VISITOR
  | THROWN mp_exn

record 'v visitor =
  visit_nil :: "'v \<Rightarrow> vres \<times> 'v"
  visit_boolean :: "bool \<Rightarrow> 'v \<Rightarrow> vres \<times> 'v"
  visit_positive_integer :: "64 word \<Rightarrow> 'v \<Rightarrow> vres \<times> 'v"
  visit_negative_integer :: "64 word \<Rightarrow> 'v \<Rightarrow> vres \<times> 'v"
  visit_float32 :: "32 word \<Rightarrow> 'v \<Rightarrow> vres \<times> 'v"
  visit_float64 :: "64 word \<Rightarrow> 'v \<Rightarrow> vres \<times> 'v"
  visit_str :: "byte list \<Rightarrow> 'v \<Rightarrow> vres \<times> 'v"
  visit_bin :: "byte list \<Rightarrow> 'v \<Rightarrow> vres \<times> 'v"
  visit_ext :: "byte list \<Rightarrow> 'v \<Rightarrow> vres \<times> 'v"
  start_array :: "32 word \<Rightarrow> 'v \<Rightarrow> vres \<times> 'v"
  start_array_item :: "'v \<Rightarrow> vres \<times> 'v"
  end_array_item :: "'v \<Rightarrow> vres \<times> 'v"
  end_array :: "'v \<Rightarrow> vres \<times> 'v"
  start_map :: "32 word \<Rightarrow> 'v \<Rightarrow> vres \<times> 'v"
  start_map_key :: "'v \<Rightarrow> vres \<times> 'v"
  end_map_key :: "'v \<Rightarrow> vres \<times> 'v"
  start_map_value :: "'v \<Rightarrow> vres \<times> 'v"
  end_map_value :: "'v \<Rightarrow> vres \<times> 'v"
  end_map :: "'v \<Rightarrow> vres \<times> 'v"
  parse_error :: "nat \<Rightarrow> nat \<Rightarrow> 'v \<Rightarrow> mp_exn option \<times> 'v"
  insufficient_bytes :: "nat \<Rightarrow> nat \<Rightarrow> 'v \<Rightarrow> mp_exn option \<times> 'v"
  vis_init :: "'v \<Rightarrow> 'v"

text \<open>\<^verbatim>\<open>null_visitor\<close>: every callback answers true and does nothing; the error reports return.\<close>

definition null_visitor :: "'v visitor" where
  "null_visitor =
     \<lparr>visit_nil = Pair VTrue, visit_boolean = \<lambda>_. Pair VTrue, visit_positive_integer = \<lambda>_. Pair VTrue,
      visit_negative_integer = \<lambda>_. Pair VTrue, visit_float32 = \<lambda>_. Pair VTrue, visit_float64 = \<lambda>_. Pair VTrue,
      visit_str = \<lambda>_. Pair VTrue, visit_bin = \<lambda>_. Pair VTrue, visit_ext = \<lambda>_. Pair VTrue,
      start_array = \<lambda>_. Pair VTrue, start_array_item = Pair VTrue, end_array_item = Pair VTrue,
      end_array = Pair VTrue, start_map = \<lambda>_. Pair VTrue, start_map_key = Pair VTrue, end_map_key = Pair VTrue,
      start_map_value = Pair VTrue, end_map_value = Pair VTrue, end_map = Pair VTrue,
      parse_error = \<lambda>_ _. Pair None, insufficient_bytes = \<lambda>_ _. Pair None, vis_init = \<lambda>v. v\<rparr>"

datatype container_type = MSGPACK_CT_ARRAY_ITEM | MSGPACK_CT_MAP_KEY | MSGPACK_CT_MAP_VALUE

text \<open>\<^verbatim>\<open>msgpack_unpack_state\<close>\<close>

abbreviation (input) MSGPACK_CS_HEADER :: nat where "MSGPACK_CS_HEADER \<equiv> 0x00"
abbreviation (input) MSGPACK_CS_BIN_8 :: nat where "MSGPACK_CS_BIN_8 \<equiv> 0x04"
abbreviation (input) MSGPACK_CS_BIN_16 :: nat where "MSGPACK_CS_BIN_16 \<equiv> 0x05"
abbreviation (input) MSGPACK_CS_BIN_32 :: nat where "MSGPACK_CS_BIN_32 \<equiv> 0x06"
abbreviation (input) MSGPACK_CS_EXT_8 :: nat where "MSGPACK_CS_EXT_8 \<equiv> 0x07"
abbreviation (input) MSGPACK_CS_EXT_16 :: nat where "MSGPACK_CS_EXT_16 \<equiv> 0x08"
abbreviation (input) MSGPACK_CS_EXT_32 :: nat where "MSGPACK_CS_EXT_32 \<equiv> 0x09"
abbreviation (input) MSGPACK_CS_FLOAT :: nat where "MSGPACK_CS_FLOAT \<equiv> 0x0a"
abbreviation (input) MSGPACK_CS_DOUBLE :: nat where "MSGPACK_CS_DOUBLE \<equiv> 0x0b"
abbreviation (input) MSGPACK_CS_UINT_8 :: nat where "MSGPACK_CS_UINT_8 \<equiv> 0x0c"
abbreviation (input) MSGPACK_CS_UINT_16 :: nat where "MSGPACK_CS_UINT_16 \<equiv> 0x0d"
abbreviation (input) MSGPACK_CS_UINT_32 :: nat where "MSGPACK_CS_UINT_32 \<equiv> 0x0e"
abbreviation (input) MSGPACK_CS_UINT_64 :: nat where "MSGPACK_CS_UINT_64 \<equiv> 0x0f"
abbreviation (input) MSGPACK_CS_INT_8 :: nat where "MSGPACK_CS_INT_8 \<equiv> 0x10"
abbreviation (input) MSGPACK_CS_INT_16 :: nat where "MSGPACK_CS_INT_16 \<equiv> 0x11"
abbreviation (input) MSGPACK_CS_INT_32 :: nat where "MSGPACK_CS_INT_32 \<equiv> 0x12"
abbreviation (input) MSGPACK_CS_INT_64 :: nat where "MSGPACK_CS_INT_64 \<equiv> 0x13"
abbreviation (input) MSGPACK_CS_FIXEXT_1 :: nat where "MSGPACK_CS_FIXEXT_1 \<equiv> 0x14"
abbreviation (input) MSGPACK_CS_FIXEXT_2 :: nat where "MSGPACK_CS_FIXEXT_2 \<equiv> 0x15"
abbreviation (input) MSGPACK_CS_FIXEXT_4 :: nat where "MSGPACK_CS_FIXEXT_4 \<equiv> 0x16"
abbreviation (input) MSGPACK_CS_FIXEXT_8 :: nat where "MSGPACK_CS_FIXEXT_8 \<equiv> 0x17"
abbreviation (input) MSGPACK_CS_FIXEXT_16 :: nat where "MSGPACK_CS_FIXEXT_16 \<equiv> 0x18"
abbreviation (input) MSGPACK_CS_STR_8 :: nat where "MSGPACK_CS_STR_8 \<equiv> 0x19"
abbreviation (input) MSGPACK_CS_STR_16 :: nat where "MSGPACK_CS_STR_16 \<equiv> 0x1a"
abbreviation (input) MSGPACK_CS_STR_32 :: nat where "MSGPACK_CS_STR_32 \<equiv> 0x1b"
abbreviation (input) MSGPACK_CS_ARRAY_16 :: nat where "MSGPACK_CS_ARRAY_16 \<equiv> 0x1c"
abbreviation (input) MSGPACK_CS_ARRAY_32 :: nat where "MSGPACK_CS_ARRAY_32 \<equiv> 0x1d"
abbreviation (input) MSGPACK_CS_MAP_16 :: nat where "MSGPACK_CS_MAP_16 \<equiv> 0x1e"
abbreviation (input) MSGPACK_CS_MAP_32 :: nat where "MSGPACK_CS_MAP_32 \<equiv> 0x1f"
abbreviation (input) MSGPACK_ACS_STR_VALUE :: nat where "MSGPACK_ACS_STR_VALUE \<equiv> 0x20"
abbreviation (input) MSGPACK_ACS_BIN_VALUE :: nat where "MSGPACK_ACS_BIN_VALUE \<equiv> 0x21"
abbreviation (input) MSGPACK_ACS_EXT_VALUE :: nat where "MSGPACK_ACS_EXT_VALUE \<equiv> 0x22"

text \<open>The members of \<^verbatim>\<open>context\<close> with the visitor of its holder. \<open>m_current\<close> is the offset from
  \<^verbatim>\<open>m_start\<close>; the head of \<open>m_stack\<close> is the back of the vector.\<close>

type_synonym unpack_stack = "(container_type \<times> 32 word) list"

record 'v mp_context =
  m_trail :: nat
  m_cs :: nat
  m_stack :: unpack_stack
  m_current :: nat
  m_visitor :: 'v

definition context_new :: "'v \<Rightarrow> 'v mp_context" where
  "context_new v = \<lparr>m_trail = 0, m_cs = MSGPACK_CS_HEADER, m_stack = [], m_current = 0, m_visitor = v\<rparr>"

definition context_init :: "'v visitor \<Rightarrow> 'v mp_context \<Rightarrow> 'v mp_context" where
  "context_init V c =
     c\<lparr>m_cs := MSGPACK_CS_HEADER, m_trail := 0, m_stack := [], m_visitor := vis_init V (m_visitor c)\<rparr>"

definition next_cs :: "byte \<Rightarrow> nat" where
  "next_cs b = unat (b AND 0x1f)"

subsection \<open>The container stack\<close>

text \<open>The answer of a callback where true means to go on.\<close>

definition ret_of :: "vres \<Rightarrow> parse_return" where
  "ret_of r = (case r of VTrue \<Rightarrow> PARSE_CONTINUE | VFalse \<Rightarrow> PARSE_STOP_VISITOR | VThrow x \<Rightarrow> THROWN x)"

fun stack_push :: "'v visitor \<Rightarrow> container_type \<Rightarrow> 32 word \<Rightarrow> unpack_stack \<Rightarrow> 'v \<Rightarrow> parse_return \<times> unpack_stack \<times> 'v" where
  "stack_push V MSGPACK_CT_ARRAY_ITEM rest st v =
     (let (r, v) = start_array_item V v in (ret_of r, (MSGPACK_CT_ARRAY_ITEM, rest) # st, v))"
| "stack_push V MSGPACK_CT_MAP_KEY rest st v =
     (let (r, v) = start_map_key V v in (ret_of r, (MSGPACK_CT_MAP_KEY, rest) # st, v))"
| "stack_push V MSGPACK_CT_MAP_VALUE rest st v =
     (PARSE_STOP_VISITOR, (MSGPACK_CT_MAP_VALUE, rest) # st, v)"

fun stack_consume :: "'v visitor \<Rightarrow> unpack_stack \<Rightarrow> 'v \<Rightarrow> parse_return \<times> unpack_stack \<times> 'v" where
  "stack_consume V [] v = (PARSE_SUCCESS, [], v)"
| "stack_consume V ((MSGPACK_CT_ARRAY_ITEM, rest) # st) v =
     (let (r, v) = end_array_item V v in
      if r \<noteq> VTrue then (ret_of r, (MSGPACK_CT_ARRAY_ITEM, rest) # st, v)
      else if rest - 1 = 0
      then let (r, v) = end_array V v in
        if r \<noteq> VTrue then (ret_of r, st, v) else stack_consume V st v
      else let (r, v) = start_array_item V v in
        (ret_of r, (MSGPACK_CT_ARRAY_ITEM, rest - 1) # st, v))"
| "stack_consume V ((MSGPACK_CT_MAP_KEY, rest) # st) v =
     (let (r, v) = end_map_key V v in
      if r \<noteq> VTrue then (ret_of r, (MSGPACK_CT_MAP_KEY, rest) # st, v)
      else let (r, v) = start_map_value V v in
        if r \<noteq> VTrue then (ret_of r, (MSGPACK_CT_MAP_KEY, rest) # st, v)
        else (PARSE_CONTINUE, (MSGPACK_CT_MAP_VALUE, rest) # st, v))"
| "stack_consume V ((MSGPACK_CT_MAP_VALUE, rest) # st) v =
     (let (r, v) = end_map_value V v in
      if r \<noteq> VTrue then (ret_of r, (MSGPACK_CT_MAP_VALUE, rest) # st, v)
      else if rest - 1 = 0
      then let (r, v) = end_map V v in
        if r \<noteq> VTrue then (ret_of r, st, v) else stack_consume V st v
      else let (r, v) = start_map_key V v in
        (ret_of r, (MSGPACK_CT_MAP_KEY, rest - 1) # st, v))"

subsection \<open>After a value\<close>

definition after_visit_proc :: "'v visitor \<Rightarrow> vres \<times> 'v \<Rightarrow> 'v mp_context \<Rightarrow> parse_return \<times> 'v mp_context" where
  "after_visit_proc V rv c =
     (case rv of
        (VThrow x, v) \<Rightarrow> (THROWN x, c\<lparr>m_visitor := v\<rparr>)
      | (VFalse, v) \<Rightarrow> (PARSE_STOP_VISITOR, c\<lparr>m_visitor := v, m_current := m_current c + 1\<rparr>)
      | (VTrue, v) \<Rightarrow>
          let (ret, st, v) = stack_consume V (m_stack c) v;
              c = c\<lparr>m_visitor := v, m_current := m_current c + 1, m_stack := st\<rparr> in
          (ret, case ret of THROWN x \<Rightarrow> c | _ \<Rightarrow> c\<lparr>m_cs := MSGPACK_CS_HEADER\<rparr>))"

text \<open>\<^verbatim>\<open>start_aggregate\<close> with the size loaded: \<open>sv\<close> and \<open>ev\<close> are the start and end callbacks, \<open>ct\<close> the type
  of the first element.\<close>

definition start_aggregate ::
  "'v visitor \<Rightarrow> (32 word \<Rightarrow> 'v \<Rightarrow> vres \<times> 'v) \<Rightarrow> ('v \<Rightarrow> vres \<times> 'v) \<Rightarrow> container_type \<Rightarrow> 32 word \<Rightarrow>
     'v mp_context \<Rightarrow> parse_return \<times> 'v mp_context" where
  "start_aggregate V sv ev ct num c =
     (let c = c\<lparr>m_current := m_current c + 1\<rparr>;
          (r, v) = sv num (m_visitor c);
          c = c\<lparr>m_visitor := v\<rparr> in
      if r \<noteq> VTrue then (ret_of r, c)
      else if num = 0
      then let (r, v) = ev (m_visitor c); c = c\<lparr>m_visitor := v\<rparr> in
        if r \<noteq> VTrue then (ret_of r, c)
        else let (ret, st, v) = stack_consume V (m_stack c) (m_visitor c);
                 c = c\<lparr>m_stack := st, m_visitor := v\<rparr> in
          if ret \<noteq> PARSE_CONTINUE then (ret, c) else (PARSE_CONTINUE, c\<lparr>m_cs := MSGPACK_CS_HEADER\<rparr>)
      else let (ret, st, v) = stack_push V ct num (m_stack c) (m_visitor c);
               c = c\<lparr>m_stack := st, m_visitor := v\<rparr> in
        if ret \<noteq> PARSE_CONTINUE then (ret, c) else (PARSE_CONTINUE, c\<lparr>m_cs := MSGPACK_CS_HEADER\<rparr>))"

definition start_array_agg :: "'v visitor \<Rightarrow> 32 word \<Rightarrow> 'v mp_context \<Rightarrow> parse_return \<times> 'v mp_context" where
  "start_array_agg V = start_aggregate V (start_array V) (end_array V) MSGPACK_CT_ARRAY_ITEM"

definition start_map_agg :: "'v visitor \<Rightarrow> 32 word \<Rightarrow> 'v mp_context \<Rightarrow> parse_return \<times> 'v mp_context" where
  "start_map_agg V = start_aggregate V (start_map V) (end_map V) MSGPACK_CT_MAP_KEY"

subsection \<open>\<^verbatim>\<open>execute\<close>\<close>

text \<open>The result of a part of the loop: \<open>Some r\<close> when the function returns \<open>r\<close>, then the flag
  \<^verbatim>\<open>fixed_trail_again\<close> and the context.\<close>

type_synonym 'v exec_step = "parse_return option \<times> bool \<times> 'v mp_context"

definition go_on :: "parse_return \<times> 'v mp_context \<Rightarrow> 'v exec_step" where
  "go_on rc = (case rc of (r, c) \<Rightarrow> (if r = PARSE_CONTINUE then None else Some r, False, c))"

definition visited :: "'v visitor \<Rightarrow> vres \<times> 'v \<Rightarrow> 'v mp_context \<Rightarrow> 'v exec_step" where
  "visited V rv c = go_on (after_visit_proc V rv c)"

text \<open>\<^verbatim>\<open>size_t\<close> minus one.\<close>

definition pred_size :: "nat \<Rightarrow> nat" where
  "pred_size n = (if n = 0 then 2 ^ 64 - 1 else n - 1)"

definition fail_parse :: "'v visitor \<Rightarrow> nat \<Rightarrow> 'v mp_context \<Rightarrow> 'v exec_step" where
  "fail_parse V pos c =
     (case parse_error V (pred_size pos) pos (m_visitor c) of
        (None, v) \<Rightarrow> (Some PARSE_PARSE_ERROR, False, c\<lparr>m_visitor := v\<rparr>)
      | (Some x, v) \<Rightarrow> (Some (THROWN x), False, c\<lparr>m_visitor := v\<rparr>))"

definition trail_table :: "nat list" where
  "trail_table = [1, 2, 4, 1, 2, 4, 4, 8, 1, 2, 4, 8, 1, 2, 4, 8, 2, 3, 5, 9, 17, 1, 2, 4, 2, 4, 2, 4]"

definition exec_header :: "'v visitor \<Rightarrow> byte list \<Rightarrow> 'v mp_context \<Rightarrow> 'v exec_step option" where
  "exec_header V data c = do {
     selector \<leftarrow> mem_at data (m_current c);
     if selector \<le> 0x7f then Some (visited V (visit_positive_integer V (ucast selector) (m_visitor c)) c)
     else if 0xe0 \<le> selector then Some (visited V (visit_negative_integer V (scast selector) (m_visitor c)) c)
     else if 0xc4 \<le> selector \<and> selector \<le> 0xdf
     then Some (None, True, c\<lparr>m_trail := trail_table ! (unat selector - 0xc4), m_cs := next_cs selector\<rparr>)
     else if 0xa0 \<le> selector \<and> selector \<le> 0xbf
     then let c = c\<lparr>m_trail := unat (selector AND 0x1f)\<rparr> in
       if m_trail c = 0 then Some (visited V (visit_str V [] (m_visitor c)) c)
       else Some (None, True, c\<lparr>m_cs := MSGPACK_ACS_STR_VALUE\<rparr>)
     else if 0x90 \<le> selector \<and> selector \<le> 0x9f
     then do { n \<leftarrow> load_fix data (m_current c); Some (go_on (start_array_agg V n c)) }
     else if 0x80 \<le> selector \<and> selector \<le> 0x8f
     then do { n \<leftarrow> load_fix data (m_current c); Some (go_on (start_map_agg V n c)) }
     else if selector = 0xc2 then Some (visited V (visit_boolean V False (m_visitor c)) c)
     else if selector = 0xc3 then Some (visited V (visit_boolean V True (m_visitor c)) c)
     else if selector = 0xc0 then Some (visited V (visit_nil V (m_visitor c)) c)
     else Some (fail_parse V (m_current c) c) }"

text \<open>The cases of the \<^verbatim>\<open>switch\<close>, by group; \<open>n\<close> is the start of the trailing bytes.\<close>

definition exec_number :: "'v visitor \<Rightarrow> byte list \<Rightarrow> nat \<Rightarrow> 'v mp_context \<Rightarrow> 'v exec_step option" where
  "exec_number V data n c =
     (let v = m_visitor c in
      if m_cs c = MSGPACK_CS_FLOAT then do { x \<leftarrow> load32 data n; Some (visited V (visit_float32 V x v) c) }
      else if m_cs c = MSGPACK_CS_DOUBLE then do { x \<leftarrow> load64 data n; Some (visited V (visit_float64 V x v) c) }
      else if m_cs c = MSGPACK_CS_UINT_8
      then do { x \<leftarrow> load8 data n; Some (visited V (visit_positive_integer V (ucast x) v) c) }
      else if m_cs c = MSGPACK_CS_UINT_16
      then do { x \<leftarrow> load16 data n; Some (visited V (visit_positive_integer V (ucast x) v) c) }
      else if m_cs c = MSGPACK_CS_UINT_32
      then do { x \<leftarrow> load32 data n; Some (visited V (visit_positive_integer V (ucast x) v) c) }
      else if m_cs c = MSGPACK_CS_UINT_64
      then do { x \<leftarrow> load64 data n; Some (visited V (visit_positive_integer V x v) c) }
      else if m_cs c = MSGPACK_CS_INT_8
      then do { x \<leftarrow> load8 data n; Some (visited V (visit_negative_integer V (scast x) v) c) }
      else if m_cs c = MSGPACK_CS_INT_16
      then do { x \<leftarrow> load16 data n; Some (visited V (visit_negative_integer V (scast x) v) c) }
      else if m_cs c = MSGPACK_CS_INT_32
      then do { x \<leftarrow> load32 data n; Some (visited V (visit_negative_integer V (scast x) v) c) }
      else do { x \<leftarrow> load64 data n; Some (visited V (visit_negative_integer V x v) c) })"

text \<open>\<^verbatim>\<open>visit_str(n, (uint32_t)size)\<close> and its siblings: the bytes the pointer and the size denote.\<close>

definition visit_bytes :: "'v visitor \<Rightarrow> (byte list \<Rightarrow> 'v \<Rightarrow> vres \<times> 'v) \<Rightarrow> byte list \<Rightarrow> nat \<Rightarrow> nat \<Rightarrow>
    'v mp_context \<Rightarrow> 'v exec_step option" where
  "visit_bytes V visit data n num c = do {
     bs \<leftarrow> mem_range data n (num mod 2 ^ 32);
     Some (visited V (visit bs (m_visitor c)) c) }"

definition exec_fixext :: "'v visitor \<Rightarrow> byte list \<Rightarrow> nat \<Rightarrow> 'v mp_context \<Rightarrow> 'v exec_step option" where
  "exec_fixext V data n c =
     (if m_cs c = MSGPACK_CS_FIXEXT_1 then visit_bytes V (visit_ext V) data n 2 c
      else if m_cs c = MSGPACK_CS_FIXEXT_2 then visit_bytes V (visit_ext V) data n 3 c
      else if m_cs c = MSGPACK_CS_FIXEXT_4 then visit_bytes V (visit_ext V) data n 5 c
      else if m_cs c = MSGPACK_CS_FIXEXT_8 then visit_bytes V (visit_ext V) data n 9 c
      else visit_bytes V (visit_ext V) data n 17 c)"

text \<open>A length has been read: the body follows, unless it is empty.\<close>

definition expect_body :: "'v visitor \<Rightarrow> (byte list \<Rightarrow> 'v \<Rightarrow> vres \<times> 'v) \<Rightarrow> nat \<Rightarrow> byte list \<Rightarrow> nat \<Rightarrow> nat \<Rightarrow>
    'v mp_context \<Rightarrow> 'v exec_step option" where
  "expect_body V visit acs data n trail c =
     (let c = c\<lparr>m_trail := trail\<rparr> in
      if m_trail c = 0 then visit_bytes V visit data n 0 c
      else Some (None, True, c\<lparr>m_cs := acs\<rparr>))"

definition exec_length :: "'v visitor \<Rightarrow> byte list \<Rightarrow> nat \<Rightarrow> 'v mp_context \<Rightarrow> 'v exec_step option" where
  "exec_length V data n c =
     (if m_cs c = MSGPACK_CS_STR_8
      then do { x \<leftarrow> load8 data n; expect_body V (visit_str V) MSGPACK_ACS_STR_VALUE data n (unat x) c }
      else if m_cs c = MSGPACK_CS_BIN_8
      then do { x \<leftarrow> load8 data n; expect_body V (visit_bin V) MSGPACK_ACS_BIN_VALUE data n (unat x) c }
      else if m_cs c = MSGPACK_CS_EXT_8
      then do { x \<leftarrow> load8 data n; expect_body V (visit_ext V) MSGPACK_ACS_EXT_VALUE data n (unat x + 1) c }
      else if m_cs c = MSGPACK_CS_STR_16
      then do { x \<leftarrow> load16 data n; expect_body V (visit_str V) MSGPACK_ACS_STR_VALUE data n (unat x) c }
      else if m_cs c = MSGPACK_CS_BIN_16
      then do { x \<leftarrow> load16 data n; expect_body V (visit_bin V) MSGPACK_ACS_BIN_VALUE data n (unat x) c }
      else if m_cs c = MSGPACK_CS_EXT_16
      then do { x \<leftarrow> load16 data n; expect_body V (visit_ext V) MSGPACK_ACS_EXT_VALUE data n (unat x + 1) c }
      else if m_cs c = MSGPACK_CS_STR_32
      then do { x \<leftarrow> load32 data n; expect_body V (visit_str V) MSGPACK_ACS_STR_VALUE data n (unat x) c }
      else if m_cs c = MSGPACK_CS_BIN_32
      then do { x \<leftarrow> load32 data n; expect_body V (visit_bin V) MSGPACK_ACS_BIN_VALUE data n (unat x) c }
      else do { x \<leftarrow> load32 data n; expect_body V (visit_ext V) MSGPACK_ACS_EXT_VALUE data n (unat x + 1) c })"

definition exec_body :: "'v visitor \<Rightarrow> byte list \<Rightarrow> nat \<Rightarrow> 'v mp_context \<Rightarrow> 'v exec_step option" where
  "exec_body V data n c =
     (if m_cs c = MSGPACK_ACS_STR_VALUE then visit_bytes V (visit_str V) data n (m_trail c) c
      else if m_cs c = MSGPACK_ACS_BIN_VALUE then visit_bytes V (visit_bin V) data n (m_trail c) c
      else visit_bytes V (visit_ext V) data n (m_trail c) c)"

definition exec_aggregate :: "'v visitor \<Rightarrow> byte list \<Rightarrow> nat \<Rightarrow> 'v mp_context \<Rightarrow> 'v exec_step option" where
  "exec_aggregate V data n c =
     (if m_cs c = MSGPACK_CS_ARRAY_16
      then do { x \<leftarrow> load16 data n; Some (go_on (start_array_agg V (ucast x) c)) }
      else if m_cs c = MSGPACK_CS_ARRAY_32
      then do { x \<leftarrow> load32 data n; Some (go_on (start_array_agg V x c)) }
      else if m_cs c = MSGPACK_CS_MAP_16
      then do { x \<leftarrow> load16 data n; Some (go_on (start_map_agg V (ucast x) c)) }
      else do { x \<leftarrow> load32 data n; Some (go_on (start_map_agg V x c)) })"

definition exec_switch :: "'v visitor \<Rightarrow> byte list \<Rightarrow> nat \<Rightarrow> 'v mp_context \<Rightarrow> 'v exec_step option" where
  "exec_switch V data n c =
     (if MSGPACK_CS_FLOAT \<le> m_cs c \<and> m_cs c \<le> MSGPACK_CS_INT_64 then exec_number V data n c
      else if MSGPACK_CS_FIXEXT_1 \<le> m_cs c \<and> m_cs c \<le> MSGPACK_CS_FIXEXT_16 then exec_fixext V data n c
      else if MSGPACK_CS_BIN_8 \<le> m_cs c \<and> m_cs c \<le> MSGPACK_CS_EXT_32 \<or>
              MSGPACK_CS_STR_8 \<le> m_cs c \<and> m_cs c \<le> MSGPACK_CS_STR_32 then exec_length V data n c
      else if MSGPACK_ACS_STR_VALUE \<le> m_cs c \<and> m_cs c \<le> MSGPACK_ACS_EXT_VALUE then exec_body V data n c
      else if MSGPACK_CS_ARRAY_16 \<le> m_cs c \<and> m_cs c \<le> MSGPACK_CS_MAP_32 then exec_aggregate V data n c
      else Some (fail_parse V n c))"

definition exec_trail :: "'v visitor \<Rightarrow> byte list \<Rightarrow> nat \<Rightarrow> bool \<Rightarrow> 'v mp_context \<Rightarrow> 'v exec_step option" where
  "exec_trail V data pe again c =
     (let c = (if again then c\<lparr>m_current := m_current c + 1\<rparr> else c) in
      if pe - m_current c < m_trail c then Some (Some PARSE_CONTINUE, False, c)
      else let n = m_current c in exec_switch V data n (c\<lparr>m_current := n + m_trail c - 1\<rparr>))"

definition exec_iter :: "'v visitor \<Rightarrow> byte list \<Rightarrow> nat \<Rightarrow> bool \<Rightarrow> 'v mp_context \<Rightarrow> 'v exec_step option" where
  "exec_iter V data pe again c = do {
     (ret, again, c) \<leftarrow> (if m_cs c = MSGPACK_CS_HEADER then exec_header V data c else Some (None, again, c));
     if ret \<noteq> None then Some (ret, again, c)
     else if m_cs c \<noteq> MSGPACK_CS_HEADER \<or> again then exec_trail V data pe again c
     else Some (None, again, c) }"

partial_function (option) exec_loop ::
  "'v visitor \<Rightarrow> byte list \<Rightarrow> nat \<Rightarrow> bool \<Rightarrow> 'v mp_context \<Rightarrow> (parse_return \<times> 'v mp_context) option" where
  "exec_loop V data pe again c = do {
     (ret, again, c) \<leftarrow> exec_iter V data pe again c;
     case ret of
       Some r \<Rightarrow> Some (r, c)
     | None \<Rightarrow> if m_current c \<noteq> pe then exec_loop V data pe again c else Some (PARSE_CONTINUE, c) }"

text \<open>The offset the caller gets back is \<open>m_current\<close> of the result, except after an exception.\<close>

definition execute :: "'v visitor \<Rightarrow> byte list \<Rightarrow> nat \<Rightarrow> nat \<Rightarrow> 'v mp_context \<Rightarrow> (parse_return \<times> 'v mp_context) option" where
  "execute V data len off c =
     (let c = c\<lparr>m_current := off\<rparr> in
      if off = len then Some (PARSE_CONTINUE, c) else exec_loop V data len False c)"

definition parse_imp :: "'v visitor \<Rightarrow> byte list \<Rightarrow> nat \<Rightarrow> nat \<Rightarrow> 'v \<Rightarrow> (parse_return \<times> nat \<times> 'v) option" where
  "parse_imp V data len off v =
     (if len \<le> off
      then case insufficient_bytes V off off v of
          (None, v) \<Rightarrow> Some (PARSE_CONTINUE, off, v) | (Some x, v) \<Rightarrow> Some (THROWN x, off, v)
      else do {
        (ret, c) \<leftarrow> execute V data len off (context_new v);
        let noff = m_current c;
        let v = m_visitor c;
        case ret of
          PARSE_CONTINUE \<Rightarrow>
            (case insufficient_bytes V (pred_size noff) noff v of
               (None, v) \<Rightarrow> Some (PARSE_CONTINUE, noff, v) | (Some x, v) \<Rightarrow> Some (THROWN x, noff, v))
        | PARSE_SUCCESS \<Rightarrow> Some (if noff < len then PARSE_EXTRA_BYTES else PARSE_SUCCESS, noff, v)
        | _ \<Rightarrow> Some (ret, off, v) })"

definition mp_parse :: "'v visitor \<Rightarrow> byte list \<Rightarrow> nat \<Rightarrow> nat \<Rightarrow> 'v \<Rightarrow> ((mp_exn + bool) \<times> nat \<times> 'v) option" where
  "mp_parse V data len off v = do {
     (ret, off, v) \<leftarrow> parse_imp V data len off v;
     Some (case ret of THROWN x \<Rightarrow> Inl x | _ \<Rightarrow> Inr (ret = PARSE_SUCCESS \<or> ret = PARSE_EXTRA_BYTES), off, v) }"

subsection \<open>The parser stays inside its input and ends\<close>

text \<open>Between two turns of the loop the number of trailing bytes fits the state.\<close>

definition ctx_ok :: "'v mp_context \<Rightarrow> bool" where
  "ctx_ok c \<longleftrightarrow>
     m_cs c = MSGPACK_CS_HEADER \<or>
     4 \<le> m_cs c \<and> m_cs c \<le> 0x1f \<and> m_trail c = trail_table ! (m_cs c - 4) \<or>
     0x20 \<le> m_cs c \<and> m_cs c \<le> 0x22 \<and> 1 \<le> m_trail c"

text \<open>A step that consumed the value ending at \<open>m_current\<close>.\<close>

definition consumed :: "'v mp_context \<Rightarrow> 'v exec_step \<Rightarrow> bool" where
  "consumed c s \<longleftrightarrow>
     (case s of (ret, again, c') \<Rightarrow>
        \<not> again \<and> ret \<noteq> Some PARSE_CONTINUE \<and>
        m_current c \<le> m_current c' \<and> m_current c' \<le> m_current c + 1 \<and>
        (ret = None \<or> ret = Some PARSE_SUCCESS \<longrightarrow> m_current c' = m_current c + 1) \<and>
        (ret = None \<longrightarrow> m_cs c' = MSGPACK_CS_HEADER))"

lemma consumed_trail [simp]: "consumed (c\<lparr>m_trail := t\<rparr>) s \<longleftrightarrow> consumed c s"
  by (simp add: consumed_def)

lemma visited_consumed: "consumed c (visited V rv c)"
  by (cases rv) (auto simp: consumed_def visited_def go_on_def after_visit_proc_def Let_def
      split: vres.splits prod.splits parse_return.splits)

lemma ret_of_continue [simp]: "ret_of r = PARSE_CONTINUE \<longleftrightarrow> r = VTrue"
  by (cases r) (auto simp: ret_of_def)

lemma start_aggregate_consumed: "consumed c (go_on (start_aggregate V sv ev ct num c))"
  by (auto simp: consumed_def go_on_def start_aggregate_def Let_def split: prod.splits)

lemmas agg_consumed = start_aggregate_consumed
  [where sv = "start_array V" and ev = "end_array V" and ct = MSGPACK_CT_ARRAY_ITEM and V = V for V,
   folded start_array_agg_def]
  start_aggregate_consumed
  [where sv = "start_map V" and ev = "end_map V" and ct = MSGPACK_CT_MAP_KEY and V = V for V,
   folded start_map_agg_def]

lemma fail_parse_consumed: "consumed c (fail_parse V p c)"
  by (auto simp: consumed_def fail_parse_def split: option.splits prod.splits)

text \<open>What a case of the \<^verbatim>\<open>switch\<close> may do: consume the value, or announce a body.\<close>

definition switched :: "'v mp_context \<Rightarrow> 'v exec_step \<Rightarrow> bool" where
  "switched c s \<longleftrightarrow>
     consumed c s \<or>
     (case s of (ret, again, c') \<Rightarrow>
        ret = None \<and> again \<and> m_current c' = m_current c \<and> 0x20 \<le> m_cs c' \<and> m_cs c' \<le> 0x22 \<and> 1 \<le> m_trail c')"

lemma consumed_switched: "consumed c s \<Longrightarrow> switched c s"
  by (simp add: switched_def)

definition safe_step :: "'v mp_context \<Rightarrow> 'v exec_step option \<Rightarrow> bool" where
  "safe_step c os \<longleftrightarrow> (\<exists>s. os = Some s \<and> switched c s)"

lemma safe_step_Some [simp]: "safe_step c (Some s) \<longleftrightarrow> switched c s"
  by (simp add: safe_step_def)

lemmas switched_intros = consumed_switched [OF visited_consumed] consumed_switched [OF fail_parse_consumed]
  consumed_switched [OF agg_consumed(1)] consumed_switched [OF agg_consumed(2)]

lemma safe_step_trail [simp]: "safe_step (c\<lparr>m_trail := t\<rparr>) os \<longleftrightarrow> safe_step c os"
  by (simp add: safe_step_def switched_def)

lemma visit_bytes_ok:
  assumes "n + num \<le> length data"
  shows "safe_step c (visit_bytes V visit data n num c)"
proof -
  have "n + num mod 2 ^ 32 \<le> length data"
    using assms mod_less_eq_dividend [of num "2 ^ 32"] by linarith
  then show ?thesis by (simp add: visit_bytes_def switched_intros)
qed

lemma expect_body_ok:
  assumes "n \<le> length data" and "0x20 \<le> acs" "acs \<le> 0x22"
  shows "safe_step c (expect_body V visit acs data n t c)"
proof (cases "t = 0")
  case True
  then show ?thesis
    using visit_bytes_ok [of n 0 data "c\<lparr>m_trail := 0\<rparr>" V visit] assms(1)
    by (simp add: expect_body_def)
next
  case False
  then show ?thesis using assms by (auto simp: expect_body_def switched_def)
qed

lemma loads_ok:
  "n + 1 \<le> length data \<Longrightarrow> \<exists>x. load8 data n = Some x"
  "n + 2 \<le> length data \<Longrightarrow> \<exists>x. load16 data n = Some x"
  "n + 4 \<le> length data \<Longrightarrow> \<exists>x. load32 data n = Some x"
  "n + 8 \<le> length data \<Longrightarrow> \<exists>x. load64 data n = Some x"
  by (simp_all add: load8_def load16_def load32_def load64_def)

lemma exec_number_ok:
  assumes "n + m_trail c \<le> length data" and "m_trail c = trail_table ! (m_cs c - 4)"
    and "MSGPACK_CS_FLOAT \<le> m_cs c" "m_cs c \<le> MSGPACK_CS_INT_64"
  shows "safe_step c (exec_number V data n c)"
proof -
  have "m_cs c = MSGPACK_CS_FLOAT \<or> m_cs c = MSGPACK_CS_DOUBLE \<or> m_cs c = MSGPACK_CS_UINT_8 \<or> m_cs c = MSGPACK_CS_UINT_16 \<or> m_cs c = MSGPACK_CS_UINT_32 \<or> m_cs c = MSGPACK_CS_UINT_64 \<or> m_cs c = MSGPACK_CS_INT_8 \<or> m_cs c = MSGPACK_CS_INT_16 \<or> m_cs c = MSGPACK_CS_INT_32 \<or> m_cs c = MSGPACK_CS_INT_64"
    using assms(3,4) by arith
  then show ?thesis
    by (elim disjE) (use assms(1,2) loads_ok [of n data] in
      \<open>auto simp: exec_number_def trail_table_def intro!: switched_intros\<close>)
qed

lemma exec_fixext_ok:
  assumes "n + m_trail c \<le> length data" and "m_trail c = trail_table ! (m_cs c - 4)"
    and "MSGPACK_CS_FIXEXT_1 \<le> m_cs c" "m_cs c \<le> MSGPACK_CS_FIXEXT_16"
  shows "safe_step c (exec_fixext V data n c)"
proof -
  have "m_cs c = MSGPACK_CS_FIXEXT_1 \<or> m_cs c = MSGPACK_CS_FIXEXT_2 \<or> m_cs c = MSGPACK_CS_FIXEXT_4 \<or> m_cs c = MSGPACK_CS_FIXEXT_8 \<or> m_cs c = MSGPACK_CS_FIXEXT_16"
    using assms(3,4) by arith
  then have "\<exists>k. exec_fixext V data n c = visit_bytes V (visit_ext V) data n k c \<and> n + k \<le> length data"
    by (elim disjE) (use assms(1,2) in \<open>auto simp: exec_fixext_def trail_table_def numeral_eq_Suc\<close>)
  then show ?thesis using visit_bytes_ok by metis
qed

lemma exec_length_ok:
  assumes "n + m_trail c \<le> length data" and "m_trail c = trail_table ! (m_cs c - 4)"
    and "MSGPACK_CS_BIN_8 \<le> m_cs c \<and> m_cs c \<le> MSGPACK_CS_EXT_32 \<or>
         MSGPACK_CS_STR_8 \<le> m_cs c \<and> m_cs c \<le> MSGPACK_CS_STR_32"
  shows "safe_step c (exec_length V data n c)"
proof -
  have n: "n \<le> length data" using assms(1) by simp
  have "m_cs c = MSGPACK_CS_BIN_8 \<or> m_cs c = MSGPACK_CS_BIN_16 \<or> m_cs c = MSGPACK_CS_BIN_32 \<or> m_cs c = MSGPACK_CS_EXT_8 \<or> m_cs c = MSGPACK_CS_EXT_16 \<or> m_cs c = MSGPACK_CS_EXT_32 \<or> m_cs c = MSGPACK_CS_STR_8 \<or> m_cs c = MSGPACK_CS_STR_16 \<or> m_cs c = MSGPACK_CS_STR_32"
    using assms(3) by arith
  then show ?thesis
    by (elim disjE) (use assms(1,2) n loads_ok [of n data] in
      \<open>auto simp: exec_length_def trail_table_def intro!: expect_body_ok\<close>)
qed

lemma exec_aggregate_ok:
  assumes "n + m_trail c \<le> length data" and "m_trail c = trail_table ! (m_cs c - 4)"
    and "MSGPACK_CS_ARRAY_16 \<le> m_cs c" "m_cs c \<le> MSGPACK_CS_MAP_32"
  shows "safe_step c (exec_aggregate V data n c)"
proof -
  have "m_cs c = MSGPACK_CS_ARRAY_16 \<or> m_cs c = MSGPACK_CS_ARRAY_32 \<or> m_cs c = MSGPACK_CS_MAP_16 \<or> m_cs c = MSGPACK_CS_MAP_32"
    using assms(3,4) by arith
  then show ?thesis
    by (elim disjE) (use assms(1,2) loads_ok [of n data] in
      \<open>auto simp: exec_aggregate_def trail_table_def intro!: switched_intros\<close>)
qed

lemma exec_body_ok:
  assumes "n + m_trail c \<le> length data"
  shows "safe_step c (exec_body V data n c)"
  using assms by (simp add: exec_body_def visit_bytes_ok)

lemma exec_switch_ok:
  assumes "n + m_trail c \<le> length data" and "ctx_ok c" and "m_cs c \<noteq> MSGPACK_CS_HEADER"
  shows "safe_step c (exec_switch V data n c)"
proof -
  have "4 \<le> m_cs c \<and> m_cs c \<le> 0x1f \<and> m_trail c = trail_table ! (m_cs c - 4) \<or> 0x20 \<le> m_cs c \<and> m_cs c \<le> 0x22"
    using assms(2,3) by (auto simp: ctx_ok_def)
  then show ?thesis
    using exec_number_ok [OF assms(1), of V] exec_fixext_ok [OF assms(1), of V] exec_length_ok [OF assms(1), of V]
      exec_aggregate_ok [OF assms(1), of V] exec_body_ok [OF assms(1), of V]
    by (auto simp: exec_switch_def)
qed

lemma unat_and_low:
  "unat (b AND 0x1f :: byte) = unat b mod 32" "unat (b AND 0x0f :: byte) = unat b mod 16"
proof -
  have "unat (b AND mask 5) = unat b mod 32" "unat (b AND mask 4) = unat b mod 16"
    by (simp_all only: take_bit_eq_mask [symmetric] unsigned_take_bit_eq) (simp_all add: take_bit_eq_mod)
  then show "unat (b AND 0x1f :: byte) = unat b mod 32" "unat (b AND 0x0f :: byte) = unat b mod 16"
    by (simp_all add: mask_numeral)
qed

lemma next_cs_trail:
  assumes "0xc4 \<le> b" and "b \<le> 0xdf"
  shows "next_cs b = unat b - 0xc0" and "4 \<le> unat b - 0xc0" and "unat b - 0xc0 \<le> 0x1f"
    and "unat b - 0xc0 - 4 = unat b - 0xc4"
proof -
  have b: "196 \<le> unat b" "unat b \<le> 223" using assms by (simp_all add: word_le_nat_alt)
  define k where "k = unat b - 192"
  have k: "unat b = k + 6 * 32" "4 \<le> k" "k < 32" using b by (simp_all add: k_def)
  have "unat b mod 32 = k" using k(3) unfolding k(1) by (simp only: mod_mult_self1 mod_less)
  then have "next_cs b = k" by (simp add: next_cs_def unat_and_low)
  then show "next_cs b = unat b - 0xc0" by (simp add: k_def)
  show "4 \<le> unat b - 0xc0" "unat b - 0xc0 \<le> 0x1f" "unat b - 0xc0 - 4 = unat b - 0xc4"
    using b by simp_all
qed

definition headed :: "'v mp_context \<Rightarrow> 'v exec_step \<Rightarrow> bool" where
  "headed c s \<longleftrightarrow>
     consumed c s \<or>
     (case s of (ret, again, c') \<Rightarrow>
        ret = None \<and> again \<and> m_current c' = m_current c \<and> m_cs c' \<noteq> MSGPACK_CS_HEADER \<and> ctx_ok c')"

lemma consumed_headed: "consumed c s \<Longrightarrow> headed c s"
  by (simp add: headed_def)

lemmas headed_intros = consumed_headed [OF visited_consumed] consumed_headed [OF fail_parse_consumed]
  consumed_headed [OF agg_consumed(1)] consumed_headed [OF agg_consumed(2)]

lemma headed_trail [simp]: "headed (c\<lparr>m_trail := t\<rparr>) s \<longleftrightarrow> headed c s"
  by (simp add: headed_def)

lemma visited_headed_trail: "headed c (visited V rv (c\<lparr>m_trail := t\<rparr>))"
  using headed_intros(1) [of "c\<lparr>m_trail := t\<rparr>" V rv] by simp

definition safe_head :: "'v mp_context \<Rightarrow> 'v exec_step option \<Rightarrow> bool" where
  "safe_head c os \<longleftrightarrow> (\<exists>s. os = Some s \<and> headed c s)"

lemma safe_head_Some [simp]: "safe_head c (Some s) \<longleftrightarrow> headed c s"
  by (simp add: safe_head_def)

lemma exec_header_ok:
  assumes "m_current c < length data"
  shows "safe_head c (exec_header V data c)"
proof -
  define b where "b = data ! m_current c"
  have tr: "headed c (None, True, c\<lparr>m_trail := trail_table ! (unat b - 0xc4), m_cs := next_cs b\<rparr>)"
    if "0xc4 \<le> b" "b \<le> 0xdf"
    using next_cs_trail [OF that] by (auto simp: headed_def ctx_ok_def)
  have st: "headed c (None, True, c\<lparr>m_trail := unat (b AND 0x1f), m_cs := 0x20\<rparr>)" if "unat (b AND 0x1f) \<noteq> 0"
    using that by (auto simp: headed_def ctx_ok_def)
  show ?thesis
    unfolding exec_header_def using assms tr st
    by (simp add: load_fix_def headed_intros visited_headed_trail Let_def flip: b_def)
qed

text \<open>One turn of the loop. \<open>progress\<close> decreases while the loop goes on.\<close>

definition progress :: "nat \<Rightarrow> bool \<Rightarrow> 'v mp_context \<Rightarrow> nat" where
  "progress pe again c = 2 * (pe - m_current c) + (if again then 0 else 1)"

definition turn_ok :: "nat \<Rightarrow> nat \<Rightarrow> 'v exec_step \<Rightarrow> bool" where
  "turn_ok pe k s \<longleftrightarrow>
     (case s of (ret, again, c') \<Rightarrow>
        m_current c' \<le> pe \<and> (ret \<in> {None, Some PARSE_CONTINUE} \<longrightarrow> ctx_ok c') \<and>
        (ret = None \<longrightarrow> (again \<longrightarrow> m_cs c' \<noteq> MSGPACK_CS_HEADER \<and> m_current c' < pe) \<and> progress pe again c' < k))"

text \<open>No turn goes back, and one that completes the document has taken a byte.\<close>

definition advanced :: "'v mp_context \<Rightarrow> 'v exec_step \<Rightarrow> bool" where
  "advanced c s \<longleftrightarrow>
     m_current c \<le> m_current (snd (snd s)) \<and> (fst s = Some PARSE_SUCCESS \<longrightarrow> m_current c < m_current (snd (snd s)))"

lemma exec_trail_ok:
  assumes "m_current c + (if again then 1 else 0) \<le> pe" and "pe \<le> length data" and "ctx_ok c"
    and "m_cs c \<noteq> MSGPACK_CS_HEADER"
  shows "\<exists>s. exec_trail V data pe again c = Some s \<and>
     advanced c s \<and> turn_ok pe (progress pe again c) s"
proof -
  define c1 where "c1 = (if again then c\<lparr>m_current := m_current c + 1\<rparr> else c)"
  have c1: "m_trail c1 = m_trail c" "m_cs c1 = m_cs c" "m_current c1 = m_current c + (if again then 1 else 0)"
    by (simp_all add: c1_def)
  have tr: "1 \<le> m_trail c"
  proof -
    have "\<forall>i < 28. 1 \<le> trail_table ! i" by (simp add: trail_table_def All_less_Suc numeral_eq_Suc)
    then show ?thesis using assms(3,4) by (auto simp: ctx_ok_def)
  qed
  show ?thesis
  proof (cases "pe - m_current c1 < m_trail c")
    case True
    then show ?thesis using assms(1,3,4) c1
      by (auto simp: exec_trail_def Let_def turn_ok_def ctx_ok_def advanced_def simp flip: c1_def)
  next
    case False
    define n where "n = m_current c1"
    define c2 where "c2 = c1\<lparr>m_current := n + m_trail c - 1\<rparr>"
    have c2: "m_trail c2 = m_trail c" "m_cs c2 = m_cs c" "ctx_ok c2" "m_current c2 = n + m_trail c - 1"
      using assms(3) c1 by (auto simp: c2_def ctx_ok_def)
    have n: "n + m_trail c \<le> pe" using False tr by (simp add: n_def)
    from exec_switch_ok [of n c2 data V] c2 assms(2,4) n
    obtain s where s: "exec_switch V data n c2 = Some s" "switched c2 s" by (auto simp: safe_step_def)
    have "exec_trail V data pe again c = Some s"
      using False s(1) c1 by (simp add: exec_trail_def Let_def c2_def n_def flip: c1_def)
    moreover have "advanced c s \<and> turn_ok pe (progress pe again c) s"
      using s(2) n tr c2(4) c1(3)
      by (cases s) (auto simp: switched_def consumed_def turn_ok_def ctx_ok_def progress_def advanced_def n_def)
    ultimately show ?thesis by auto
  qed
qed

lemma exec_iter_ok:
  fixes c :: "'v mp_context"
  assumes "m_current c < pe" and "pe \<le> length data" and "ctx_ok c" and "again \<longrightarrow> m_cs c \<noteq> MSGPACK_CS_HEADER"
  shows "\<exists>s. exec_iter V data pe again c = Some s \<and>
     advanced c s \<and> turn_ok pe (progress pe again c) s"
proof (cases "m_cs c = MSGPACK_CS_HEADER")
  case False
  then show ?thesis using exec_trail_ok [of c again pe data V] assms by (auto simp: exec_iter_def)
next
  case True
  then have na: "\<not> again" using assms(4) by simp
  obtain ret ag c1 where h: "exec_header V data c = Some (ret, ag, c1)" "headed c (ret, ag, c1)"
    using exec_header_ok [of c data V] assms(1,2) by (auto simp: safe_head_def)
  show ?thesis
  proof (cases "ret = None \<and> ag")
    case True
    then have c1: "m_current c1 = m_current c" "m_cs c1 \<noteq> MSGPACK_CS_HEADER" "ctx_ok c1"
      using h(2) by (auto simp: headed_def consumed_def)
    have "progress pe True c1 \<le> progress pe again c" using c1(1) na by (simp add: progress_def)
    then have less: "turn_ok pe (progress pe True c1) s \<Longrightarrow> turn_ok pe (progress pe again c) s" for s :: "'v exec_step"
      by (auto simp: turn_ok_def)
    have "exec_iter V data pe again c = exec_trail V data pe True c1"
      using h(1) True c1(2) \<open>m_cs c = MSGPACK_CS_HEADER\<close> by (simp add: exec_iter_def)
    then show ?thesis
      using exec_trail_ok [of c1 True pe data V] c1 assms(1,2) less by (auto simp: advanced_def)
  next
    case False
    then have con: "consumed c (ret, ag, c1)" using h(2) by (auto simp: headed_def)
    then have "exec_iter V data pe again c = Some (ret, ag, c1)"
      using h(1) True by (auto simp: exec_iter_def consumed_def)
    moreover have "turn_ok pe (progress pe again c) (ret, ag, c1)"
      using con na assms(1) unfolding consumed_def turn_ok_def progress_def ctx_ok_def by (cases ret) simp_all
    ultimately show ?thesis using con by (auto simp: consumed_def advanced_def)
  qed
qed

text \<open>The loop returns, whatever the bytes and whatever the visitor answers, and never reads outside of
  the block.\<close>

lemma exec_loop_total:
  assumes "m_current c < pe" and "pe \<le> length data" and "ctx_ok c" and "again \<longrightarrow> m_cs c \<noteq> MSGPACK_CS_HEADER"
  shows "\<exists>r c'. exec_loop V data pe again c = Some (r, c') \<and> m_current c \<le> m_current c' \<and>
     m_current c' \<le> pe \<and> (r = PARSE_CONTINUE \<longrightarrow> ctx_ok c') \<and> (r = PARSE_SUCCESS \<longrightarrow> m_current c < m_current c')"
  using assms
proof (induction "progress pe again c" arbitrary: again c rule: less_induct)
  case less
  obtain ret ag c1 where i: "exec_iter V data pe again c = Some (ret, ag, c1)"
      "advanced c (ret, ag, c1)"
      "turn_ok pe (progress pe again c) (ret, ag, c1)"
    using exec_iter_ok [OF less.prems, of V] by auto
  show ?case
  proof (cases ret)
    case (Some r)
    then show ?thesis using i by (subst exec_loop.simps) (auto simp: turn_ok_def advanced_def)
  next
    case None
    then have c1: "ctx_ok c1" "ag \<longrightarrow> m_cs c1 \<noteq> MSGPACK_CS_HEADER" "progress pe ag c1 < progress pe again c"
        "m_current c1 \<le> pe"
      using i(3) by (auto simp: turn_ok_def)
    show ?thesis
    proof (cases "m_current c1 = pe")
      case True
      then show ?thesis using i None c1(1) by (subst exec_loop.simps) (auto simp: advanced_def)
    next
      case False
      then obtain r c' where "exec_loop V data pe ag c1 = Some (r, c')" "m_current c1 \<le> m_current c'" "r = PARSE_SUCCESS \<longrightarrow> m_current c1 < m_current c'"
          "m_current c' \<le> pe" "r = PARSE_CONTINUE \<longrightarrow> ctx_ok c'"
        using less.hyps [OF c1(3) _ less.prems(2) c1(1,2)] c1(4) by auto
      then show ?thesis using i None False by (subst exec_loop.simps) (auto simp: advanced_def)
    qed
  qed
qed

lemma context_new_ok: "ctx_ok (context_new v)"
  by (simp add: context_new_def ctx_ok_def)

lemma execute_total:
  assumes "off \<le> len" and "len \<le> length data" and "ctx_ok c"
  shows "\<exists>r c'. execute V data len off c = Some (r, c') \<and> off \<le> m_current c' \<and> m_current c' \<le> len \<and>
     (r = PARSE_CONTINUE \<longrightarrow> ctx_ok c') \<and> (r = PARSE_SUCCESS \<longrightarrow> off < m_current c')"
proof (cases "off = len")
  case False
  have "ctx_ok (c\<lparr>m_current := off\<rparr>)" using assms(3) by (simp add: ctx_ok_def)
  then show ?thesis
    using exec_loop_total [of "c\<lparr>m_current := off\<rparr>" len data False V] assms(1,2) False by (simp add: execute_def)
qed (use assms(3) in \<open>simp add: execute_def ctx_ok_def\<close>)

lemma parse_imp_total:
  assumes "len \<le> length data"
  shows "\<exists>r off' v'. parse_imp V data len off v = Some (r, off', v') \<and> off \<le> off' \<and> (off \<le> len \<longrightarrow> off' \<le> len)"
proof (cases "len \<le> off")
  case True
  then show ?thesis by (auto simp: parse_imp_def split: prod.splits option.splits)
next
  case False
  then obtain r c' where "execute V data len off (context_new v) = Some (r, c')" "off \<le> m_current c'" "m_current c' \<le> len"
    using execute_total [OF _ assms context_new_ok, of off V v] by auto
  then show ?thesis using False
    by (cases r) (auto simp: parse_imp_def Let_def split: prod.splits option.splits)
qed

end
