(* ===== verification/Mp_Roundtrip.thy ===== *)
theory Mp_Roundtrip
  imports Mp_Pack Mp_Parse
begin

text \<open>
  What the packer writes is what the parser reads: for every value, the parser on the packed bytes
  makes the callbacks of that value, in order, and stops at its end.
\<close>

subsection \<open>Values\<close>

text \<open>\<^verbatim>\<open>msgpack::object\<close> (\<^verbatim>\<open>v1/object_fwd.hpp\<close>): a type and the union member it selects. Floating-point
  members are given by their representation; \<^verbatim>\<open>FLOAT32\<close> is kept as a \<^verbatim>\<open>double\<close>. An extension starts
  with its type byte.\<close>

datatype mobj =
    NIL | BOOLEAN bool | POSITIVE_INTEGER "64 word" | NEGATIVE_INTEGER "64 word"
  | FLOAT32 "64 word" | FLOAT64 "64 word" | STR_t "byte list" | BIN "byte list" | EXT "byte list"
  | ARRAY "mobj list" | MAP "object_kv list"
and object_kv = KV mobj mobj

text \<open>The conversions between the two floating-point formats and the comparison are the processor's.\<close>

record fpu =
  fp_widen :: "32 word \<Rightarrow> 64 word"
  fp_narrow :: "64 word \<Rightarrow> 32 word"
  fp_equal :: "64 word \<Rightarrow> 64 word \<Rightarrow> bool"

text \<open>A value packed as the adaptors of the language types do (\<^verbatim>\<open>adaptor/vector.hpp\<close>, \<^verbatim>\<open>adaptor/map.hpp\<close>,
  \<^verbatim>\<open>adaptor/ext.hpp\<close> and the scalars): a header, then the parts.\<close>

fun pack_value :: "fpu \<Rightarrow> 's stream_write \<Rightarrow> mobj \<Rightarrow> 's \<Rightarrow> 's option"
  and pack_values :: "fpu \<Rightarrow> 's stream_write \<Rightarrow> mobj list \<Rightarrow> 's \<Rightarrow> 's option"
  and pack_pairs :: "fpu \<Rightarrow> 's stream_write \<Rightarrow> object_kv list \<Rightarrow> 's \<Rightarrow> 's option" where
  "pack_value fp wr NIL s = pack_nil wr s"
| "pack_value fp wr (BOOLEAN b) s = (if b then pack_true wr s else pack_false wr s)"
| "pack_value fp wr (POSITIVE_INTEGER u) s = pack_uint64 wr u s"
| "pack_value fp wr (NEGATIVE_INTEGER i) s = pack_int64 wr i s"
| "pack_value fp wr (FLOAT32 d) s = pack_float wr (fp_narrow fp d) s"
| "pack_value fp wr (FLOAT64 d) s = pack_double wr d s"
| "pack_value fp wr (STR_t bs) s = do { s \<leftarrow> pack_str wr (of_nat (length bs)) s; pack_str_body wr bs s }"
| "pack_value fp wr (BIN bs) s = do { s \<leftarrow> pack_bin wr (of_nat (length bs)) s; pack_bin_body wr bs s }"
| "pack_value fp wr (EXT bs) s =
     do { s \<leftarrow> pack_ext wr (of_nat (length bs - 1)) (hd bs) s; pack_ext_body wr (tl bs) s }"
| "pack_value fp wr (ARRAY os) s = do { s \<leftarrow> pack_array wr (of_nat (length os)) s; pack_values fp wr os s }"
| "pack_value fp wr (MAP kvs) s = do { s \<leftarrow> pack_map wr (of_nat (length kvs)) s; pack_pairs fp wr kvs s }"
| "pack_values fp wr [] s = Some s"
| "pack_values fp wr (ob # os) s = do { s \<leftarrow> pack_value fp wr ob s; pack_values fp wr os s }"
| "pack_pairs fp wr [] s = Some s"
| "pack_pairs fp wr (KV k v # kvs) s =
     do { s \<leftarrow> pack_value fp wr k s; s \<leftarrow> pack_value fp wr v s; pack_pairs fp wr kvs s }"

subsection \<open>The bytes a packer writes\<close>

text \<open>The bytes of one call: a packer over a stream that returns what it is given.\<close>

abbreviation (input) echo :: "byte list stream_write" where
  "echo \<equiv> \<lambda>bs _. Some bs"

definition enc_uint64 :: "64 word \<Rightarrow> byte list" where "enc_uint64 d = the (pack_uint64 echo d [])"
definition enc_int64 :: "64 word \<Rightarrow> byte list" where "enc_int64 d = the (pack_int64 echo d [])"
definition enc_str :: "32 word \<Rightarrow> byte list" where "enc_str l = the (pack_str echo l [])"
definition enc_bin :: "32 word \<Rightarrow> byte list" where "enc_bin l = the (pack_bin echo l [])"
definition enc_ext :: "64 word \<Rightarrow> byte \<Rightarrow> byte list" where "enc_ext l t = the (pack_ext echo l t [])"
definition enc_array :: "32 word \<Rightarrow> byte list" where "enc_array n = the (pack_array echo n [])"
definition enc_map :: "32 word \<Rightarrow> byte list" where "enc_map n = the (pack_map echo n [])"

lemmas enc_defs = enc_uint64_def enc_int64_def enc_str_def enc_bin_def enc_ext_def enc_array_def enc_map_def

lemmas pack_defs = pack_uint64_def pack_imp_uint64_def pack_int64_def pack_imp_int64_def pack_str_def
  pack_bin_def pack_ext_def pack_array_def pack_map_def

lemma pack_enc:
  "pack_uint64 wr d = wr (enc_uint64 d)" "pack_int64 wr d = wr (enc_int64 d)"
  "pack_str wr l = wr (enc_str l)" "pack_bin wr l = wr (enc_bin l)" "pack_ext wr n t = wr (enc_ext n t)"
  "pack_array wr l = wr (enc_array l)" "pack_map wr l = wr (enc_map l)"
  by (simp_all add: enc_defs pack_defs)

fun enc_value :: "fpu \<Rightarrow> mobj \<Rightarrow> byte list"
  and enc_values :: "fpu \<Rightarrow> mobj list \<Rightarrow> byte list"
  and enc_pairs :: "fpu \<Rightarrow> object_kv list \<Rightarrow> byte list" where
  "enc_value fp NIL = [0xc0]"
| "enc_value fp (BOOLEAN b) = [if b then 0xc3 else 0xc2]"
| "enc_value fp (POSITIVE_INTEGER u) = enc_uint64 u"
| "enc_value fp (NEGATIVE_INTEGER i) = enc_int64 i"
| "enc_value fp (FLOAT32 d) = 0xca # store32 (fp_narrow fp d)"
| "enc_value fp (FLOAT64 d) = 0xcb # store64 d"
| "enc_value fp (STR_t bs) = enc_str (of_nat (length bs)) @ bs"
| "enc_value fp (BIN bs) = enc_bin (of_nat (length bs)) @ bs"
| "enc_value fp (EXT bs) = enc_ext (of_nat (length bs - 1)) (hd bs) @ tl bs"
| "enc_value fp (ARRAY os) = enc_array (of_nat (length os)) @ enc_values fp os"
| "enc_value fp (MAP kvs) = enc_map (of_nat (length kvs)) @ enc_pairs fp kvs"
| "enc_values fp [] = []"
| "enc_values fp (ob # os) = enc_value fp ob @ enc_values fp os"
| "enc_pairs fp [] = []"
| "enc_pairs fp (KV k v # kvs) = enc_value fp k @ enc_value fp v @ enc_pairs fp kvs"

text \<open>The packer as a sequence of writes.\<close>

lemmas pack_simple = pack_nil_def pack_true_def pack_false_def pack_float_def pack_double_def
  pack_str_body_def pack_bin_body_def pack_ext_body_def

lemma pack_value_funs:
  "pack_value fp wr NIL = pack_nil wr"
  "pack_value fp wr (BOOLEAN b) = (if b then pack_true wr else pack_false wr)"
  "pack_value fp wr (POSITIVE_INTEGER u) = pack_uint64 wr u"
  "pack_value fp wr (NEGATIVE_INTEGER i) = pack_int64 wr i"
  "pack_value fp wr (FLOAT32 d) = pack_float wr (fp_narrow fp d)"
  "pack_value fp wr (FLOAT64 d) = pack_double wr d"
  "pack_value fp wr (STR_t bs) = (\<lambda>s. pack_str wr (of_nat (length bs)) s \<bind> pack_str_body wr bs)"
  "pack_value fp wr (BIN bs) = (\<lambda>s. pack_bin wr (of_nat (length bs)) s \<bind> pack_bin_body wr bs)"
  "pack_value fp wr (EXT bs) = (\<lambda>s. pack_ext wr (of_nat (length bs - 1)) (hd bs) s \<bind> pack_ext_body wr (tl bs))"
  "pack_value fp wr (ARRAY os) = (\<lambda>s. pack_array wr (of_nat (length os)) s \<bind> pack_values fp wr os)"
  "pack_value fp wr (MAP kvs) = (\<lambda>s. pack_map wr (of_nat (length kvs)) s \<bind> pack_pairs fp wr kvs)"
  "pack_values fp wr [] = Some"
  "pack_values fp wr (ob # os) = (\<lambda>s. pack_value fp wr ob s \<bind> pack_values fp wr os)"
  "pack_pairs fp wr [] = Some"
  "pack_pairs fp wr (KV k v # kvs) = (\<lambda>s. pack_value fp wr k s \<bind> (\<lambda>s. pack_value fp wr v s \<bind> pack_pairs fp wr kvs))"
  by (simp_all add: fun_eq_iff)

text \<open>A stream keeps its invariant and appends what is written to it, as long as the total stays below
  its limit; a total stream accepts every such write.\<close>

locale byte_stream =
  fixes wr :: "'s stream_write"
    and inv :: "'s \<Rightarrow> bool"
    and written :: "'s \<Rightarrow> byte list"
    and limit :: nat
  assumes write_appends: "inv s \<Longrightarrow> length (written s) + length bs < limit \<Longrightarrow> wr bs s = Some s' \<Longrightarrow>
      inv s' \<and> written s' = written s @ bs"
begin

definition puts :: "('s \<Rightarrow> 's option) \<Rightarrow> byte list \<Rightarrow> bool" where
  "puts f bs \<longleftrightarrow> (\<forall>s s'. inv s \<and> length (written s) + length bs < limit \<and> f s = Some s' \<longrightarrow>
     inv s' \<and> written s' = written s @ bs)"

lemma puts_write: "puts (wr bs) bs"
  using write_appends by (auto simp: puts_def)

lemma puts_Nil: "puts Some []"
  by (auto simp: puts_def)

lemma putsD:
  assumes "puts f bs" and "inv s" and "length (written s) + length bs < limit" and "f s = Some s'"
  shows "inv s'" and "written s' = written s @ bs"
  using assms unfolding puts_def by blast+

lemma puts_append:
  assumes "puts f xs" and "puts g ys"
  shows "puts (\<lambda>s. f s \<bind> g) (xs @ ys)"
  unfolding puts_def
proof (intro allI impI, elim conjE)
  fix s s' assume s: "inv s" "length (written s) + length (xs @ ys) < limit" "f s \<bind> g = Some s'"
  then obtain t where t: "f s = Some t" "g t = Some s'" by (auto simp: bind_eq_Some_conv)
  have "inv t" "written t = written s @ xs" using putsD [OF assms(1) s(1) _ t(1)] s(2) by simp_all
  then show "inv s' \<and> written s' = written s @ xs @ ys"
    using putsD [OF assms(2) _ _ t(2)] s(2) by simp
qed

lemma packed_bytes:
  "puts (pack_value fp wr ob) (enc_value fp ob)"
  "puts (pack_values fp wr os) (enc_values fp os)"
  "puts (pack_pairs fp wr kvs) (enc_pairs fp kvs)"
  by (induction fp ob and fp os and fp kvs rule: enc_value_enc_values_enc_pairs.induct)
    (auto simp: pack_value_funs pack_enc pack_simple intro!: puts_write puts_Nil puts_append split: if_splits)

end

locale total_byte_stream = byte_stream wr inv written limit
  for wr :: "'s stream_write" and inv written limit +
  assumes write_total: "inv s \<Longrightarrow> length (written s) + length bs < limit \<Longrightarrow> \<exists>s'. wr bs s = Some s'"
begin

definition accepts :: "('s \<Rightarrow> 's option) \<Rightarrow> byte list \<Rightarrow> bool" where
  "accepts f bs \<longleftrightarrow> puts f bs \<and> (\<forall>s. inv s \<and> length (written s) + length bs < limit \<longrightarrow> f s \<noteq> None)"

lemma accepts_write: "accepts (wr bs) bs"
  using write_total puts_write by (auto simp: accepts_def)

lemma accepts_Nil: "accepts Some []"
  using puts_Nil by (auto simp: accepts_def)

lemma accepts_append:
  assumes "accepts f xs" and "accepts g ys"
  shows "accepts (\<lambda>s. f s \<bind> g) (xs @ ys)"
proof -
  have p: "puts f xs" "puts g ys" using assms by (simp_all add: accepts_def)
  have "f s \<bind> g \<noteq> None" if s: "inv s" "length (written s) + length (xs @ ys) < limit" for s
  proof -
    obtain t where t: "f s = Some t" using assms(1) s by (auto simp: accepts_def)
    have "inv t" "written t = written s @ xs" using putsD [OF p(1) s(1) _ t] s(2) by simp_all
    then show ?thesis using assms(2) s(2) t by (simp add: accepts_def)
  qed
  then show ?thesis using puts_append [OF p] by (simp add: accepts_def)
qed

lemma pack_total:
  "accepts (pack_value fp wr ob) (enc_value fp ob)"
  "accepts (pack_values fp wr os) (enc_values fp os)"
  "accepts (pack_pairs fp wr kvs) (enc_pairs fp kvs)"
  by (induction fp ob and fp os and fp kvs rule: enc_value_enc_values_enc_pairs.induct)
    (auto simp: pack_value_funs pack_enc pack_simple intro!: accepts_write accepts_Nil accepts_append split: if_splits)

end

subsection \<open>The callbacks of a value\<close>

definition vt :: "vres \<times> 'v \<Rightarrow> 'v option" where
  "vt rv = (case rv of (VTrue, v) \<Rightarrow> Some v | _ \<Rightarrow> None)"

lemma vt_Some [simp]: "vt rv = Some v \<longleftrightarrow> rv = (VTrue, v)"
  by (cases rv) (auto simp: vt_def split: vres.splits)

text \<open>The callbacks in the order of the document, as long as all answer true.\<close>

fun visit_obj :: "fpu \<Rightarrow> 'v visitor \<Rightarrow> mobj \<Rightarrow> 'v \<Rightarrow> 'v option"
  and visit_items :: "fpu \<Rightarrow> 'v visitor \<Rightarrow> mobj list \<Rightarrow> 'v \<Rightarrow> 'v option"
  and visit_pairs :: "fpu \<Rightarrow> 'v visitor \<Rightarrow> object_kv list \<Rightarrow> 'v \<Rightarrow> 'v option" where
  "visit_obj fp V NIL v = vt (visit_nil V v)"
| "visit_obj fp V (BOOLEAN b) v = vt (visit_boolean V b v)"
| "visit_obj fp V (POSITIVE_INTEGER u) v = vt (visit_positive_integer V u v)"
| "visit_obj fp V (NEGATIVE_INTEGER i) v = vt (visit_negative_integer V i v)"
| "visit_obj fp V (FLOAT32 d) v = vt (visit_float32 V (fp_narrow fp d) v)"
| "visit_obj fp V (FLOAT64 d) v = vt (visit_float64 V d v)"
| "visit_obj fp V (STR_t bs) v = vt (visit_str V bs v)"
| "visit_obj fp V (BIN bs) v = vt (visit_bin V bs v)"
| "visit_obj fp V (EXT bs) v = vt (visit_ext V bs v)"
| "visit_obj fp V (ARRAY os) v =
     do { v \<leftarrow> vt (start_array V (of_nat (length os)) v); v \<leftarrow> visit_items fp V os v; vt (end_array V v) }"
| "visit_obj fp V (MAP kvs) v =
     do { v \<leftarrow> vt (start_map V (of_nat (length kvs)) v); v \<leftarrow> visit_pairs fp V kvs v; vt (end_map V v) }"
| "visit_items fp V [] v = Some v"
| "visit_items fp V (ob # os) v =
     do { v \<leftarrow> vt (start_array_item V v); v \<leftarrow> visit_obj fp V ob v; v \<leftarrow> vt (end_array_item V v);
          visit_items fp V os v }"
| "visit_pairs fp V [] v = Some v"
| "visit_pairs fp V (KV k x # kvs) v =
     do { v \<leftarrow> vt (start_map_key V v); v \<leftarrow> visit_obj fp V k v; v \<leftarrow> vt (end_map_key V v);
          v \<leftarrow> vt (start_map_value V v); v \<leftarrow> visit_obj fp V x v; v \<leftarrow> vt (end_map_value V v);
          visit_pairs fp V kvs v }"

text \<open>The values the format can hold.\<close>

fun mobj_ok :: "mobj \<Rightarrow> bool"
  and mobjs_ok :: "mobj list \<Rightarrow> bool"
  and pairs_ok :: "object_kv list \<Rightarrow> bool" where
  "mobj_ok (NEGATIVE_INTEGER i) \<longleftrightarrow> sint i < 0"
| "mobj_ok (STR_t bs) \<longleftrightarrow> length bs < 2 ^ 32"
| "mobj_ok (BIN bs) \<longleftrightarrow> length bs < 2 ^ 32"
| "mobj_ok (EXT bs) \<longleftrightarrow> bs \<noteq> [] \<and> length bs < 2 ^ 32"
| "mobj_ok (ARRAY os) \<longleftrightarrow> length os < 2 ^ 32 \<and> mobjs_ok os"
| "mobj_ok (MAP kvs) \<longleftrightarrow> length kvs < 2 ^ 32 \<and> pairs_ok kvs"
| "mobj_ok _ \<longleftrightarrow> True"
| "mobjs_ok [] \<longleftrightarrow> True"
| "mobjs_ok (ob # os) \<longleftrightarrow> mobj_ok ob \<and> mobjs_ok os"
| "pairs_ok [] \<longleftrightarrow> True"
| "pairs_ok (KV k x # kvs) \<longleftrightarrow> mobj_ok k \<and> mobj_ok x \<and> pairs_ok kvs"

subsection \<open>Bytes at a place\<close>

definition at_bytes :: "byte list \<Rightarrow> nat \<Rightarrow> byte list \<Rightarrow> bool" where
  "at_bytes data i bs \<longleftrightarrow> mem_range data i (length bs) = Some bs"

lemma at_bytes_append: "at_bytes data i (xs @ ys) \<longleftrightarrow> at_bytes data i xs \<and> at_bytes data (i + length xs) ys"
proof -
  have "take (length xs + length ys) (drop i data) = take (length xs) (drop i data) @ take (length ys) (drop (i + length xs) data)"
    by (simp add: take_add add.commute)
  then show ?thesis
    by (auto simp: at_bytes_def mem_range_eq_Some append_eq_append_conv)
qed

lemma at_bytes_Cons: "at_bytes data i (x # xs) \<longleftrightarrow> mem_at data i = Some x \<and> at_bytes data (i + 1) xs"
proof -
  have "at_bytes data i [x] \<longleftrightarrow> mem_at data i = Some x"
    by (auto simp: at_bytes_def mem_range_eq_Some mem_at_eq_Some take_Suc_conv_app_nth hd_drop_conv_nth take_Suc)
  then show ?thesis using at_bytes_append [of data i "[x]" xs] by simp
qed

lemma at_bytes_Nil [simp]: "at_bytes data i [] \<longleftrightarrow> i \<le> length data"
  by (simp add: at_bytes_def mem_range_def)

lemma at_bytes_whole: "at_bytes (xs @ bs @ ys) (length xs) bs"
  by (simp add: at_bytes_def)

subsection \<open>After a value\<close>

text \<open>What the loop does once a value is complete: it tells the open containers, and goes on.\<close>

definition finish :: "'v visitor \<Rightarrow> byte list \<Rightarrow> nat \<Rightarrow> nat \<Rightarrow> 'v mp_context \<Rightarrow> (parse_return \<times> 'v mp_context) option" where
  "finish V data pe cs c =
     (case stack_consume V (m_stack c) (m_visitor c) of
        (ret, st, v) \<Rightarrow>
          let c = c\<lparr>m_stack := st, m_visitor := v\<rparr> in
          if ret = PARSE_CONTINUE
          then if m_current c \<noteq> pe then exec_loop V data pe False (c\<lparr>m_cs := MSGPACK_CS_HEADER\<rparr>)
            else Some (PARSE_CONTINUE, c\<lparr>m_cs := MSGPACK_CS_HEADER\<rparr>)
          else Some (ret, c\<lparr>m_cs := cs\<rparr>))"

lemma finish_cs [simp]: "finish V data pe cs (c\<lparr>m_cs := x\<rparr>) = finish V data pe cs c"
  by (auto simp: finish_def Let_def split: prod.splits)

text \<open>The loop at \<open>c\<close> reads a value of \<open>n\<close> bytes whose callbacks lead the visitor to \<open>v\<close>.\<close>

definition reads :: "'v visitor \<Rightarrow> byte list \<Rightarrow> nat \<Rightarrow> 'v mp_context \<Rightarrow> nat \<Rightarrow> 'v \<Rightarrow> bool" where
  "reads V data pe c n v \<longleftrightarrow>
     (\<forall>again. \<exists>t cs. exec_loop V data pe again c =
        finish V data pe cs (c\<lparr>m_trail := t, m_current := m_current c + n, m_visitor := v\<rparr>))"

lemma visited_finish:
  assumes "exec_iter V data pe again c = Some (visited V (VTrue, v) c1)"
  shows "\<exists>cs. exec_loop V data pe again c = finish V data pe cs (c1\<lparr>m_current := m_current c1 + 1, m_visitor := v\<rparr>)"
proof -
  obtain ret st v' where sc: "stack_consume V (m_stack c1) v = (ret, st, v')" by (metis prod_cases3)
  show ?thesis
    by (rule exI [of _ "case ret of THROWN x \<Rightarrow> m_cs c1 | _ \<Rightarrow> MSGPACK_CS_HEADER"], subst exec_loop.simps, cases c1)
      (use sc in \<open>auto simp: assms visited_def go_on_def after_visit_proc_def finish_def Let_def split: parse_return.splits\<close>)
qed

lemma reads_visited:
  assumes "\<And>again. exec_iter V data pe again c =
      Some (visited V (VTrue, v) (c\<lparr>m_trail := t, m_cs := x, m_current := m_current c + n - 1\<rparr>))" and "0 < n"
  shows "reads V data pe c n v"
  unfolding reads_def
proof
  fix again
  obtain cs where cs: "exec_loop V data pe again c = finish V data pe cs (c\<lparr>m_trail := t, m_cs := x,
      m_current := m_current c + n, m_visitor := v\<rparr>)"
    using visited_finish [OF assms(1), of again] assms(2) by auto
  have "finish V data pe cs (c\<lparr>m_trail := t, m_cs := x, m_current := m_current c + n, m_visitor := v\<rparr>) =
      finish V data pe cs (c\<lparr>m_trail := t, m_current := m_current c + n, m_visitor := v\<rparr>)"
    using finish_cs [where c = "c\<lparr>m_trail := t, m_current := m_current c + n, m_visitor := v\<rparr>" and x = x]
    by (cases c) simp
  with cs show "\<exists>t cs. exec_loop V data pe again c =
      finish V data pe cs (c\<lparr>m_trail := t, m_current := m_current c + n, m_visitor := v\<rparr>)" by metis
qed

lemma tagged_iter:
  assumes "m_cs c = MSGPACK_CS_HEADER" and "mem_at data (m_current c) = Some b" and "0xc4 \<le> b" "b \<le> 0xdf"
    and "m_current c + 1 + trail_table ! (unat b - 0xc4) \<le> pe"
  shows "exec_iter V data pe again c =
     exec_switch V data (m_current c + 1) (c\<lparr>m_trail := trail_table ! (unat b - 0xc4), m_cs := unat b - 0xc0,
       m_current := m_current c + trail_table ! (unat b - 0xc4)\<rparr>)"
proof -
  have b: "\<not> b \<le> 0x7f" "\<not> 0xe0 \<le> b" using assms(3,4) by (simp_all add: word_le_nat_alt)
  have "exec_header V data c =
      Some (None, True, c\<lparr>m_trail := trail_table ! (unat b - 0xc4), m_cs := unat b - 0xc0\<rparr>)"
    using assms(2-4) b next_cs_trail(1) [OF assms(3,4)] by (simp add: exec_header_def)
  moreover have "\<not> pe - Suc (m_current c) < trail_table ! (unat b - 0xc4)" "unat b - 0xc0 \<noteq> 0"
    using assms(5) next_cs_trail(2) [OF assms(3,4)] by linarith+
  ultimately show ?thesis
    using assms(1) by (cases c) (simp add: exec_iter_def exec_trail_def Let_def)
qed

lemma tagged_reads:
  assumes "m_cs c = MSGPACK_CS_HEADER" and "at_bytes data (m_current c) (b # bs)" and "0xc4 \<le> b" "b \<le> 0xdf"
    and "length bs = trail_table ! (unat b - 0xc4)" and "m_current c + 1 + length bs \<le> pe"
    and "at_bytes data (m_current c + 1) bs \<Longrightarrow>
      exec_switch V data (m_current c + 1) (c\<lparr>m_trail := length bs, m_cs := unat b - 0xc0,
        m_current := m_current c + length bs\<rparr>) =
      Some (visited V (VTrue, v) (c\<lparr>m_trail := length bs, m_cs := unat b - 0xc0,
        m_current := m_current c + length bs\<rparr>))"
  shows "reads V data pe c (length (b # bs)) v"
proof (rule reads_visited)
  fix again
  have "mem_at data (m_current c) = Some b" "at_bytes data (m_current c + 1) bs"
    using assms(2) by (simp_all add: at_bytes_Cons)
  then show "exec_iter V data pe again c = Some (visited V (VTrue, v) (c\<lparr>m_trail := length bs, m_cs := unat b - 0xc0,
      m_current := m_current c + length (b # bs) - 1\<rparr>))"
    using tagged_iter [OF assms(1) _ assms(3,4), of data pe V again] assms(5-7) by simp
qed simp

text \<open>The formats that are one tag and a number.\<close>

lemma tagged_number:
  assumes "m_cs c = MSGPACK_CS_HEADER" and "m_current c + 1 + length bs \<le> pe" and "at_bytes data (m_current c) (b # bs)"
    and "b = 0xcc \<and> bs = [xa] \<and> rv = visit_positive_integer V (ucast xa) (m_visitor c) \<or>
      b = 0xcd \<and> bs = store16 xb \<and> rv = visit_positive_integer V (ucast xb) (m_visitor c) \<or>
      b = 0xce \<and> bs = store32 xc \<and> rv = visit_positive_integer V (ucast xc) (m_visitor c) \<or>
      b = 0xcf \<and> bs = store64 xd \<and> rv = visit_positive_integer V xd (m_visitor c) \<or>
      b = 0xd0 \<and> bs = [xa] \<and> rv = visit_negative_integer V (scast xa) (m_visitor c) \<or>
      b = 0xd1 \<and> bs = store16 xb \<and> rv = visit_negative_integer V (scast xb) (m_visitor c) \<or>
      b = 0xd2 \<and> bs = store32 xc \<and> rv = visit_negative_integer V (scast xc) (m_visitor c) \<or>
      b = 0xd3 \<and> bs = store64 xd \<and> rv = visit_negative_integer V xd (m_visitor c) \<or>
      b = 0xca \<and> bs = store32 xc \<and> rv = visit_float32 V xc (m_visitor c) \<or>
      b = 0xcb \<and> bs = store64 xd \<and> rv = visit_float64 V xd (m_visitor c)"
    and "rv = (VTrue, v)"
  shows "reads V data pe c (length (b # bs)) v"
proof (rule tagged_reads [OF assms(1,3)])
  show "0xc4 \<le> b" "b \<le> 0xdf" "length bs = trail_table ! (unat b - 0xc4)"
    using assms(4) by (auto simp: trail_table_def)
  show "m_current c + 1 + length bs \<le> pe" by (rule assms(2))
  assume "at_bytes data (m_current c + 1) bs"
  then have "mem_range data (m_current c + 1) (length bs) = Some bs" by (simp add: at_bytes_def)
  moreover have "mem_at data (m_current c + 1) = Some x" if "bs = [x]" for x
    using calculation that by (auto simp: mem_range_eq_Some mem_at_eq_Some hd_drop_conv_nth take_Suc)
  ultimately show "exec_switch V data (m_current c + 1) (c\<lparr>m_trail := length bs, m_cs := unat b - 0xc0,
        m_current := m_current c + length bs\<rparr>) =
      Some (visited V (VTrue, v) (c\<lparr>m_trail := length bs, m_cs := unat b - 0xc0,
        m_current := m_current c + length bs\<rparr>))"
    using assms(4,5) by (elim disjE) (auto simp: exec_switch_def exec_number_def load8_def load_store)
qed

subsection \<open>One-byte formats\<close>

lemma header_reads:
  assumes "m_cs c = MSGPACK_CS_HEADER" and "exec_header V data c = Some (visited V (VTrue, v) (c\<lparr>m_trail := t\<rparr>))"
  shows "reads V data pe c 1 v"
proof (rule reads_visited)
  fix again
  obtain ret c' where vis: "visited V (VTrue, v) (c\<lparr>m_trail := t\<rparr>) = (ret, False, c')"
      "ret = None \<longrightarrow> m_cs c' = MSGPACK_CS_HEADER"
    using visited_consumed [of "c\<lparr>m_trail := t\<rparr>" V "(VTrue, v)"] by (auto simp: consumed_def)
  have eq: "c\<lparr>m_trail := t, m_cs := 0, m_current := m_current c + 1 - 1\<rparr> = c\<lparr>m_trail := t\<rparr>"
    using assms(1) by (cases c) simp
  show "exec_iter V data pe again c =
      Some (visited V (VTrue, v) (c\<lparr>m_trail := t, m_cs := 0, m_current := m_current c + 1 - 1\<rparr>))"
    unfolding eq using assms vis by (auto simp: exec_iter_def)
qed simp

lemma fix_reads:
  assumes "m_cs c = MSGPACK_CS_HEADER" and "mem_at data (m_current c) = Some b"
    and "b \<le> 0x7f \<and> rv = visit_positive_integer V (ucast b) (m_visitor c) \<or>
      0xe0 \<le> b \<and> rv = visit_negative_integer V (scast b) (m_visitor c) \<or>
      b = 0xc2 \<and> rv = visit_boolean V False (m_visitor c) \<or> b = 0xc3 \<and> rv = visit_boolean V True (m_visitor c) \<or>
      b = 0xc0 \<and> rv = visit_nil V (m_visitor c)"
    and "rv = (VTrue, v)"
  shows "reads V data pe c 1 v"
proof (rule header_reads [OF assms(1)])
  have "0xe0 \<le> b \<Longrightarrow> \<not> b \<le> 0x7f" by (simp add: word_le_nat_alt)
  then show "exec_header V data c = Some (visited V (VTrue, v) (c\<lparr>m_trail := m_trail c\<rparr>))"
    using assms(2-4) by (elim disjE) (auto simp: exec_header_def)
qed

subsection \<open>Integers\<close>

lemma hd_nat_le: "0 < k \<Longrightarrow> hd (nat_le k n) = of_nat (n mod 256)"
  by (cases k) auto

lemma take8_ucast [simp]: "take8_64 d = ucast d" "take8_8 b = b"
proof -
  have "of_nat (unat d mod 256) = (ucast d :: byte)"
    by (simp add: word_unat_eq_iff unsigned_ucast_eq take_bit_eq_mod unat_of_nat)
  moreover have "of_nat (unat b mod 256) = b"
    using unsigned_less [where w = b and 'a = nat] by simp
  ultimately show "take8_64 d = ucast d" "take8_8 b = b"
    by (simp_all add: take8_64_def take8_8_def hd_nat_le)
qed

lemma length_enc_ints: "0 < length (enc_uint64 d)" "length (enc_uint64 d) \<le> 9" "0 < length (enc_int64 d)" "length (enc_int64 d) \<le> 9"
  by (auto simp: enc_defs pack_defs)

lemma uint64_reads:
  assumes hd: "m_cs c = MSGPACK_CS_HEADER" and at: "at_bytes data (m_current c) (enc_uint64 d)"
    and pe: "m_current c + length (enc_uint64 d) \<le> pe"
    and vis: "visit_positive_integer V d (m_visitor c) = (VTrue, v)"
  shows "reads V data pe c (length (enc_uint64 d)) v"
proof -
  consider "unat d < 2 ^ 7" | "2 ^ 7 \<le> unat d" "unat d < 2 ^ 8" | "2 ^ 8 \<le> unat d" "unat d < 2 ^ 16"
    | "2 ^ 16 \<le> unat d" "unat d < 2 ^ 32" | "2 ^ 32 \<le> unat d" by linarith
  then show ?thesis
  proof cases
    case 1
    then have e: "enc_uint64 d = [ucast d]" by (simp add: enc_defs pack_defs)
    have "(ucast d :: byte) \<le> 0x7f"
      using 1 by (simp add: word_le_nat_alt unsigned_ucast_eq take_bit_nat_eq_self)
    then show ?thesis
      using fix_reads [OF hd, of data "ucast d" "visit_positive_integer V d (m_visitor c)" V v pe] at vis e 1
        ucast_ucast_small [of d, where 'a = 8] by (simp add: at_bytes_Cons)
  next
    case 2
    then have e: "enc_uint64 d = [0xcc, ucast d]" by (simp add: enc_defs pack_defs)
    show ?thesis
      using tagged_number [OF hd, where b = "0xcc" and bs = "[ucast d]" and xa = "ucast d" and V = V and v = v] ucast_ucast_small [of d, where 'a = 8] 2 at pe vis
      by (simp add: e)
  next
    case 3
    then have e: "enc_uint64 d = 0xcd # store16 (ucast d)" by (simp add: enc_defs pack_defs)
    show ?thesis
      using tagged_number [OF hd, where b = "0xcd" and bs = "store16 (ucast d)" and xb = "ucast d" and V = V and v = v] ucast_ucast_small [of d, where 'a = 16] 3 at pe vis
      by (simp add: e)
  next
    case 4
    then have e: "enc_uint64 d = 0xce # store32 (ucast d)" by (simp add: enc_defs pack_defs)
    show ?thesis
      using tagged_number [OF hd, where b = "0xce" and bs = "store32 (ucast d)" and xc = "ucast d" and V = V and v = v] ucast_ucast_small [of d, where 'a = 32] 4 at pe vis
      by (simp add: e)
  next
    case 5
    then have e: "enc_uint64 d = 0xcf # store64 d" by (simp add: enc_defs pack_defs)
    show ?thesis
      using tagged_number [OF hd, where b = "0xcf" and bs = "store64 d" and xd = d and V = V and v = v] 5 at pe vis
      by (simp add: e)
  qed
qed

lemma sint_nonneg: "0 \<le> sint (d :: 64 word) \<Longrightarrow> sint d = int (unat d)"
proof -
  assume "0 \<le> sint d"
  moreover have "sint d < 2 ^ 64" using sint_lt [of d] by simp
  ultimately have "uint d = sint d" by (simp add: uint_sint take_bit_int_eq_self)
  then show ?thesis by simp
qed

lemma enc_int64_nonneg: "0 \<le> sint d \<Longrightarrow> enc_int64 d = enc_uint64 d"
proof -
  assume "0 \<le> sint d"
  then obtain n where n: "sint d = int n" "unat d = n" using sint_nonneg by blast
  show ?thesis by (simp add: enc_defs pack_defs n)
qed

lemma negative_fix: "- 32 \<le> sint (d :: 64 word) \<Longrightarrow> sint d < 0 \<Longrightarrow> (0xe0 :: byte) \<le> ucast d"
proof -
  assume a: "- 32 \<le> sint d" "sint d < 0"
  have d: "uint d = take_bit 64 (sint d)" by (simp add: uint_sint)
  have "uint (ucast d :: byte) = take_bit 8 (take_bit 64 (sint d))"
    by (simp add: unsigned_ucast_eq flip: d)
  also have "\<dots> = take_bit 8 (sint d)" by simp
  also have "\<dots> = sint d mod 256" by (simp add: take_bit_eq_mod)
  also have "\<dots> = (sint d + 256) mod 256" by simp
  also have "\<dots> = sint d + 256" using a by (simp only: mod_pos_pos_trivial)
  finally show ?thesis using a by (simp add: word_le_def)
qed

lemma int64_reads_negative:
  assumes hd: "m_cs c = MSGPACK_CS_HEADER" and at: "at_bytes data (m_current c) (enc_int64 d)"
    and pe: "m_current c + length (enc_int64 d) \<le> pe" and neg: "sint d < 0"
    and vis: "visit_negative_integer V d (m_visitor c) = (VTrue, v)"
  shows "reads V data pe c (length (enc_int64 d)) v"
proof -
  consider "- 32 \<le> sint d" | "- 128 \<le> sint d" "sint d < - 32" | "- 32768 \<le> sint d" "sint d < - 128"
    | "- 2147483648 \<le> sint d" "sint d < - 32768" | "sint d < - 2147483648" by linarith
  then show ?thesis
  proof cases
    case 1
    then have e: "enc_int64 d = [ucast d]" using neg by (simp add: enc_defs pack_defs)
    show ?thesis
      using fix_reads [OF hd, of data "ucast d" "visit_negative_integer V d (m_visitor c)" V v pe] at vis e 1
        negative_fix [OF 1 neg] scast_ucast_small [of d, where 'a = 8] neg by (simp add: at_bytes_Cons)
  next
    case 2
    then have e: "enc_int64 d = [0xd0, ucast d]" by (simp add: enc_defs pack_defs)
    show ?thesis
      using tagged_number [OF hd, where b = "0xd0" and bs = "[ucast d]" and xa = "ucast d" and V = V and v = v]
        scast_ucast_small [of d, where 'a = 8] 2 at pe vis by (simp add: e)
  next
    case 3
    then have e: "enc_int64 d = 0xd1 # store16 (ucast d)" by (simp add: enc_defs pack_defs)
    show ?thesis
      using tagged_number [OF hd, where b = "0xd1" and bs = "store16 (ucast d)" and xb = "ucast d" and V = V and v = v]
        scast_ucast_small [of d, where 'a = 16] 3 at pe vis by (simp add: e)
  next
    case 4
    then have e: "enc_int64 d = 0xd2 # store32 (ucast d)" by (simp add: enc_defs pack_defs)
    show ?thesis
      using tagged_number [OF hd, where b = "0xd2" and bs = "store32 (ucast d)" and xc = "ucast d" and V = V and v = v]
        scast_ucast_small [of d, where 'a = 32] 4 at pe vis by (simp add: e)
  next
    case 5
    then have e: "enc_int64 d = 0xd3 # store64 d" by (simp add: enc_defs pack_defs)
    show ?thesis
      using tagged_number [OF hd, where b = "0xd3" and bs = "store64 d" and xd = d and V = V and v = v] 5 at pe vis
      by (simp add: e)
  qed
qed

subsection \<open>Byte strings\<close>

definition body_visit :: "'v visitor \<Rightarrow> nat \<Rightarrow> byte list \<Rightarrow> 'v \<Rightarrow> vres \<times> 'v" where
  "body_visit V acs = (if acs = MSGPACK_ACS_STR_VALUE then visit_str V
     else if acs = MSGPACK_ACS_BIN_VALUE then visit_bin V else visit_ext V)"

lemma visit_bytes_at:
  assumes "at_bytes data n bs" and "length bs < 2 ^ 32"
  shows "visit_bytes V visit data n (length bs) c = Some (visited V (visit bs (m_visitor c)) c)"
  using assms by (simp add: visit_bytes_def at_bytes_def)

lemma exec_body_at:
  assumes "0x20 \<le> m_cs c" "m_cs c \<le> 0x22" and "at_bytes data n bs" and "length bs < 2 ^ 32" and "m_trail c = length bs"
  shows "exec_switch V data n c = Some (visited V (body_visit V (m_cs c) bs (m_visitor c)) c)"
  using assms visit_bytes_at [OF assms(3,4)] by (auto simp: exec_switch_def exec_body_def body_visit_def)

lemma body_iter:
  assumes "0x20 \<le> m_cs c" "m_cs c \<le> 0x22" and "m_trail c = length bs" and "bs \<noteq> []" and "length bs < 2 ^ 32"
    and "at_bytes data (m_current c + 1) bs" and "m_current c + 1 + length bs \<le> pe"
  shows "exec_trail V data pe True c =
      Some (visited V (body_visit V (m_cs c) bs (m_visitor c)) (c\<lparr>m_current := m_current c + length bs\<rparr>))"
proof -
  have "\<not> pe - Suc (m_current c) < length bs" using assms(7) by linarith
  then show ?thesis
    using exec_body_at [of "c\<lparr>m_current := m_current c + length bs\<rparr>" data "m_current c + 1" bs V] assms
    by (simp add: exec_trail_def Let_def)
qed

text \<open>The tags that carry a small count.\<close>

lemma fix_tags_table:
  "list_all (\<lambda>n. unat ((0xa0 :: byte) OR ucast (of_nat n :: 32 word)) = 160 + n) [0..<32]"
  "list_all (\<lambda>n. unat ((0x90 :: byte) OR ucast (of_nat n :: 32 word)) = 144 + n) [0..<16]"
  "list_all (\<lambda>n. unat ((0x80 :: byte) OR ucast (of_nat n :: 32 word)) = 128 + n) [0..<16]"
  by code_simp+

lemma fix_tags:
  "n < 32 \<Longrightarrow> unat ((0xa0 :: byte) OR ucast (of_nat n :: 32 word)) = 160 + n"
  "n < 16 \<Longrightarrow> unat ((0x90 :: byte) OR ucast (of_nat n :: 32 word)) = 144 + n"
  "n < 16 \<Longrightarrow> unat ((0x80 :: byte) OR ucast (of_nat n :: 32 word)) = 128 + n"
  using fix_tags_table by (simp_all add: list_all_iff)

lemma fixstr_reads:
  assumes hd: "m_cs c = MSGPACK_CS_HEADER" and at: "at_bytes data (m_current c) (b # bs)"
    and ub: "unat b = 160 + length bs" and len: "length bs < 32" and pe: "m_current c + 1 + length bs \<le> pe"
    and vis: "visit_str V bs (m_visitor c) = (VTrue, v)"
  shows "reads V data pe c (1 + length bs) v"
proof -
  have b: "\<not> b \<le> 0x7f" "\<not> 0xe0 \<le> b" "\<not> 0xc4 \<le> b" "0xa0 \<le> b" "b \<le> 0xbf"
    using ub len by (simp_all add: word_le_nat_alt)
  have "(length bs + 5 * 32) mod 32 = length bs" using len by (simp only: mod_mult_self1 mod_less)
  then have low: "unat (b AND 0x1f) = length bs" by (simp add: unat_and_low ub add.commute)
  have a: "mem_at data (m_current c) = Some b" "at_bytes data (m_current c + 1) bs"
    using at by (simp_all add: at_bytes_Cons)
  show ?thesis
  proof (cases "bs = []")
    case True
    then show ?thesis
      using header_reads [OF hd, of V data v 0 pe] a(1) b low vis by (simp add: exec_header_def)
  next
    case False
    let ?c = "c\<lparr>m_trail := length bs, m_cs := 0x20\<rparr>"
    have h: "exec_header V data c = Some (None, True, ?c)"
      using a(1) b low False by (simp add: exec_header_def)
    have "exec_trail V data pe True ?c = Some (visited V (VTrue, v) (?c\<lparr>m_current := m_current c + length bs\<rparr>))"
      using body_iter [of ?c bs data pe V] False len a(2) pe vis by (simp add: body_visit_def)
    then have "exec_iter V data pe again c = Some (visited V (VTrue, v)
        (c\<lparr>m_trail := length bs, m_cs := 0x20, m_current := m_current c + (1 + length bs) - 1\<rparr>))" for again
      using h hd by (simp add: exec_iter_def)
    then show ?thesis by (rule reads_visited) simp
  qed
qed

text \<open>A tag, a length, and a body.\<close>

lemma length_reads:
  assumes hd: "m_cs c = MSGPACK_CS_HEADER" and at: "at_bytes data (m_current c) (b # lb @ bs)"
    and b: "0xc4 \<le> b" "b \<le> 0xdf" and lb: "length lb = trail_table ! (unat b - 0xc4)"
    and acs: "0x20 \<le> acs" "acs \<le> 0x22" and len: "length bs < 2 ^ 32"
    and pe: "m_current c + 1 + length lb + length bs \<le> pe"
    and sw: "\<And>c'. m_cs c' = unat b - 0xc0 \<Longrightarrow> exec_switch V data (m_current c + 1) c' =
      expect_body V (body_visit V acs) acs data (m_current c + 1) (length bs) c'"
    and vis: "body_visit V acs bs (m_visitor c) = (VTrue, v)"
  shows "reads V data pe c (1 + length lb + length bs) v"
proof -
  let ?c = "c\<lparr>m_trail := length lb, m_cs := unat b - 0xc0, m_current := m_current c + length lb\<rparr>"
  have a: "mem_at data (m_current c) = Some b" "at_bytes data (m_current c + 1 + length lb) bs"
    using at by (simp_all add: at_bytes_Cons at_bytes_append)
  have it: "exec_iter V data pe again c =
      expect_body V (body_visit V acs) acs data (m_current c + 1) (length bs) ?c" for again
    using tagged_iter [OF hd a(1) b, of pe V again] pe lb sw [of ?c] by simp
  show ?thesis
  proof (cases "bs = []")
    case True
    have "m_current c + 1 \<le> length data"
      using a(2) by (auto simp: at_bytes_def mem_range_eq_Some)
    then have "exec_iter V data pe again c = Some (visited V (VTrue, v)
        (c\<lparr>m_trail := 0, m_cs := unat b - 0xc0, m_current := m_current c + (1 + length lb + length bs) - 1\<rparr>))" for again
      using it [of again] True vis by (cases c) (simp add: expect_body_def visit_bytes_def)
    then show ?thesis by (rule reads_visited) simp
  next
    case False
    let ?d = "c\<lparr>m_trail := length bs, m_cs := acs, m_current := m_current c + length lb\<rparr>"
    have "expect_body V (body_visit V acs) acs data (m_current c + 1) (length bs) ?c = Some (None, True, ?d)"
      using False by (cases c) (simp add: expect_body_def)
    then have l: "exec_loop V data pe again c = exec_loop V data pe True ?d" for again
      using it [of again] pe False by (subst exec_loop.simps) simp
    have "exec_trail V data pe True ?d = Some (visited V (VTrue, v) (?d\<lparr>m_current := m_current ?d + length bs\<rparr>))"
      using body_iter [of ?d bs data pe V] acs False len a(2) pe vis by (simp add: add.assoc add.commute)
    then have "exec_iter V data pe True ?d = Some (visited V (VTrue, v) (?d\<lparr>m_current := m_current ?d + length bs\<rparr>))"
      using acs by (simp add: exec_iter_def)
    from visited_finish [OF this] obtain cs where
      f: "exec_loop V data pe True ?d = finish V data pe cs (c\<lparr>m_trail := length bs, m_cs := acs,
          m_current := m_current c + (1 + length lb + length bs), m_visitor := v\<rparr>)"
      by (auto simp: add.assoc add.commute add.left_commute)
    have "finish V data pe cs (c\<lparr>m_trail := length bs, m_cs := acs,
          m_current := m_current c + (1 + length lb + length bs), m_visitor := v\<rparr>) =
        finish V data pe cs (c\<lparr>m_trail := length bs,
          m_current := m_current c + (1 + length lb + length bs), m_visitor := v\<rparr>)"
      using finish_cs [where x = acs and c = "c\<lparr>m_trail := length bs,
          m_current := m_current c + (1 + length lb + length bs), m_visitor := v\<rparr>"] by (cases c) simp
    with f l show ?thesis unfolding reads_def by metis
  qed
qed

lemma small_unat:
  "unat (x :: 32 word) < 2 ^ 8 \<Longrightarrow> unat (ucast x :: 8 word) = unat x"
  "unat x < 2 ^ 16 \<Longrightarrow> unat (ucast x :: 16 word) = unat x"
  "unat (y :: 64 word) < 2 ^ 8 \<Longrightarrow> unat (ucast y :: 8 word) = unat y"
  "unat y < 2 ^ 16 \<Longrightarrow> unat (ucast y :: 16 word) = unat y"
  "unat y < 2 ^ 32 \<Longrightarrow> unat (ucast y :: 32 word) = unat y"
  by (simp_all add: unsigned_ucast_eq take_bit_nat_eq_self)

text \<open>The loads of a length that was stored behind its tag.\<close>

lemma load8_at: "at_bytes data i (b # xa # bs) \<Longrightarrow> load8 data (i + 1) = Some xa"
  by (simp add: at_bytes_Cons load8_def)

lemma load16_at: "at_bytes data i (b # store16 xb @ bs) \<Longrightarrow> load16 data (i + 1) = Some xb"
  by (rule load_store) (auto simp: at_bytes_Cons at_bytes_append at_bytes_def [of data "Suc i"])

lemma load32_at: "at_bytes data i (b # store32 xc @ bs) \<Longrightarrow> load32 data (i + 1) = Some xc"
  by (rule load_store) (auto simp: at_bytes_Cons at_bytes_append at_bytes_def [of data "Suc i"])

lemma str_reads:
  assumes hd: "m_cs c = MSGPACK_CS_HEADER" and at: "at_bytes data (m_current c) (enc_str (of_nat (length bs)) @ bs)"
    and len: "length bs < 2 ^ 32" and pe: "m_current c + length (enc_str (of_nat (length bs)) @ bs) \<le> pe"
    and vis: "visit_str V bs (m_visitor c) = (VTrue, v)"
  shows "reads V data pe c (length (enc_str (of_nat (length bs)) @ bs)) v"
proof -
  let ?l = "of_nat (length bs) :: 32 word"
  have l: "unat ?l = length bs" using len by (simp add: unat_of_nat_small)
  have vis': "body_visit V 0x20 bs (m_visitor c) = (VTrue, v)" using vis by (simp add: body_visit_def)
  consider "length bs < 32" | "32 \<le> length bs" "length bs < 2 ^ 8" | "2 ^ 8 \<le> length bs" "length bs < 2 ^ 16"
    | "2 ^ 16 \<le> length bs" by linarith
  then show ?thesis
  proof cases
    case 1
    then have e: "enc_str ?l = [0xa0 OR ucast ?l]" by (simp add: enc_defs pack_defs word_less_nat_alt l)
    show ?thesis
      using fixstr_reads [OF hd, of data "0xa0 OR ucast ?l" bs pe V v] at 1 pe vis fix_tags(1) [of "length bs"]
      by (simp add: e)
  next
    case 2
    then have e: "enc_str ?l = [0xd9, ucast ?l]" by (simp add: enc_defs pack_defs word_less_nat_alt l)
    show ?thesis
      using length_reads [OF hd, of data "0xd9" "[ucast ?l]" bs "0x20" pe V v] at pe vis' len 2
        load8_at [of data "m_current c" "0xd9" "ucast ?l" bs]
      by (simp add: e trail_table_def exec_switch_def exec_length_def small_unat l body_visit_def)
  next
    case 3
    then have e: "enc_str ?l = 0xda # store16 (ucast ?l)" by (simp add: enc_defs pack_defs word_less_nat_alt l)
    show ?thesis
      using length_reads [OF hd, of data "0xda" "store16 (ucast ?l)" bs "0x20" pe V v] at pe vis' len 3
        load16_at [of data "m_current c" "0xda" "ucast ?l" bs]
      by (simp add: e trail_table_def exec_switch_def exec_length_def small_unat l body_visit_def)
  next
    case 4
    then have e: "enc_str ?l = 0xdb # store32 ?l" by (simp add: enc_defs pack_defs word_less_nat_alt l)
    show ?thesis
      using length_reads [OF hd, of data "0xdb" "store32 ?l" bs "0x20" pe V v] at pe vis' len 4
        load32_at [of data "m_current c" "0xdb" ?l bs]
      by (simp add: e trail_table_def exec_switch_def exec_length_def l body_visit_def)
  qed
qed

lemma bin_reads:
  assumes hd: "m_cs c = MSGPACK_CS_HEADER" and at: "at_bytes data (m_current c) (enc_bin (of_nat (length bs)) @ bs)"
    and len: "length bs < 2 ^ 32" and pe: "m_current c + length (enc_bin (of_nat (length bs)) @ bs) \<le> pe"
    and vis: "visit_bin V bs (m_visitor c) = (VTrue, v)"
  shows "reads V data pe c (length (enc_bin (of_nat (length bs)) @ bs)) v"
proof -
  let ?l = "of_nat (length bs) :: 32 word"
  have l: "unat ?l = length bs" using len by (simp add: unat_of_nat_small)
  have vis': "body_visit V 0x21 bs (m_visitor c) = (VTrue, v)" using vis by (simp add: body_visit_def)
  consider "length bs < 2 ^ 8" | "2 ^ 8 \<le> length bs" "length bs < 2 ^ 16" | "2 ^ 16 \<le> length bs" by linarith
  then show ?thesis
  proof cases
    case 1
    then have e: "enc_bin ?l = [0xc4, ucast ?l]" by (simp add: enc_defs pack_defs word_less_nat_alt l)
    show ?thesis
      using length_reads [OF hd, of data "0xc4" "[ucast ?l]" bs "0x21" pe V v] at pe vis' len 1
        load8_at [of data "m_current c" "0xc4" "ucast ?l" bs]
      by (simp add: e trail_table_def exec_switch_def exec_length_def small_unat l body_visit_def)
  next
    case 2
    then have e: "enc_bin ?l = 0xc5 # store16 (ucast ?l)" by (simp add: enc_defs pack_defs word_less_nat_alt l)
    show ?thesis
      using length_reads [OF hd, of data "0xc5" "store16 (ucast ?l)" bs "0x21" pe V v] at pe vis' len 2
        load16_at [of data "m_current c" "0xc5" "ucast ?l" bs]
      by (simp add: e trail_table_def exec_switch_def exec_length_def small_unat l body_visit_def)
  next
    case 3
    then have e: "enc_bin ?l = 0xc6 # store32 ?l" by (simp add: enc_defs pack_defs word_less_nat_alt l)
    show ?thesis
      using length_reads [OF hd, of data "0xc6" "store32 ?l" bs "0x21" pe V v] at pe vis' len 3
        load32_at [of data "m_current c" "0xc6" ?l bs]
      by (simp add: e trail_table_def exec_switch_def exec_length_def l body_visit_def)
  qed
qed

lemma fixext_reads:
  assumes hd: "m_cs c = MSGPACK_CS_HEADER" and at: "at_bytes data (m_current c) (b # bs)"
    and b: "(b, length bs) \<in> {(0xd4, 2), (0xd5, 3), (0xd6, 5), (0xd7, 9), (0xd8, 17)}"
    and pe: "m_current c + 1 + length bs \<le> pe" and vis: "visit_ext V bs (m_visitor c) = (VTrue, v)"
  shows "reads V data pe c (length (b # bs)) v"
proof (rule tagged_reads [OF hd at])
  show "0xc4 \<le> b" "b \<le> 0xdf" "length bs = trail_table ! (unat b - 0xc4)" "m_current c + 1 + length bs \<le> pe"
    using b pe by (auto simp: trail_table_def)
  assume "at_bytes data (m_current c + 1) bs"
  moreover have "length bs < 2 ^ 32" using b by auto
  ultimately have "visit_bytes V (visit_ext V) data (m_current c + 1) (length bs) c' =
      Some (visited V (visit_ext V bs (m_visitor c')) c')" for c' by (rule visit_bytes_at)
  moreover have "exec_switch V data (m_current c + 1) c' = visit_bytes V (visit_ext V) data (m_current c + 1) (length bs) c'"
    if "m_cs c' = unat b - 0xc0" for c'
    using b that by (elim insertE) (simp_all add: exec_switch_def exec_fixext_def)
  ultimately show "exec_switch V data (m_current c + 1) (c\<lparr>m_trail := length bs, m_cs := unat b - 0xc0,
        m_current := m_current c + length bs\<rparr>) =
      Some (visited V (VTrue, v) (c\<lparr>m_trail := length bs, m_cs := unat b - 0xc0,
        m_current := m_current c + length bs\<rparr>))"
    using vis by simp
qed

lemma ext_reads:
  assumes hd: "m_cs c = MSGPACK_CS_HEADER" and at: "at_bytes data (m_current c) (enc_ext (of_nat (length bs - 1)) (hd bs) @ tl bs)"
    and len: "bs \<noteq> []" "length bs < 2 ^ 32"
    and pe: "m_current c + length (enc_ext (of_nat (length bs - 1)) (hd bs) @ tl bs) \<le> pe"
    and vis: "visit_ext V bs (m_visitor c) = (VTrue, v)"
  shows "reads V data pe c (length (enc_ext (of_nat (length bs - 1)) (hd bs) @ tl bs)) v"
proof -
  define n where "n = length bs - 1"
  let ?l = "of_nat n :: 64 word"
  have n: "length bs = Suc n" "n < 2 ^ 32" using len by (auto simp: n_def)
  then have l: "unat ?l = n" by (simp add: unat_of_nat)
  have bs: "hd bs # tl bs = bs" using len(1) by simp
  have vis': "body_visit V 0x22 bs (m_visitor c) = (VTrue, v)" using vis by (simp add: body_visit_def)
  consider (ef) b where "enc_ext ?l (hd bs) = [b, hd bs]"
      "(b, length bs) \<in> {(0xd4, 2), (0xd5, 3), (0xd6, 5), (0xd7, 9), (0xd8, 17)}"
    | (e8) "enc_ext ?l (hd bs) = [0xc7, ucast ?l, hd bs]" "n < 2 ^ 8"
    | (e16) "enc_ext ?l (hd bs) = 0xc8 # store16 (ucast ?l) @ [hd bs]" "n < 2 ^ 16"
    | (e32) "enc_ext ?l (hd bs) = 0xc9 # store32 (ucast ?l) @ [hd bs]"
  proof -
    have "?l = 1 \<longleftrightarrow> n = 1" "?l = 2 \<longleftrightarrow> n = 2" "?l = 4 \<longleftrightarrow> n = 4" "?l = 8 \<longleftrightarrow> n = 8" "?l = 16 \<longleftrightarrow> n = 16"
        "?l < 256 \<longleftrightarrow> n < 256" "?l < 65536 \<longleftrightarrow> n < 65536"
      by (simp_all add: word_unat_eq_iff word_less_nat_alt l del: of_nat_eq_1_iff)
    then have e: "enc_ext ?l (hd bs) =
        (if n = 1 then [0xd4, hd bs] else if n = 2 then [0xd5, hd bs] else if n = 4 then [0xd6, hd bs]
         else if n = 8 then [0xd7, hd bs] else if n = 16 then [0xd8, hd bs]
         else if n < 256 then [0xc7, ucast ?l, hd bs]
         else if n < 65536 then 0xc8 # store16 (ucast ?l) @ [hd bs] else 0xc9 # store32 (ucast ?l) @ [hd bs])"
      by (simp add: enc_defs pack_defs)
    consider "n = 1" | "n = 2" | "n = 4" | "n = 8" | "n = 16" | "n \<notin> {1, 2, 4, 8, 16}" by blast
    then show thesis
      by cases (use e n(1) ef e8 e16 e32 in \<open>auto split: if_splits\<close>)
  qed
  then show ?thesis
  proof cases
    case ef
    then show ?thesis using fixext_reads [OF hd, of data b bs pe V v] at pe vis bs n(1) by simp
  next
    case e8
    then show ?thesis
      using length_reads [OF hd, of data "0xc7" "[ucast ?l]" bs "0x22" pe V v] at pe vis' len n bs
        load8_at [of data "m_current c" "0xc7" "ucast ?l" bs]
      by (simp add: n_def [symmetric] trail_table_def exec_switch_def exec_length_def small_unat l body_visit_def)
  next
    case e16
    then show ?thesis
      using length_reads [OF hd, of data "0xc8" "store16 (ucast ?l)" bs "0x22" pe V v] at pe vis' len n bs
        load16_at [of data "m_current c" "0xc8" "ucast ?l" bs]
      by (simp add: n_def [symmetric] trail_table_def exec_switch_def exec_length_def small_unat l body_visit_def)
  next
    case e32
    then show ?thesis
      using length_reads [OF hd, of data "0xc9" "store32 (ucast ?l)" bs "0x22" pe V v] at pe vis' len n bs
        load32_at [of data "m_current c" "0xc9" "ucast ?l" bs]
      by (simp add: n_def [symmetric] trail_table_def exec_switch_def exec_length_def small_unat l body_visit_def)
  qed
qed

subsection \<open>Containers\<close>

lemma agg_empty:
  assumes "exec_iter V data pe again c = Some (go_on (start_aggregate V sv ev ct 0 c1))"
    and "sv 0 (m_visitor c1) = (VTrue, v)" and "ev v = (VTrue, v')"
  shows "\<exists>cs. exec_loop V data pe again c = finish V data pe cs (c1\<lparr>m_current := m_current c1 + 1, m_visitor := v'\<rparr>)"
proof -
  obtain ret st v'' where sc: "stack_consume V (m_stack c1) v' = (ret, st, v'')" by (metis prod_cases3)
  show ?thesis
    by (rule exI [of _ "m_cs c1"], subst exec_loop.simps, cases c1)
      (use assms sc in \<open>auto simp: go_on_def start_aggregate_def finish_def Let_def\<close>)
qed

lemma agg_push:
  assumes "exec_iter V data pe again c = Some (go_on (start_aggregate V sv ev ct num c1))" and "num \<noteq> 0"
    and "sv num (m_visitor c1) = (VTrue, v)" and "stack_push V ct num (m_stack c1) v = (PARSE_CONTINUE, st, v')"
    and "m_current c1 + 1 \<noteq> pe"
  shows "exec_loop V data pe again c =
     exec_loop V data pe False (c1\<lparr>m_cs := MSGPACK_CS_HEADER, m_stack := st, m_current := m_current c1 + 1, m_visitor := v'\<rparr>)"
  by (subst exec_loop.simps, cases c1) (use assms in \<open>simp add: go_on_def start_aggregate_def Let_def\<close>)

text \<open>The header of a container.\<close>

lemma header_agg:
  assumes "m_cs c = MSGPACK_CS_HEADER" and "exec_header V data c = Some (go_on (start_aggregate V sv ev ct num c))"
  shows "exec_iter V data pe again c = Some (go_on (start_aggregate V sv ev ct num c))"
proof -
  obtain ret c' where "go_on (start_aggregate V sv ev ct num c) = (ret, False, c')"
      "ret = None \<longrightarrow> m_cs c' = MSGPACK_CS_HEADER"
    using start_aggregate_consumed [of c V sv ev ct num] by (auto simp: consumed_def)
  then show ?thesis using assms by (auto simp: exec_iter_def)
qed

lemma load_fix_at:
  assumes "mem_at data i = Some b" and "unat b = k + 16 * j" and "k < 16"
  shows "load_fix data i = Some (of_nat k)"
proof -
  have "unat (b AND 0x0f) = k"
    using assms(2,3) unat_and_low(2) [of b] by (simp only: mod_mult_self2 mod_less)
  moreover have "ucast b AND (0x0f :: 32 word) = ucast (b AND 0x0f)" by (simp add: unsigned_and_eq)
  ultimately have "ucast b AND (0x0f :: 32 word) = of_nat k" by (metis of_nat_unat)
  then show ?thesis using assms(1) by (simp add: load_fix_def)
qed

lemma array_header:
  assumes "m_cs c = MSGPACK_CS_HEADER" and "k < 2 ^ 32" and "at_bytes data (m_current c) (enc_array (of_nat k))"
    and "m_current c + length (enc_array (of_nat k)) \<le> pe"
  shows "\<exists>t x. \<forall>again. exec_iter V data pe again c = Some (go_on (start_array_agg V (of_nat k)
     (c\<lparr>m_trail := t, m_cs := x, m_current := m_current c + length (enc_array (of_nat k)) - 1\<rparr>)))"
proof -
  let ?k = "of_nat k :: 32 word"
  have u: "unat ?k = k" using assms(2) by (simp add: unat_of_nat_small)
  have same: "c\<lparr>m_trail := m_trail c, m_cs := 0, m_current := m_current c\<rparr> = c" using assms(1) by (cases c) simp
  consider "k < 16" | "16 \<le> k" "k < 2 ^ 16" | "2 ^ 16 \<le> k" by linarith
  then show ?thesis
  proof cases
    case 1
    then have e: "enc_array ?k = [0x90 OR ucast ?k]" by (simp add: enc_defs pack_defs word_less_nat_alt u)
    have b: "mem_at data (m_current c) = Some (0x90 OR ucast ?k)" using assms(3) by (simp add: e at_bytes_Cons)
    have ub: "unat ((0x90 :: byte) OR ucast ?k) = k + 16 * 9" using fix_tags(2) [OF 1] by simp
    have "exec_header V data c = Some (go_on (start_array_agg V ?k c))"
      using b ub 1 load_fix_at [OF b ub 1] by (simp add: exec_header_def word_le_nat_alt)
    note h = this
    show ?thesis
      by (rule exI [of _ "m_trail c"], rule exI [of _ 0]) (use h header_agg [OF assms(1), of V data _ _ _ _ pe] same in \<open>simp add: e start_array_agg_def\<close>)
  next
    case 2
    then have e: "enc_array ?k = 0xdc # store16 (ucast ?k)" by (simp add: enc_defs pack_defs word_less_nat_alt u)
    have k: "ucast (ucast ?k :: 16 word) = ?k" using 2 by (simp add: word_unat_eq_iff u unsigned_ucast_eq unsigned_take_bit_eq take_bit_nat_eq_self)
    show ?thesis
      by (rule exI [of _ 2], rule exI [of _ 28]) (use tagged_iter [OF assms(1), of data "0xdc" pe V] load16_at [of data "m_current c" "0xdc" "ucast ?k" "[]"] assms(3,4) k in \<open>simp add: e at_bytes_Cons trail_table_def exec_switch_def exec_aggregate_def\<close>)
  next
    case 3
    then have e: "enc_array ?k = 0xdd # store32 ?k" by (simp add: enc_defs pack_defs word_less_nat_alt u)
    show ?thesis
      by (rule exI [of _ 4], rule exI [of _ 29]) (use tagged_iter [OF assms(1), of data "0xdd" pe V] load32_at [of data "m_current c" "0xdd" ?k "[]"] assms(3,4) in \<open>simp add: e at_bytes_Cons trail_table_def exec_switch_def exec_aggregate_def add.commute [of 4 "m_current c"]\<close>)
  qed
qed

lemma map_header:
  assumes "m_cs c = MSGPACK_CS_HEADER" and "k < 2 ^ 32" and "at_bytes data (m_current c) (enc_map (of_nat k))"
    and "m_current c + length (enc_map (of_nat k)) \<le> pe"
  shows "\<exists>t x. \<forall>again. exec_iter V data pe again c = Some (go_on (start_map_agg V (of_nat k)
     (c\<lparr>m_trail := t, m_cs := x, m_current := m_current c + length (enc_map (of_nat k)) - 1\<rparr>)))"
proof -
  let ?k = "of_nat k :: 32 word"
  have u: "unat ?k = k" using assms(2) by (simp add: unat_of_nat_small)
  have same: "c\<lparr>m_trail := m_trail c, m_cs := 0, m_current := m_current c\<rparr> = c" using assms(1) by (cases c) simp
  consider "k < 16" | "16 \<le> k" "k < 2 ^ 16" | "2 ^ 16 \<le> k" by linarith
  then show ?thesis
  proof cases
    case 1
    then have e: "enc_map ?k = [0x80 OR ucast ?k]" by (simp add: enc_defs pack_defs word_less_nat_alt u)
    have b: "mem_at data (m_current c) = Some (0x80 OR ucast ?k)" using assms(3) by (simp add: e at_bytes_Cons)
    have ub: "unat ((0x80 :: byte) OR ucast ?k) = k + 16 * 8" using fix_tags(3) [OF 1] by simp
    have "exec_header V data c = Some (go_on (start_map_agg V ?k c))"
      using b ub 1 load_fix_at [OF b ub 1] by (simp add: exec_header_def word_le_nat_alt)
    note h = this
    show ?thesis
      by (rule exI [of _ "m_trail c"], rule exI [of _ 0]) (use h header_agg [OF assms(1), of V data _ _ _ _ pe] same in \<open>simp add: e start_map_agg_def\<close>)
  next
    case 2
    then have e: "enc_map ?k = 0xde # store16 (ucast ?k)" by (simp add: enc_defs pack_defs word_less_nat_alt u)
    have k: "ucast (ucast ?k :: 16 word) = ?k" using 2 by (simp add: word_unat_eq_iff u unsigned_ucast_eq unsigned_take_bit_eq take_bit_nat_eq_self)
    show ?thesis
      by (rule exI [of _ 2], rule exI [of _ 30]) (use tagged_iter [OF assms(1), of data "0xde" pe V] load16_at [of data "m_current c" "0xde" "ucast ?k" "[]"] assms(3,4) k in \<open>simp add: e at_bytes_Cons trail_table_def exec_switch_def exec_aggregate_def\<close>)
  next
    case 3
    then have e: "enc_map ?k = 0xdf # store32 ?k" by (simp add: enc_defs pack_defs word_less_nat_alt u)
    show ?thesis
      by (rule exI [of _ 4], rule exI [of _ 31]) (use tagged_iter [OF assms(1), of data "0xdf" pe V] load32_at [of data "m_current c" "0xdf" ?k "[]"] assms(3,4) in \<open>simp add: e at_bytes_Cons trail_table_def exec_switch_def exec_aggregate_def add.commute [of 4 "m_current c"]\<close>)
  qed
qed

lemma enc_value_nonempty: "0 < length (enc_value fp ob)"
  by (cases ob) (auto simp: length_enc_ints enc_defs pack_defs)

lemma enc_values_empty: "enc_values fp os = [] \<longleftrightarrow> os = []"
  using enc_value_nonempty by (cases os) auto

lemma enc_pairs_empty: "enc_pairs fp kvs = [] \<longleftrightarrow> kvs = []"
  using enc_value_nonempty by (cases kvs rule: list.exhaust [case_names Nil Cons]; (case_tac "hd kvs")?) auto

text \<open>What the loop does on a value, whatever surrounds it.\<close>

definition value_reads :: "fpu \<Rightarrow> 'v visitor \<Rightarrow> mobj \<Rightarrow> bool" where
  "value_reads fp V ob \<longleftrightarrow>
     (\<forall>data pe c v. m_cs c = MSGPACK_CS_HEADER \<and> at_bytes data (m_current c) (enc_value fp ob) \<and>
        m_current c + length (enc_value fp ob) \<le> pe \<and> visit_obj fp V ob (m_visitor c) = Some v \<longrightarrow>
        reads V data pe c (length (enc_value fp ob)) v)"

lemma value_readsD:
  assumes "value_reads fp V ob" and "m_cs c = MSGPACK_CS_HEADER" and "at_bytes data (m_current c) (enc_value fp ob)"
    and "m_current c + length (enc_value fp ob) \<le> pe" and "visit_obj fp V ob (m_visitor c) = Some v"
  shows "\<exists>t cs. exec_loop V data pe again c =
     finish V data pe cs (c\<lparr>m_trail := t, m_current := m_current c + length (enc_value fp ob), m_visitor := v\<rparr>)"
proof -
  have "reads V data pe c (length (enc_value fp ob)) v"
    using assms unfolding value_reads_def by blast
  then show ?thesis by (simp add: reads_def)
qed

lemma of_nat_pred: "of_nat (Suc n) - 1 = (of_nat n :: 32 word)" "Suc n < 2 ^ 32 \<Longrightarrow> (of_nat n :: 32 word) = 0 \<longleftrightarrow> n = 0"
  by (simp_all add: word_unat_eq_iff unat_of_nat_small)

lemma items_read:
  assumes "\<forall>x \<in> set (ob # os). value_reads fp V x" and "length (ob # os) < 2 ^ 32"
    and "m_cs c = MSGPACK_CS_HEADER" and "m_stack c = (MSGPACK_CT_ARRAY_ITEM, of_nat (length (ob # os))) # st"
    and "at_bytes data (m_current c) (enc_values fp (ob # os))" and "m_current c + length (enc_values fp (ob # os)) \<le> pe"
    and "visit_obj fp V ob (m_visitor c) = Some v1" and "end_array_item V v1 = (VTrue, v2)"
    and "visit_items fp V os v2 = Some v3" and "end_array V v3 = (VTrue, v4)"
  shows "\<exists>t cs. exec_loop V data pe again c = finish V data pe cs
     (c\<lparr>m_trail := t, m_stack := st, m_current := m_current c + length (enc_values fp (ob # os)), m_visitor := v4\<rparr>)"
  using assms
proof (induction os arbitrary: ob c v1 v2 again)
  case Nil
  have "at_bytes data (m_current c) (enc_value fp ob)" "m_current c + length (enc_value fp ob) \<le> pe" "value_reads fp V ob"
    using Nil.prems by simp_all
  from value_readsD [OF this(3) Nil.prems(3) this(1,2) Nil.prems(7)]
  obtain t cs where r: "exec_loop V data pe again c = finish V data pe cs
      (c\<lparr>m_trail := t, m_current := m_current c + length (enc_value fp ob), m_visitor := v1\<rparr>)" by blast
  then show ?case using Nil.prems
    by (intro exI [of _ t] exI [of _ cs]) (cases c, simp add: finish_def)
next
  case (Cons ob' os)
  let ?n = "length (enc_value fp ob)"
  have "at_bytes data (m_current c) (enc_value fp ob)" "m_current c + ?n \<le> pe" "value_reads fp V ob"
    using Cons.prems(1,5,6) by (simp_all add: at_bytes_append)
  from value_readsD [OF this(3) Cons.prems(3) this(1,2) Cons.prems(7)]
  obtain t cs where r: "exec_loop V data pe again c = finish V data pe cs
      (c\<lparr>m_trail := t, m_current := m_current c + ?n, m_visitor := v1\<rparr>)" by blast
  obtain v2' v1' v2'' where v: "start_array_item V v2 = (VTrue, v2')" "visit_obj fp V ob' v2' = Some v1'"
      "end_array_item V v1' = (VTrue, v2'')" "visit_items fp V os v2'' = Some v3"
    using Cons.prems(9) by (auto simp: bind_eq_Some_conv)
  define c' where "c' = c\<lparr>m_trail := t, m_cs := 0, m_stack := (MSGPACK_CT_ARRAY_ITEM, of_nat (length (ob' # os))) # st,
      m_current := m_current c + ?n, m_visitor := v2'\<rparr>"
  have ne: "m_current c + ?n \<noteq> pe" using Cons.prems(6) enc_value_nonempty [of fp ob'] by auto
  have "stack_consume V (m_stack c) v1 = (PARSE_CONTINUE, (MSGPACK_CT_ARRAY_ITEM, of_nat (length (ob' # os))) # st, v2')"
    using Cons.prems(2,4,8) v(1) of_nat_pred [of "length (ob' # os)"] by (simp add: ret_of_def del: of_nat_Suc)
  then have "exec_loop V data pe again c = exec_loop V data pe False c'"
    using r ne by (cases c) (simp add: finish_def c'_def)
  moreover have "\<exists>t cs. exec_loop V data pe False c' = finish V data pe cs
     (c'\<lparr>m_trail := t, m_stack := st, m_current := m_current c' + length (enc_values fp (ob' # os)), m_visitor := v4\<rparr>)"
    by (rule Cons.IH [where ?v1.0 = v1' and ?v2.0 = v2''])
      (use Cons.prems v in \<open>simp_all add: c'_def at_bytes_append\<close>)
  ultimately show ?case using Cons.prems(3) by (cases c) (auto simp: c'_def add.assoc)
qed

text \<open>A key, and the value of a pair up to the callback that ends it.\<close>

lemma key_read:
  assumes "value_reads fp V k" and "m_cs c = MSGPACK_CS_HEADER" and "m_stack c = (MSGPACK_CT_MAP_KEY, r) # st"
    and "at_bytes data (m_current c) (enc_value fp k)" and "m_current c + length (enc_value fp k) < pe"
    and "visit_obj fp V k (m_visitor c) = Some u1" and "end_map_key V u1 = (VTrue, u2)" and "start_map_value V u2 = (VTrue, u3)"
  shows "\<exists>t. exec_loop V data pe again c = exec_loop V data pe False (c\<lparr>m_trail := t, m_cs := MSGPACK_CS_HEADER,
     m_stack := (MSGPACK_CT_MAP_VALUE, r) # st, m_current := m_current c + length (enc_value fp k), m_visitor := u3\<rparr>)"
proof -
  have pe: "m_current c + length (enc_value fp k) \<le> pe" using assms(5) by simp
  from value_readsD [OF assms(1,2,4) pe assms(6)]
  obtain t cs where "exec_loop V data pe again c = finish V data pe cs
      (c\<lparr>m_trail := t, m_current := m_current c + length (enc_value fp k), m_visitor := u1\<rparr>)" by blast
  then have "exec_loop V data pe again c = exec_loop V data pe False (c\<lparr>m_trail := t, m_cs := MSGPACK_CS_HEADER,
     m_stack := (MSGPACK_CT_MAP_VALUE, r) # st, m_current := m_current c + length (enc_value fp k), m_visitor := u3\<rparr>)"
    using assms(3,5,7,8) by (cases c) (simp add: finish_def)
  then show ?thesis by blast
qed

lemma pairs_read:
  assumes "\<forall>y \<in> set (KV k x # kvs). case y of KV a b \<Rightarrow> value_reads fp V a \<and> value_reads fp V b"
    and "length (KV k x # kvs) < 2 ^ 32"
    and "m_cs c = MSGPACK_CS_HEADER" and "m_stack c = (MSGPACK_CT_MAP_KEY, of_nat (length (KV k x # kvs))) # st"
    and "at_bytes data (m_current c) (enc_pairs fp (KV k x # kvs))" and "m_current c + length (enc_pairs fp (KV k x # kvs)) \<le> pe"
    and "visit_obj fp V k (m_visitor c) = Some u1" and "end_map_key V u1 = (VTrue, u2)" and "start_map_value V u2 = (VTrue, u3)"
    and "visit_obj fp V x u3 = Some v1" and "end_map_value V v1 = (VTrue, v2)"
    and "visit_pairs fp V kvs v2 = Some v3" and "end_map V v3 = (VTrue, v4)"
  shows "\<exists>t cs. exec_loop V data pe again c = finish V data pe cs
     (c\<lparr>m_trail := t, m_stack := st, m_current := m_current c + length (enc_pairs fp (KV k x # kvs)), m_visitor := v4\<rparr>)"
  using assms
proof (induction kvs arbitrary: k x c u1 u2 u3 v1 v2 again)
  case (Nil k x c u1 u2 u3 v1 v2 again)
  let ?k = "length (enc_value fp k)" and ?x = "length (enc_value fp x)"
  define d where "d t = c\<lparr>m_trail := t, m_cs := MSGPACK_CS_HEADER, m_stack := (MSGPACK_CT_MAP_VALUE, of_nat (length [KV k x])) # st,
      m_current := m_current c + ?k, m_visitor := u3\<rparr>" for t
  have a: "at_bytes data (m_current c) (enc_value fp k)" "at_bytes data (m_current c + ?k) (enc_value fp x)"
      "m_current c + ?k + ?x \<le> pe" "value_reads fp V k" "value_reads fp V x"
    using Nil.prems(1,5,6) by (auto simp: at_bytes_append)
  have less: "m_current c + ?k < pe" using a(3) enc_value_nonempty [of fp x] by linarith
  obtain t where k: "exec_loop V data pe again c = exec_loop V data pe False (d t)"
    using key_read [OF a(4) Nil.prems(3,4) a(1) less Nil.prems(7-9)] by (auto simp: d_def)
  obtain t' cs where "exec_loop V data pe False (d t) = finish V data pe cs
      ((d t)\<lparr>m_trail := t', m_current := m_current (d t) + ?x, m_visitor := v1\<rparr>)"
    using value_readsD [OF a(5), of "d t" data pe v1 False] a(2,3) Nil.prems(10) by (auto simp: d_def)
  then show ?case using Nil.prems k
    by (intro exI [of _ t'] exI [of _ cs]) (cases c, simp add: finish_def d_def add.assoc)
next
  case (Cons kv kvs k x c u1 u2 u3 v1 v2 again)
  obtain k' x' where kv: "kv = KV k' x'" by (cases kv)
  let ?k = "length (enc_value fp k)" and ?x = "length (enc_value fp x)" and ?r = "of_nat (length (KV k x # kv # kvs)) :: 32 word"
  define d where "d t = c\<lparr>m_trail := t, m_cs := MSGPACK_CS_HEADER, m_stack := (MSGPACK_CT_MAP_VALUE, ?r) # st,
      m_current := m_current c + ?k, m_visitor := u3\<rparr>" for t
  have a: "at_bytes data (m_current c) (enc_value fp k)" "at_bytes data (m_current c + ?k) (enc_value fp x)"
      "m_current c + ?k + ?x + length (enc_value fp k') \<le> pe" "value_reads fp V k" "value_reads fp V x"
    using Cons.prems(1,5,6) by (auto simp: at_bytes_append kv)
  have less: "m_current c + ?k < pe" "m_current c + ?k + ?x < pe" "m_current c + ?k + ?x \<le> pe"
    using a(3) enc_value_nonempty [of fp x] enc_value_nonempty [of fp k'] by linarith+
  obtain t where l: "exec_loop V data pe again c = exec_loop V data pe False (d t)"
    using key_read [OF a(4) Cons.prems(3,4) a(1) less(1) Cons.prems(7-9)] by (auto simp: d_def)
  obtain t' cs where f: "exec_loop V data pe False (d t) = finish V data pe cs
      ((d t)\<lparr>m_trail := t', m_current := m_current (d t) + ?x, m_visitor := v1\<rparr>)"
    using value_readsD [OF a(5), of "d t" data pe v1 False] a(2) less(3) Cons.prems(10) by (auto simp: d_def)
  obtain w0 w1 w2 w3 w4 w5 where w: "start_map_key V v2 = (VTrue, w0)" "visit_obj fp V k' w0 = Some w1"
      "end_map_key V w1 = (VTrue, w2)" "start_map_value V w2 = (VTrue, w3)" "visit_obj fp V x' w3 = Some w4"
      "end_map_value V w4 = (VTrue, w5)" "visit_pairs fp V kvs w5 = Some v3"
    using Cons.prems(12) by (auto simp: kv bind_eq_Some_conv)
  define c' where "c' = c\<lparr>m_trail := t', m_cs := MSGPACK_CS_HEADER, m_stack := (MSGPACK_CT_MAP_KEY, of_nat (length (kv # kvs))) # st,
      m_current := m_current c + ?k + ?x, m_visitor := w0\<rparr>"
  have "stack_consume V (m_stack (d t)) v1 = (PARSE_CONTINUE, (MSGPACK_CT_MAP_KEY, of_nat (length (kv # kvs))) # st, w0)"
    using Cons.prems(2,11) w(1) of_nat_pred [of "length (kv # kvs)"] by (simp add: d_def ret_of_def del: of_nat_Suc)
  then have "exec_loop V data pe again c = exec_loop V data pe False c'"
    using l f less(2) by (cases c) (simp add: finish_def c'_def d_def)
  moreover have "\<exists>t cs. exec_loop V data pe False c' = finish V data pe cs
     (c'\<lparr>m_trail := t, m_stack := st, m_current := m_current c' + length (enc_pairs fp (KV k' x' # kvs)), m_visitor := v4\<rparr>)"
    by (rule Cons.IH [where ?u1.0 = w1 and ?u2.0 = w2 and ?u3.0 = w3 and ?v1.0 = w4 and ?v2.0 = w5])
      (use Cons.prems w in \<open>simp_all add: c'_def at_bytes_append kv\<close>)
  ultimately show ?case using Cons.prems(3) by (cases c) (auto simp: c'_def kv add.assoc)
qed

end
