(* ===== verification/Mp_Sbuffer.thy ===== *)
theory Mp_Sbuffer
  imports Mp_Roundtrip
begin

text \<open>
  The growing buffer a message is packed into (\<^verbatim>\<open>msgpack-c/include/msgpack/v1/sbuffer.hpp\<close>). Sizes are
  \<^verbatim>\<open>size_t\<close>; \<open>sb_data\<close> is the block of the allocator, \<^const>\<open>None\<close> the null pointer. An operation ends
  with an exception (\<^const>\<open>Inl\<close>) or normally (\<^const>\<open>Inr\<close>); a result \<^const>\<open>None\<close> is a copy outside of
  the block.
\<close>

record sbuffer =
  sb_size :: "64 word"
  sb_data :: "byte list option"
  sb_alloc :: "64 word"

definition MSGPACK_SBUFFER_INIT_SIZE :: "64 word" where
  "MSGPACK_SBUFFER_INIT_SIZE = 8192"

definition sb_block :: "sbuffer \<Rightarrow> byte list" where
  "sb_block b = (case sb_data b of None \<Rightarrow> [] | Some d \<Rightarrow> d)"

definition sbuffer_new :: "heap_env \<Rightarrow> 64 word \<Rightarrow> mp_exn + sbuffer" where
  "sbuffer_new h initsz =
     (if initsz = 0 then Inr \<lparr>sb_size = 0, sb_data = None, sb_alloc = initsz\<rparr>
      else case malloc h initsz of
        None \<Rightarrow> Inl bad_alloc
      | Some d \<Rightarrow> Inr \<lparr>sb_size = 0, sb_data = Some d, sb_alloc = initsz\<rparr>)"

text \<open>The moving constructor and the moving assignment; both leave the other buffer empty. The assignment
  frees the old block.\<close>

definition sbuffer_move :: "sbuffer \<Rightarrow> sbuffer \<times> sbuffer" where
  "sbuffer_move other =
     (\<lparr>sb_size = sb_size other, sb_data = sb_data other, sb_alloc = sb_alloc other\<rparr>,
      other\<lparr>sb_size := 0, sb_alloc := 0, sb_data := None\<rparr>)"

definition sbuffer_assign :: "sbuffer \<Rightarrow> sbuffer \<Rightarrow> sbuffer \<times> sbuffer" where
  "sbuffer_assign b other =
     (b\<lparr>sb_size := sb_size other, sb_alloc := sb_alloc other, sb_data := sb_data other\<rparr>,
      other\<lparr>sb_size := 0, sb_alloc := 0, sb_data := None\<rparr>)"

function grow_size :: "64 word \<Rightarrow> 64 word \<Rightarrow> 64 word" where
  "grow_size need nsize =
     (if nsize < need
      then let tmp_nsize = nsize * 2 in
        if tmp_nsize \<le> nsize then need else grow_size need tmp_nsize
      else nsize)"
  by pat_completeness auto
termination
proof (relation "measure (\<lambda>(need, nsize). 2 ^ 64 - unat nsize)")
  fix need nsize tmp :: "64 word"
  assume "tmp = nsize * 2" "\<not> tmp \<le> nsize"
  then have "unat nsize < unat tmp" by (simp add: word_le_nat_alt)
  moreover have "unat tmp < 2 ^ 64" using unsigned_less [of tmp] by simp
  ultimately show "((need, tmp), need, nsize) \<in> measure (\<lambda>(need, nsize). 2 ^ 64 - unat nsize)" by simp
qed simp

declare grow_size.simps [simp del]

definition sbuffer_expand_buffer :: "heap_env \<Rightarrow> 64 word \<Rightarrow> sbuffer \<Rightarrow> mp_exn + sbuffer" where
  "sbuffer_expand_buffer h len b =
     (let nsize = (if 0 < sb_alloc b then sb_alloc b * 2 else MSGPACK_SBUFFER_INIT_SIZE);
          nsize = grow_size (sb_size b + len) nsize in
      case realloc h (sb_block b) nsize of
        None \<Rightarrow> Inl bad_alloc
      | Some d \<Rightarrow> Inr (b\<lparr>sb_data := Some d, sb_alloc := nsize\<rparr>))"

definition sbuffer_write :: "heap_env \<Rightarrow> byte list \<Rightarrow> sbuffer \<Rightarrow> (mp_exn + sbuffer) option" where
  "sbuffer_write h buf b =
     (let len = of_nat (length buf) in
      case (if sb_alloc b - sb_size b < len then sbuffer_expand_buffer h len b else Inr b) of
        Inl x \<Rightarrow> Some (Inl x)
      | Inr b \<Rightarrow> do {
          d \<leftarrow> mem_write (sb_block b) (unat (sb_size b)) buf;
          Some (Inr (b\<lparr>sb_data := (if sb_data b = None then None else Some d), sb_size := sb_size b + len\<rparr>)) })"

definition sbuffer_release :: "sbuffer \<Rightarrow> byte list option \<times> sbuffer" where
  "sbuffer_release b = (sb_data b, b\<lparr>sb_size := 0, sb_data := None, sb_alloc := 0\<rparr>)"

definition sbuffer_clear :: "sbuffer \<Rightarrow> sbuffer" where
  "sbuffer_clear b = b\<lparr>sb_size := 0\<rparr>"

text \<open>What a packer sees of it.\<close>

definition sbuffer_stream :: "heap_env \<Rightarrow> sbuffer stream_write" where
  "sbuffer_stream h buf b = (case sbuffer_write h buf b of Some (Inr b) \<Rightarrow> Some b | _ \<Rightarrow> None)"

subsection \<open>Invariant and contents\<close>

definition sbuffer_ok :: "sbuffer \<Rightarrow> bool" where
  "sbuffer_ok b \<longleftrightarrow> sb_size b \<le> sb_alloc b \<and> length (sb_block b) = unat (sb_alloc b)"

definition sbuffer_contents :: "sbuffer \<Rightarrow> byte list" where
  "sbuffer_contents b = take (unat (sb_size b)) (sb_block b)"

lemma length_sbuffer_contents: "sbuffer_ok b \<Longrightarrow> length (sbuffer_contents b) = unat (sb_size b)"
  by (simp add: sbuffer_ok_def sbuffer_contents_def word_le_nat_alt)

lemma sbuffer_new_ok: "sbuffer_new h n = Inr b \<Longrightarrow> sbuffer_ok b \<and> sbuffer_contents b = []"
  using malloc_length [of h n]
  by (auto simp: sbuffer_new_def sbuffer_ok_def sbuffer_contents_def sb_block_def split: if_splits option.splits)

lemma sbuffer_empty_ok:
  "sbuffer_ok b \<Longrightarrow> sbuffer_ok (sbuffer_clear b) \<and> sbuffer_contents (sbuffer_clear b) = []"
  "sbuffer_ok (snd (sbuffer_release b)) \<and> sbuffer_contents (snd (sbuffer_release b)) = []"
  by (simp_all add: sbuffer_clear_def sbuffer_release_def sbuffer_ok_def sbuffer_contents_def sb_block_def)

lemma sbuffer_move_ok:
  "sbuffer_ok b \<Longrightarrow> sbuffer_move b = (b1, b2) \<Longrightarrow>
     sbuffer_ok b1 \<and> sbuffer_contents b1 = sbuffer_contents b \<and> sbuffer_ok b2 \<and> sbuffer_contents b2 = []"
  "sbuffer_ok b \<Longrightarrow> sbuffer_assign a b = (b1, b2) \<Longrightarrow>
     sbuffer_ok b1 \<and> sbuffer_contents b1 = sbuffer_contents b \<and> sbuffer_ok b2 \<and> sbuffer_contents b2 = []"
  by (auto simp: sbuffer_move_def sbuffer_assign_def sbuffer_ok_def sbuffer_contents_def sb_block_def)

lemma grow_size_enough: "need \<le> grow_size need nsize"
  by (induction need nsize rule: grow_size.induct) (subst grow_size.simps, auto simp: Let_def not_less)

lemma sbuffer_expand_ok:
  assumes "sbuffer_ok b" and "sb_alloc b \<le> sb_size b + len" and "sbuffer_expand_buffer h len b = Inr b'"
  shows "sbuffer_ok b' \<and> sbuffer_contents b' = sbuffer_contents b \<and> sb_size b' = sb_size b \<and>
     sb_size b + len \<le> sb_alloc b'"
proof -
  define n where "n = grow_size (sb_size b + len) (if 0 < sb_alloc b then sb_alloc b * 2 else MSGPACK_SBUFFER_INIT_SIZE)"
  have n: "sb_size b + len \<le> n" by (simp add: n_def grow_size_enough)
  obtain d where d: "realloc h (sb_block b) n = Some d" "b' = b\<lparr>sb_data := Some d, sb_alloc := n\<rparr>"
    using assms(3) by (auto simp: sbuffer_expand_buffer_def Let_def simp flip: n_def split: option.splits)
  have le: "length (sb_block b) \<le> unat n"
    using assms(1,2) n by (simp add: sbuffer_ok_def word_le_nat_alt)
  have "take (unat (sb_size b)) d = take (unat (sb_size b)) (sb_block b)"
    using realloc_grow(2) [OF d(1) le] assms(1)
    by (metis min.absorb1 sbuffer_ok_def take_take word_le_nat_alt)
  then show ?thesis
    using realloc_grow(1) [OF d(1) le] assms(1,2) n
    by (auto simp: d(2) sbuffer_ok_def sbuffer_contents_def sb_block_def)
qed

lemma sbuffer_copy_ok:
  assumes "sbuffer_ok b" and "unat (sb_size b) + length buf \<le> unat (sb_alloc b)"
  shows "\<exists>d. mem_write (sb_block b) (unat (sb_size b)) buf = Some d \<and>
     (let b' = b\<lparr>sb_data := (if sb_data b = None then None else Some d), sb_size := sb_size b + of_nat (length buf)\<rparr> in
      sbuffer_ok b' \<and> sbuffer_contents b' = sbuffer_contents b @ buf)"
proof -
  let ?d = "take (unat (sb_size b)) (sb_block b) @ buf @ drop (unat (sb_size b) + length buf) (sb_block b)"
  have fits: "unat (sb_size b) + length buf \<le> length (sb_block b)"
    using assms by (simp add: sbuffer_ok_def)
  have "unat (sb_size b) + length buf < 2 ^ 64"
    using assms(2) unat_less_64 [of "sb_alloc b"] by simp
  then have size: "unat (sb_size b + of_nat (length buf)) = unat (sb_size b) + length buf"
    by (simp add: unat_word_ariths unat_of_nat)
  have "sb_data b = None \<Longrightarrow> ?d = []" using fits by (auto simp: sb_block_def)
  then show ?thesis
    using fits size assms
    by (auto simp: Let_def sbuffer_ok_def sbuffer_contents_def sb_block_def word_le_nat_alt split: option.splits)
qed

lemma sbuffer_write_ok:
  assumes "sbuffer_ok b" and "unat (sb_size b) + length buf < 2 ^ 64"
  shows "sbuffer_write h buf b = Some (Inl bad_alloc) \<and> \<not> (\<forall>n. grants h n) \<or>
     (\<exists>b'. sbuffer_write h buf b = Some (Inr b') \<and> sbuffer_ok b' \<and> sbuffer_contents b' = sbuffer_contents b @ buf)"
proof -
  let ?len = "of_nat (length buf) :: 64 word"
  have len: "unat ?len = length buf" using assms(2) by (simp add: unat_of_nat)
  have sum: "unat (sb_size b + ?len) = unat (sb_size b) + length buf"
    using assms(2) len by (simp add: unat_word_ariths)
  have room: "unat (sb_alloc b - sb_size b) = unat (sb_alloc b) - unat (sb_size b)"
    using assms(1) by (simp add: sbuffer_ok_def unat_sub)
  have le: "unat (sb_size b) \<le> unat (sb_alloc b)" using assms(1) by (simp add: sbuffer_ok_def word_le_nat_alt)
  show ?thesis
  proof (cases "sb_alloc b - sb_size b < ?len")
    case False
    then have "unat (sb_size b) + length buf \<le> unat (sb_alloc b)"
      using room len le by (simp add: word_less_nat_alt)
    from sbuffer_copy_ok [OF assms(1) this] False show ?thesis
      by (auto simp: sbuffer_write_def Let_def)
  next
    case True
    then have grow: "sb_alloc b \<le> sb_size b + ?len"
      using room len le sum by (simp add: word_less_nat_alt word_le_nat_alt)
    show ?thesis
    proof (cases "sbuffer_expand_buffer h ?len b")
      case (Inl x)
      then have "x = bad_alloc \<and> \<not> (\<forall>n. grants h n)"
        by (auto simp: sbuffer_expand_buffer_def Let_def realloc_def malloc_def split: option.splits if_splits)
      then show ?thesis using Inl True by (simp add: sbuffer_write_def Let_def)
    next
      case (Inr b')
      have b': "sbuffer_ok b'" "sbuffer_contents b' = sbuffer_contents b" "sb_size b' = sb_size b"
          "unat (sb_size b') + length buf \<le> unat (sb_alloc b')"
        using sbuffer_expand_ok [OF assms(1) grow Inr] sum by (simp_all add: word_le_nat_alt)
      from sbuffer_copy_ok [OF b'(1,4)] b'(2) Inr True show ?thesis
        by (auto simp: sbuffer_write_def Let_def)
    qed
  qed
qed

subsection \<open>The buffer as a stream\<close>

interpretation sbuf: byte_stream "sbuffer_stream h" sbuffer_ok sbuffer_contents "2 ^ 64" for h
proof
  fix b bs b'
  assume "sbuffer_ok b" "length (sbuffer_contents b) + length bs < 2 ^ 64" "sbuffer_stream h bs b = Some b'"
  then show "sbuffer_ok b' \<and> sbuffer_contents b' = sbuffer_contents b @ bs"
    using sbuffer_write_ok [of b bs h] by (auto simp: length_sbuffer_contents sbuffer_stream_def)
qed

interpretation sbuf_granted: total_byte_stream "sbuffer_stream (h\<lparr>grants := \<lambda>_. True\<rparr>)" sbuffer_ok sbuffer_contents "2 ^ 64"
  for h :: heap_env
proof
  fix b and bs :: "byte list"
  assume "sbuffer_ok b" "length (sbuffer_contents b) + length bs < 2 ^ 64"
  then show "\<exists>b'. sbuffer_stream (h\<lparr>grants := \<lambda>_. True\<rparr>) bs b = Some b'"
    using sbuffer_write_ok [of b bs "h\<lparr>grants := \<lambda>_. True\<rparr>"] by (auto simp: length_sbuffer_contents sbuffer_stream_def)
qed

text \<open>A value packed into a new buffer.\<close>

lemma sbuffer_packs:
  assumes "sbuffer_new h n = Inr b" and "length (enc_value fp ob) < 2 ^ 64"
    and "pack_value fp (sbuffer_stream h) ob b = Some b'"
  shows "sbuffer_ok b' \<and> sbuffer_contents b' = enc_value fp ob"
  using sbuf.putsD [OF sbuf.packed_bytes(1) [of fp h ob], of b b'] sbuffer_new_ok [OF assms(1)] assms(2,3) by simp

lemma sbuffer_packs_total:
  assumes "\<forall>n. grants h n" and "sbuffer_ok b"
    and "length (sbuffer_contents b) + length (enc_value fp ob) < 2 ^ 64"
  shows "\<exists>b'. pack_value fp (sbuffer_stream h) ob b = Some b' \<and> sbuffer_ok b' \<and>
     sbuffer_contents b' = sbuffer_contents b @ enc_value fp ob"
proof -
  have h: "h = h\<lparr>grants := \<lambda>_. True\<rparr>" using assms(1) by (cases h) (auto simp: fun_eq_iff)
  obtain b' where "pack_value fp (sbuffer_stream h) ob b = Some b'"
    using sbuf_granted.pack_total(1) [of fp h ob] assms(2,3) h
    unfolding sbuf_granted.accepts_def by fastforce
  then show ?thesis using sbuf.putsD [OF sbuf.packed_bytes(1) [of fp h ob], of b b'] assms(2,3) by simp
qed

end
