(* ===== verification/Mp_Documents.thy ===== *)
theory Mp_Documents
  imports Mp_Sbuffer
begin

text \<open>
  Whole documents: every value of the format, however deep, is read back from its packed bytes, alone
  or as a part of another value.
\<close>

subsection \<open>Containers as a whole\<close>

text \<open>The header and nothing else.\<close>

lemma empty_agg_reads:
  fixes c :: "'v mp_context"
  assumes "\<And>again. exec_iter V data pe again c = Some (go_on (start_aggregate V sv ev ct num
      (c\<lparr>m_trail := t, m_cs := x, m_current := m_current c + h - 1\<rparr>)))" and "0 < h" and "num = 0"
    and "sv num (m_visitor c) = (VTrue, v1)" and "ev v1 = (VTrue, v)"
  shows "reads V data pe c h v"
  unfolding reads_def
proof
  fix again
  let ?d = "c\<lparr>m_trail := t, m_current := m_current c + h, m_visitor := v\<rparr>"
  have d: "c\<lparr>m_trail := t, m_cs := x, m_current := m_current c + h, m_visitor := v\<rparr> = ?d\<lparr>m_cs := x\<rparr>"
    by (cases c) simp
  have "\<exists>cs. exec_loop V data pe again c = finish V data pe cs (?d\<lparr>m_cs := x\<rparr>)"
    using agg_empty [OF assms(1) [of again, unfolded assms(3)], of v1 v] assms(2-5) unfolding d [symmetric] by simp
  then show "\<exists>t cs. exec_loop V data pe again c =
      finish V data pe cs (c\<lparr>m_trail := t, m_current := m_current c + h, m_visitor := v\<rparr>)"
    unfolding finish_cs by blast
qed

text \<open>The header, then elements that the loop reads one by one.\<close>

lemma filled_agg_reads:
  fixes c :: "'v mp_context"
  assumes "\<And>again. exec_iter V data pe again c = Some (go_on (start_aggregate V sv ev ct num
      (c\<lparr>m_trail := t, m_cs := x, m_current := m_current c + h - 1\<rparr>)))" and "0 < h" and "num \<noteq> 0"
    and "sv num (m_visitor c) = (VTrue, v1)" and "stack_push V ct num (m_stack c) v1 = (PARSE_CONTINUE, st, w)"
    and "m_current c + h \<noteq> pe" and "m_cs c = MSGPACK_CS_HEADER"
    and elems: "\<And>d again. d = c\<lparr>m_trail := t, m_stack := st, m_current := m_current c + h, m_visitor := w\<rparr> \<Longrightarrow>
       \<exists>t cs. exec_loop V data pe again d =
         finish V data pe cs (d\<lparr>m_trail := t, m_stack := m_stack c, m_current := m_current d + n, m_visitor := v\<rparr>)"
  shows "reads V data pe c (h + n) v"
  unfolding reads_def
proof
  fix again
  define d where "d = c\<lparr>m_trail := t, m_stack := st, m_current := m_current c + h, m_visitor := w\<rparr>"
  have "exec_loop V data pe again c = exec_loop V data pe False d"
    using agg_push [OF assms(1) [of again] assms(3)] assms(2,4-7) by (cases c) (simp add: d_def)
  with elems [OF d_def, of False] show "\<exists>t cs. exec_loop V data pe again c =
      finish V data pe cs (c\<lparr>m_trail := t, m_current := m_current c + (h + n), m_visitor := v\<rparr>)"
    by (cases c) (auto simp: d_def add.assoc)
qed

lemma array_reads:
  fixes V :: "'v visitor"
  assumes "\<forall>x \<in> set os. value_reads fp V x" and "length os < 2 ^ 32"
  shows "value_reads fp V (ARRAY os)"
  unfolding value_reads_def
proof (intro allI impI, elim conjE)
  fix data pe v and c :: "'v mp_context"
  let ?h = "enc_array (of_nat (length os))"
  assume hd: "m_cs c = MSGPACK_CS_HEADER" and at: "at_bytes data (m_current c) (enc_value fp (ARRAY os))"
    and pe: "m_current c + length (enc_value fp (ARRAY os)) \<le> pe"
    and vis: "visit_obj fp V (ARRAY os) (m_visitor c) = Some v"
  have hb: "at_bytes data (m_current c) ?h" "at_bytes data (m_current c + length ?h) (enc_values fp os)"
      "m_current c + length ?h \<le> pe" "0 < length ?h"
    using at pe enc_value_nonempty [of fp "ARRAY []"] by (auto simp: at_bytes_append enc_defs pack_defs)
  obtain v1 v2 where v: "start_array V (of_nat (length os)) (m_visitor c) = (VTrue, v1)"
      "visit_items fp V os v1 = Some v2" "end_array V v2 = (VTrue, v)"
    using vis by (auto simp: bind_eq_Some_conv)
  obtain t x where it: "\<And>again. exec_iter V data pe again c = Some (go_on (start_array_agg V (of_nat (length os))
      (c\<lparr>m_trail := t, m_cs := x, m_current := m_current c + length ?h - 1\<rparr>)))"
    using array_header [OF hd assms(2) hb(1,3), of V] by blast
  note it = it [unfolded start_array_agg_def]
  show "reads V data pe c (length (enc_value fp (ARRAY os))) v"
  proof (cases os)
    case Nil
    have "reads V data pe c (length ?h) v"
      by (rule empty_agg_reads [OF it hb(4) _ v(1)]) (use v Nil in simp_all)
    then show ?thesis by (simp add: Nil)
  next
    case (Cons ob os')
    from v(2) obtain w0 w1 w2 where w: "start_array_item V v1 = (VTrue, w0)" "visit_obj fp V ob w0 = Some w1"
        "end_array_item V w1 = (VTrue, w2)" "visit_items fp V os' w2 = Some v2"
      by (auto simp: Cons bind_eq_Some_conv)
    have "reads V data pe c (length ?h + length (enc_values fp (ob # os'))) v"
    proof (rule filled_agg_reads [OF it hb(4) _ v(1) _ _ hd])
      show "(of_nat (length os) :: 32 word) \<noteq> 0"
        using assms(2) Cons by (simp add: word_unat_eq_iff unat_of_nat_small del: of_nat_Suc)
      show "stack_push V MSGPACK_CT_ARRAY_ITEM (of_nat (length os)) (m_stack c) v1 =
          (PARSE_CONTINUE, (MSGPACK_CT_ARRAY_ITEM, of_nat (length os)) # m_stack c, w0)"
        using w(1) by simp
      show "m_current c + length ?h \<noteq> pe"
        using pe enc_value_nonempty [of fp ob] by (simp add: Cons del: length_greater_0_conv)
    next
      fix d :: "'v mp_context" and again
      assume d: "d = c\<lparr>m_trail := t, m_stack := (MSGPACK_CT_ARRAY_ITEM, of_nat (length os)) # m_stack c,
          m_current := m_current c + length ?h, m_visitor := w0\<rparr>"
      show "\<exists>t cs. exec_loop V data pe again d = finish V data pe cs (d\<lparr>m_trail := t, m_stack := m_stack c,
          m_current := m_current d + length (enc_values fp (ob # os')), m_visitor := v\<rparr>)"
        by (rule items_read [where ?v1.0 = w1 and ?v2.0 = w2 and ?v3.0 = v2])
          (use assms hb(2) pe w v(3) hd in \<open>simp_all add: d Cons\<close>)
    qed
    then show ?thesis by (simp add: Cons)
  qed
qed

lemma map_reads:
  fixes V :: "'v visitor"
  assumes "\<forall>y \<in> set kvs. case y of KV a b \<Rightarrow> value_reads fp V a \<and> value_reads fp V b" and "length kvs < 2 ^ 32"
  shows "value_reads fp V (MAP kvs)"
  unfolding value_reads_def
proof (intro allI impI, elim conjE)
  fix data pe v and c :: "'v mp_context"
  let ?h = "enc_map (of_nat (length kvs))"
  assume hd: "m_cs c = MSGPACK_CS_HEADER" and at: "at_bytes data (m_current c) (enc_value fp (MAP kvs))"
    and pe: "m_current c + length (enc_value fp (MAP kvs)) \<le> pe"
    and vis: "visit_obj fp V (MAP kvs) (m_visitor c) = Some v"
  have hb: "at_bytes data (m_current c) ?h" "at_bytes data (m_current c + length ?h) (enc_pairs fp kvs)"
      "m_current c + length ?h \<le> pe" "0 < length ?h"
    using at pe by (auto simp: at_bytes_append enc_defs pack_defs)
  obtain v1 v2 where v: "start_map V (of_nat (length kvs)) (m_visitor c) = (VTrue, v1)"
      "visit_pairs fp V kvs v1 = Some v2" "end_map V v2 = (VTrue, v)"
    using vis by (auto simp: bind_eq_Some_conv)
  obtain t x where it: "\<And>again. exec_iter V data pe again c = Some (go_on (start_map_agg V (of_nat (length kvs))
      (c\<lparr>m_trail := t, m_cs := x, m_current := m_current c + length ?h - 1\<rparr>)))"
    using map_header [OF hd assms(2) hb(1,3), of V] by blast
  note it = it [unfolded start_map_agg_def]
  show "reads V data pe c (length (enc_value fp (MAP kvs))) v"
  proof (cases kvs)
    case Nil
    have "reads V data pe c (length ?h) v"
      by (rule empty_agg_reads [OF it hb(4) _ v(1)]) (use v Nil in simp_all)
    then show ?thesis by (simp add: Nil)
  next
    case (Cons kv kvs')
    obtain k y where kv: "kv = KV k y" by (cases kv)
    from v(2) obtain w0 w1 w2 w3 w4 w5 where w: "start_map_key V v1 = (VTrue, w0)" "visit_obj fp V k w0 = Some w1"
        "end_map_key V w1 = (VTrue, w2)" "start_map_value V w2 = (VTrue, w3)" "visit_obj fp V y w3 = Some w4"
        "end_map_value V w4 = (VTrue, w5)" "visit_pairs fp V kvs' w5 = Some v2"
      by (auto simp: Cons kv bind_eq_Some_conv)
    have "reads V data pe c (length ?h + length (enc_pairs fp (KV k y # kvs'))) v"
    proof (rule filled_agg_reads [OF it hb(4) _ v(1) _ _ hd])
      show "(of_nat (length kvs) :: 32 word) \<noteq> 0"
        using assms(2) Cons by (simp add: word_unat_eq_iff unat_of_nat_small del: of_nat_Suc)
      show "stack_push V MSGPACK_CT_MAP_KEY (of_nat (length kvs)) (m_stack c) v1 =
          (PARSE_CONTINUE, (MSGPACK_CT_MAP_KEY, of_nat (length kvs)) # m_stack c, w0)"
        using w(1) by simp
      show "m_current c + length ?h \<noteq> pe"
        using pe enc_value_nonempty [of fp k] by (simp add: Cons kv del: length_greater_0_conv)
    next
      fix d :: "'v mp_context" and again
      assume d: "d = c\<lparr>m_trail := t, m_stack := (MSGPACK_CT_MAP_KEY, of_nat (length kvs)) # m_stack c,
          m_current := m_current c + length ?h, m_visitor := w0\<rparr>"
      show "\<exists>t cs. exec_loop V data pe again d = finish V data pe cs (d\<lparr>m_trail := t, m_stack := m_stack c,
          m_current := m_current d + length (enc_pairs fp (KV k y # kvs')), m_visitor := v\<rparr>)"
        by (rule pairs_read [where ?u1.0 = w1 and ?u2.0 = w2 and ?u3.0 = w3 and ?v1.0 = w4 and ?v2.0 = w5 and ?v3.0 = v2])
          (use assms hb(2) pe w v(3) hd in \<open>simp_all add: d Cons kv\<close>)
    qed
    then show ?thesis by (simp add: Cons kv)
  qed
qed

subsection \<open>Every value\<close>

text \<open>Scalars are the values without parts.\<close>

lemma number_reads:
  "value_reads fp V (POSITIVE_INTEGER u)" "sint i < 0 \<Longrightarrow> value_reads fp V (NEGATIVE_INTEGER i)"
  by (auto simp: value_reads_def intro: uint64_reads int64_reads_negative)

lemma constant_reads: "value_reads fp V NIL" "value_reads fp V (BOOLEAN b)"
proof -
  have one: "reads V data pe c (length [b]) v"
    if "m_cs c = MSGPACK_CS_HEADER" "at_bytes data (m_current c) [b]" "rv = (VTrue, v)"
      "b = 0xc2 \<and> rv = visit_boolean V False (m_visitor c) \<or> b = 0xc3 \<and> rv = visit_boolean V True (m_visitor c) \<or>
       b = 0xc0 \<and> rv = visit_nil V (m_visitor c)" for data pe c b rv v
  proof -
    have "mem_at data (m_current c) = Some b" using that(2) by (simp only: at_bytes_Cons)
    from fix_reads [OF that(1) this _ that(3)] that(4) show ?thesis by simp
  qed
  show "value_reads fp V NIL" "value_reads fp V (BOOLEAN b)"
    unfolding value_reads_def enc_value.simps visit_obj.simps vt_Some
    by (intro allI impI; elim conjE; rule one; (assumption | rule refl)?; cases b; simp)+
qed

lemma float_reads: "value_reads fp V (FLOAT32 d)" "value_reads fp V (FLOAT64 d)"
  unfolding value_reads_def enc_value.simps visit_obj.simps vt_Some
  by (intro allI impI; elim conjE; rule tagged_number [where xc = "fp_narrow fp d" and xd = d]; simp)+

lemma bytes_reads:
  "length bs < 2 ^ 32 \<Longrightarrow> value_reads fp V (STR_t bs)" "length bs < 2 ^ 32 \<Longrightarrow> value_reads fp V (BIN bs)"
  "bs \<noteq> [] \<Longrightarrow> length bs < 2 ^ 32 \<Longrightarrow> value_reads fp V (EXT bs)"
  unfolding value_reads_def enc_value.simps visit_obj.simps vt_Some
  by (blast intro: str_reads bin_reads ext_reads)+

lemmas scalar_reads = number_reads constant_reads float_reads bytes_reads

lemma all_values_read:
  "mobj_ok ob \<Longrightarrow> value_reads fp V ob"
  "mobjs_ok os \<Longrightarrow> \<forall>x \<in> set os. value_reads fp V x"
  "pairs_ok kvs \<Longrightarrow> \<forall>y \<in> set kvs. case y of KV a b \<Rightarrow> value_reads fp V a \<and> value_reads fp V b"
  by (induction ob and os and kvs rule: mobj_ok_mobjs_ok_pairs_ok.induct)
    (auto intro: scalar_reads array_reads map_reads)

text \<open>A document alone.\<close>

lemma finish_alone: "m_stack c = [] \<Longrightarrow> finish V data pe cs c = Some (PARSE_SUCCESS, c\<lparr>m_cs := cs\<rparr>)"
  by (cases c) (simp add: finish_def)

lemma execute_document:
  assumes "mobj_ok ob" and "m_cs c = MSGPACK_CS_HEADER" and "m_stack c = []"
    and "at_bytes data off (enc_value fp ob)" and "off + length (enc_value fp ob) \<le> len"
    and "visit_obj fp V ob (m_visitor c) = Some v"
  shows "\<exists>c'. execute V data len off c = Some (PARSE_SUCCESS, c') \<and>
     m_current c' = off + length (enc_value fp ob) \<and> m_visitor c' = v \<and> m_stack c' = []"
proof -
  have "off \<noteq> len" using assms(5) enc_value_nonempty [of fp ob] by linarith
  then show ?thesis
    using value_readsD [OF all_values_read(1) [OF assms(1)], of "c\<lparr>m_current := off\<rparr>" data fp len V v False] assms(2-6)
    by (auto simp: execute_def finish_alone)
qed

lemma parse_document:
  assumes "mobj_ok ob" and "visit_obj fp V ob v = Some v'"
  shows "parse_imp V (pre @ enc_value fp ob @ post) (length (pre @ enc_value fp ob @ post)) (length pre) v =
     Some (if post = [] then PARSE_SUCCESS else PARSE_EXTRA_BYTES, length (pre @ enc_value fp ob), v')"
proof -
  let ?data = "pre @ enc_value fp ob @ post"
  obtain c' where "execute V ?data (length ?data) (length pre) (context_new v) = Some (PARSE_SUCCESS, c')"
      "m_current c' = length pre + length (enc_value fp ob)" "m_visitor c' = v'"
    using execute_document [OF assms(1), of "context_new v" ?data "length pre" fp "length ?data" V v'] assms(2)
    by (auto simp: context_new_def at_bytes_whole)
  then show ?thesis using enc_value_nonempty [of fp ob] by (simp add: parse_imp_def)
qed

text \<open>A document packed into a buffer and parsed from it.\<close>

lemma packed_then_parsed:
  assumes "mobj_ok ob" and "visit_obj fp V ob v = Some v'" and "\<forall>n. grants h n" and "sbuffer_ok b"
    and "sbuffer_contents b = []" and "length (enc_value fp ob) < 2 ^ 64"
  shows "\<exists>b'. pack_value fp (sbuffer_stream h) ob b = Some b' \<and> sbuffer_ok b' \<and>
     parse_imp V (sbuffer_contents b' @ post) (length (sbuffer_contents b' @ post)) 0 v =
       Some (if post = [] then PARSE_SUCCESS else PARSE_EXTRA_BYTES, length (sbuffer_contents b'), v')"
proof -
  obtain b' where "pack_value fp (sbuffer_stream h) ob b = Some b'" "sbuffer_ok b'" "sbuffer_contents b' = enc_value fp ob"
    using sbuffer_packs_total [OF assms(3,4), of fp ob] assms(5,6) by auto
  then show ?thesis using parse_document [OF assms(1,2), of "[]" post] by auto
qed

end
