(* ===== verification/Mp_Object.thy ===== *)
theory Mp_Object
  imports Mp_Sbuffer
begin

text \<open>
  Walking over a \<^verbatim>\<open>msgpack::object\<close> (\<^verbatim>\<open>msgpack-c/include/msgpack/v1/object.hpp\<close>): \<^verbatim>\<open>object_parser\<close>, an
  iteration with an explicit stack that makes the callbacks of a visitor. It is shown to make the
  callbacks of the structural recursion \<open>walk\<close>, for every visitor.
\<close>

subsection \<open>\<^verbatim>\<open>object_parser\<close>\<close>

text \<open>An element of the stack: a pointer into an array or a map, given by the elements from there on, the
  number of elements that are left and, for a map, whether the key is next.\<close>

datatype op_elem = OpArr "mobj list" nat | OpMap "object_kv list" nat bool

datatype next_ret = NCont | NFinish | NAbort vres

fun elem_get :: "op_elem \<Rightarrow> mobj option" where
  "elem_get (OpMap (KV k x # kvs) rest is_key) = Some (if is_key then k else x)"
| "elem_get (OpArr (ob # os) rest) = Some ob"
| "elem_get e = None"

text \<open>\<^verbatim>\<open>if (!callback) return abort;\<close>\<close>

definition or_abort :: "vres \<times> 'v \<Rightarrow> op_elem \<Rightarrow> ('v \<Rightarrow> next_ret \<times> op_elem \<times> 'v) \<Rightarrow> next_ret \<times> op_elem \<times> 'v" where
  "or_abort rv e k = (case rv of (r, v) \<Rightarrow> if r = VTrue then k v else (NAbort r, e, v))"

fun elem_next :: "'v visitor \<Rightarrow> op_elem \<Rightarrow> 'v \<Rightarrow> next_ret \<times> op_elem \<times> 'v" where
  "elem_next V (OpMap kvs rest is_key) v =
     (let e = OpMap kvs rest is_key in
      if rest = 0 then or_abort (end_map V v) e (\<lambda>v. (NFinish, e, v))
      else if is_key
      then or_abort (end_map_key V v) e (\<lambda>v. or_abort (start_map_value V v) e (\<lambda>v. (NCont, OpMap kvs rest False, v)))
      else or_abort (end_map_value V v) e (\<lambda>v.
        let e = OpMap kvs (rest - 1) is_key in
        if rest - 1 = 0 then or_abort (end_map V v) e (\<lambda>v. (NFinish, e, v))
        else or_abort (start_map_key V v) e (\<lambda>v. (NCont, OpMap (tl kvs) (rest - 1) True, v))))"
| "elem_next V (OpArr os rest) v =
     (let e = OpArr os rest in
      if rest = 0 then or_abort (end_array V v) e (\<lambda>v. (NFinish, e, v))
      else or_abort (end_array_item V v) e (\<lambda>v.
        let e = OpArr os (rest - 1) in
        if rest - 1 = 0 then or_abort (end_array V v) e (\<lambda>v. (NFinish, e, v))
        else or_abort (start_array_item V v) e (\<lambda>v. (NCont, OpArr (tl os) (rest - 1), v))))"

text \<open>The \<^verbatim>\<open>switch\<close>: the answer of the callbacks, the flag \<^verbatim>\<open>start_collection\<close> and the stack.\<close>

definition op_visit :: "fpu \<Rightarrow> 'v visitor \<Rightarrow> mobj \<Rightarrow> op_elem list \<Rightarrow> 'v \<Rightarrow> (vres \<times> 'v) \<times> bool \<times> op_elem list" where
  "op_visit fp V ob ctx v =
     (case ob of
        NIL \<Rightarrow> (visit_nil V v, False, ctx)
      | BOOLEAN b \<Rightarrow> (visit_boolean V b v, False, ctx)
      | POSITIVE_INTEGER u \<Rightarrow> (visit_positive_integer V u v, False, ctx)
      | NEGATIVE_INTEGER i \<Rightarrow> (visit_negative_integer V i v, False, ctx)
      | FLOAT32 d \<Rightarrow> (visit_float32 V (fp_narrow fp d) v, False, ctx)
      | FLOAT64 d \<Rightarrow> (visit_float64 V d v, False, ctx)
      | STR_t bs \<Rightarrow> (visit_str V bs v, False, ctx)
      | BIN bs \<Rightarrow> (visit_bin V bs v, False, ctx)
      | EXT bs \<Rightarrow> (visit_ext V bs v, False, ctx)
      | ARRAY os \<Rightarrow>
          (let (r, v) = start_array V (of_nat (length os)) v; ctx = OpArr os (length os) # ctx in
           if r \<noteq> VTrue then ((r, v), False, ctx)
           else if length os \<noteq> 0 then (start_array_item V v, True, ctx)
           else ((VTrue, v), False, ctx))
      | MAP kvs \<Rightarrow>
          (let (r, v) = start_map V (of_nat (length kvs)) v; ctx = OpMap kvs (length kvs) True # ctx in
           if r \<noteq> VTrue then ((r, v), False, ctx)
           else if length kvs \<noteq> 0 then (start_map_key V v, True, ctx)
           else ((VTrue, v), False, ctx)))"

text \<open>The inner loop: \<^const>\<open>None\<close> when it breaks, otherwise the function returns.\<close>

fun op_unwind :: "'v visitor \<Rightarrow> op_elem list \<Rightarrow> 'v \<Rightarrow> vres option \<times> op_elem list \<times> 'v" where
  "op_unwind V [] v = (Some VTrue, [], v)"
| "op_unwind V (e # ctx) v =
     (case elem_next V e v of
        (NCont, e, v) \<Rightarrow> (None, e # ctx, v)
      | (NFinish, e, v) \<Rightarrow> op_unwind V ctx v
      | (NAbort r, e, v) \<Rightarrow> (Some r, e # ctx, v))"

text \<open>The outer loop. The result tells why the function returned: all visited, a callback that answered
  false, or an exception.\<close>

partial_function (option) op_loop ::
  "fpu \<Rightarrow> 'v visitor \<Rightarrow> mobj \<Rightarrow> op_elem list \<Rightarrow> 'v \<Rightarrow> (vres \<times> 'v) option" where
  "op_loop fp V ob ctx v =
     (case op_visit fp V ob ctx v of
        ((r, v), start_collection, ctx) \<Rightarrow>
          if r \<noteq> VTrue then Some (r, v)
          else case (if start_collection then (None, ctx, v) else op_unwind V ctx v) of
              (Some r, ctx, v) \<Rightarrow> Some (r, v)
            | (None, ctx, v) \<Rightarrow>
                (case ctx of
                   [] \<Rightarrow> None
                 | e # es \<Rightarrow> do { ob \<leftarrow> elem_get e; op_loop fp V ob ctx v }))"

definition object_parse :: "fpu \<Rightarrow> 'v visitor \<Rightarrow> mobj \<Rightarrow> 'v \<Rightarrow> (vres \<times> 'v) option" where
  "object_parse fp V ob v = op_loop fp V ob [] v"

subsection \<open>The callbacks by structural recursion\<close>

definition and_then :: "vres \<times> 'v \<Rightarrow> ('v \<Rightarrow> vres \<times> 'v) \<Rightarrow> vres \<times> 'v" where
  "and_then rv k = (case rv of (r, v) \<Rightarrow> if r = VTrue then k v else (r, v))"

fun walk :: "fpu \<Rightarrow> 'v visitor \<Rightarrow> mobj \<Rightarrow> 'v \<Rightarrow> vres \<times> 'v"
  and walk_items :: "fpu \<Rightarrow> 'v visitor \<Rightarrow> mobj list \<Rightarrow> 'v \<Rightarrow> vres \<times> 'v"
  and walk_pairs :: "fpu \<Rightarrow> 'v visitor \<Rightarrow> object_kv list \<Rightarrow> 'v \<Rightarrow> vres \<times> 'v" where
  "walk fp V NIL v = visit_nil V v"
| "walk fp V (BOOLEAN b) v = visit_boolean V b v"
| "walk fp V (POSITIVE_INTEGER u) v = visit_positive_integer V u v"
| "walk fp V (NEGATIVE_INTEGER i) v = visit_negative_integer V i v"
| "walk fp V (FLOAT32 d) v = visit_float32 V (fp_narrow fp d) v"
| "walk fp V (FLOAT64 d) v = visit_float64 V d v"
| "walk fp V (STR_t bs) v = visit_str V bs v"
| "walk fp V (BIN bs) v = visit_bin V bs v"
| "walk fp V (EXT bs) v = visit_ext V bs v"
| "walk fp V (ARRAY os) v =
     and_then (start_array V (of_nat (length os)) v) (\<lambda>v. and_then (walk_items fp V os v) (end_array V))"
| "walk fp V (MAP kvs) v =
     and_then (start_map V (of_nat (length kvs)) v) (\<lambda>v. and_then (walk_pairs fp V kvs v) (end_map V))"
| "walk_items fp V [] v = (VTrue, v)"
| "walk_items fp V (ob # os) v =
     and_then (start_array_item V v) (\<lambda>v. and_then (walk fp V ob v) (\<lambda>v.
       and_then (end_array_item V v) (walk_items fp V os)))"
| "walk_pairs fp V [] v = (VTrue, v)"
| "walk_pairs fp V (KV k x # kvs) v =
     and_then (start_map_key V v) (\<lambda>v. and_then (walk fp V k v) (\<lambda>v. and_then (end_map_key V v) (\<lambda>v.
       and_then (start_map_value V v) (\<lambda>v. and_then (walk fp V x v) (\<lambda>v. and_then (end_map_value V v)
         (walk_pairs fp V kvs))))))"

lemma and_then_simps [simp]:
  "and_then (VTrue, v) k = k v"
  "r \<noteq> VTrue \<Longrightarrow> and_then (r, v) k = (r, v)"
  by (simp_all add: and_then_def)

lemma and_then_True: "and_then rv k = (VTrue, v) \<longleftrightarrow> (\<exists>v'. rv = (VTrue, v') \<and> k v' = (VTrue, v))"
  by (cases rv) (auto simp: and_then_def)

lemma and_then_assoc: "and_then (and_then rv f) g = and_then rv (\<lambda>v. and_then (f v) g)"
  by (cases rv) (auto simp: and_then_def)

text \<open>The walk as a composition of callbacks.\<close>

lemma and_then_Pair [simp]: "and_then rv (Pair VTrue) = rv" "and_then rv (\<lambda>v. (VTrue, v)) = rv"
  by (cases rv; simp add: and_then_def)+

lemma walk_funs:
  "walk fp V NIL = visit_nil V" "walk fp V (BOOLEAN b) = visit_boolean V b"
  "walk fp V (POSITIVE_INTEGER u) = visit_positive_integer V u" "walk fp V (NEGATIVE_INTEGER i) = visit_negative_integer V i"
  "walk fp V (FLOAT32 d) = visit_float32 V (fp_narrow fp d)" "walk fp V (FLOAT64 d) = visit_float64 V d"
  "walk fp V (STR_t bs) = visit_str V bs" "walk fp V (BIN bs) = visit_bin V bs" "walk fp V (EXT bs) = visit_ext V bs"
  "walk fp V (ARRAY os) = (\<lambda>v. and_then (start_array V (of_nat (length os)) v) (\<lambda>v. and_then (walk_items fp V os v) (end_array V)))"
  "walk fp V (MAP kvs) = (\<lambda>v. and_then (start_map V (of_nat (length kvs)) v) (\<lambda>v. and_then (walk_pairs fp V kvs v) (end_map V)))"
  "walk_items fp V [] = Pair VTrue"
  "walk_items fp V (ob # os) = (\<lambda>v. and_then (start_array_item V v) (\<lambda>v. and_then (walk fp V ob v) (\<lambda>v.
     and_then (end_array_item V v) (walk_items fp V os))))"
  "walk_pairs fp V [] = Pair VTrue"
  "walk_pairs fp V (KV k x # kvs) = (\<lambda>v. and_then (start_map_key V v) (\<lambda>v. and_then (walk fp V k v) (\<lambda>v. and_then (end_map_key V v) (\<lambda>v.
     and_then (start_map_value V v) (\<lambda>v. and_then (walk fp V x v) (\<lambda>v. and_then (end_map_value V v) (walk_pairs fp V kvs)))))))"
  by (simp_all add: fun_eq_iff)

text \<open>The partial walk of the round trip is the case where every callback answers true.\<close>

lemma visit_obj_walk:
  "visit_obj fp V ob v = Some v' \<longleftrightarrow> walk fp V ob v = (VTrue, v')"
  "visit_items fp V os v = Some v' \<longleftrightarrow> walk_items fp V os v = (VTrue, v')"
  "visit_pairs fp V kvs v = Some v' \<longleftrightarrow> walk_pairs fp V kvs v = (VTrue, v')"
  by (induction fp V ob v and fp V os v and fp V kvs v arbitrary: v' and v' and v'
      rule: walk_walk_items_walk_pairs.induct) (auto simp: and_then_True bind_eq_Some_conv)

subsection \<open>The iteration makes the callbacks of the recursion\<close>

text \<open>After a value: unwind the stack and go on.\<close>

definition op_after :: "fpu \<Rightarrow> 'v visitor \<Rightarrow> op_elem list \<Rightarrow> vres \<times> 'v \<Rightarrow> (vres \<times> 'v) option" where
  "op_after fp V ctx rv =
     (case rv of (r, v) \<Rightarrow>
        if r \<noteq> VTrue then Some (r, v)
        else case op_unwind V ctx v of
            (Some r, ctx, v) \<Rightarrow> Some (r, v)
          | (None, ctx, v) \<Rightarrow>
              (case ctx of [] \<Rightarrow> None | e # es \<Rightarrow> do { ob \<leftarrow> elem_get e; op_loop fp V ob ctx v }))"

lemma op_after_stop [simp]: "r \<noteq> VTrue \<Longrightarrow> op_after fp V ctx (r, v) = Some (r, v)"
  by (simp add: op_after_def)

lemma op_after_alone: "op_after fp V [] rv = Some rv"
  by (cases rv) (auto simp: op_after_def)

definition op_walks :: "fpu \<Rightarrow> 'v visitor \<Rightarrow> mobj \<Rightarrow> bool" where
  "op_walks fp V ob \<longleftrightarrow> (\<forall>ctx v. op_loop fp V ob ctx v = op_after fp V ctx (walk fp V ob v))"

lemma op_after_items:
  "op_after fp V (OpArr (ob # os) (Suc (length os)) # ctx) (VTrue, v) =
     (if os = [] then op_after fp V ctx (and_then (end_array_item V v) (end_array V))
      else case end_array_item V v of (r, v) \<Rightarrow>
        if r \<noteq> VTrue then Some (r, v)
        else case start_array_item V v of (r, v) \<Rightarrow>
          if r \<noteq> VTrue then Some (r, v) else op_loop fp V (hd os) (OpArr os (length os) # ctx) v)"
  by (cases os) (auto simp: op_after_def or_abort_def and_then_def split: prod.splits)

lemma op_items:
  assumes "\<forall>x \<in> set (ob # os). op_walks fp V x"
  shows "op_loop fp V ob (OpArr (ob # os) (Suc (length os)) # ctx) v =
     op_after fp V ctx (and_then (walk fp V ob v) (\<lambda>v. and_then (end_array_item V v) (\<lambda>v.
       and_then (walk_items fp V os v) (end_array V))))"
  using assms
proof (induction os arbitrary: ob v)
  case Nil
  obtain r v1 where w: "walk fp V ob v = (r, v1)" by force
  then show ?case using Nil.prems
    by (cases "r = VTrue") (simp_all add: op_walks_def op_after_items [of _ _ _ "[]", simplified])
next
  case (Cons ob' os)
  obtain r v1 where w: "walk fp V ob v = (r, v1)" by force
  obtain r2 v2 where e: "end_array_item V v1 = (r2, v2)" by force
  obtain r3 v3 where s: "start_array_item V v2 = (r3, v3)" by force
  have l: "op_loop fp V ob (OpArr (ob # ob' # os) n # ctx) v = op_after fp V (OpArr (ob # ob' # os) n # ctx) (r, v1)" for n
    using Cons.prems w by (simp add: op_walks_def)
  note p = op_after_items [of fp V ob "ob' # os", simplified]
  show ?case
    using Cons.IH [of ob' v3] Cons.prems w e s
    by (cases "r = VTrue"; cases "r2 = VTrue"; cases "r3 = VTrue")
      (simp_all add: l p and_then_assoc)
qed

lemma op_after_key:
  "op_after fp V (OpMap (KV k x # kvs) (Suc n) True # ctx) (VTrue, v) =
     (case end_map_key V v of (r, v) \<Rightarrow>
        if r \<noteq> VTrue then Some (r, v)
        else case start_map_value V v of (r, v) \<Rightarrow>
          if r \<noteq> VTrue then Some (r, v) else op_loop fp V x (OpMap (KV k x # kvs) (Suc n) False # ctx) v)"
  by (auto simp: op_after_def or_abort_def split: prod.splits)

lemma op_after_pairs:
  "op_after fp V (OpMap (kv # kvs) (Suc (length kvs)) False # ctx) (VTrue, v) =
     (if kvs = [] then op_after fp V ctx (and_then (end_map_value V v) (end_map V))
      else case end_map_value V v of (r, v) \<Rightarrow>
        if r \<noteq> VTrue then Some (r, v)
        else case start_map_key V v of (r, v) \<Rightarrow>
          if r \<noteq> VTrue then Some (r, v)
          else op_loop fp V (case hd kvs of KV k x \<Rightarrow> k) (OpMap kvs (length kvs) True # ctx) v)"
proof (cases kvs)
  case Nil
  then show ?thesis by (auto simp: op_after_def or_abort_def and_then_def split: prod.splits)
next
  case (Cons kv' kvs')
  then show ?thesis
    by (cases kv') (auto simp: op_after_def or_abort_def split: prod.splits)
qed

lemma op_pairs:
  assumes "\<forall>y \<in> set (KV k x # kvs). case y of KV a b \<Rightarrow> op_walks fp V a \<and> op_walks fp V b"
  shows "op_loop fp V k (OpMap (KV k x # kvs) (Suc (length kvs)) True # ctx) v =
     op_after fp V ctx (and_then (walk fp V k v) (\<lambda>v. and_then (end_map_key V v) (\<lambda>v.
       and_then (start_map_value V v) (\<lambda>v. and_then (walk fp V x v) (\<lambda>v. and_then (end_map_value V v) (\<lambda>v.
         and_then (walk_pairs fp V kvs v) (end_map V)))))))"
  using assms
proof (induction kvs arbitrary: k x v)
  case (Nil k x v)
  obtain r1 v1 where 1: "walk fp V k v = (r1, v1)" by force
  obtain r2 v2 where 2: "end_map_key V v1 = (r2, v2)" by force
  obtain r3 v3 where 3: "start_map_value V v2 = (r3, v3)" by force
  obtain r4 v4 where 4: "walk fp V x v3 = (r4, v4)" by force
  show ?case using Nil.prems 1 2 3 4
    by (cases "r1 = VTrue"; cases "r2 = VTrue"; cases "r3 = VTrue"; cases "r4 = VTrue")
      (simp_all add: op_walks_def op_after_key op_after_pairs [of _ _ _ "[]", simplified])
next
  case (Cons kv kvs k x v)
  obtain k' x' where kv: "kv = KV k' x'" by (cases kv)
  obtain r1 v1 where 1: "walk fp V k v = (r1, v1)" by force
  obtain r2 v2 where 2: "end_map_key V v1 = (r2, v2)" by force
  obtain r3 v3 where 3: "start_map_value V v2 = (r3, v3)" by force
  obtain r4 v4 where 4: "walk fp V x v3 = (r4, v4)" by force
  obtain r5 v5 where 5: "end_map_value V v4 = (r5, v5)" by force
  obtain r6 v6 where 6: "start_map_key V v5 = (r6, v6)" by force
  have l: "op_loop fp V k (OpMap (KV k x # KV k' x' # kvs) n True # ctx) v =
      op_after fp V (OpMap (KV k x # KV k' x' # kvs) n True # ctx) (r1, v1)"
    "op_loop fp V x (OpMap (KV k x # KV k' x' # kvs) n False # ctx) v3 =
      op_after fp V (OpMap (KV k x # KV k' x' # kvs) n False # ctx) (r4, v4)" for n
    using Cons.prems 1 4 by (simp_all add: op_walks_def kv)
  note p = op_after_pairs [of fp V "KV k x" "KV k' x' # kvs", simplified]
  show ?case
    using Cons.IH [of k' x' v6] Cons.prems 1 2 3 4 5 6
    by (cases "r1 = VTrue"; cases "r2 = VTrue"; cases "r3 = VTrue"; cases "r4 = VTrue"; cases "r5 = VTrue"; cases "r6 = VTrue")
      (simp_all add: l op_after_key p kv and_then_assoc)
qed

lemma op_loop_visit:
  assumes "op_visit fp V ob ctx v = ((r, v'), False, ctx')"
  shows "op_loop fp V ob ctx v = op_after fp V ctx' (r, v')"
  by (subst op_loop.simps) (simp add: assms op_after_def)

lemma op_loop_start:
  assumes "op_visit fp V ob ctx v = ((r, v'), True, e # es)"
  shows "op_loop fp V ob ctx v = (if r \<noteq> VTrue then Some (r, v') else do { ob \<leftarrow> elem_get e; op_loop fp V ob (e # es) v' })"
  by (subst op_loop.simps) (simp add: assms)

lemma op_array_walks:
  assumes "\<forall>x \<in> set os. op_walks fp V x"
  shows "op_walks fp V (ARRAY os)"
  unfolding op_walks_def
proof (intro allI)
  fix ctx v
  obtain r1 v1 where 1: "start_array V (of_nat (length os)) v = (r1, v1)" by force
  obtain r2 v2 where 2: "start_array_item V v1 = (r2, v2)" by force
  show "op_loop fp V (ARRAY os) ctx v = op_after fp V ctx (walk fp V (ARRAY os) v)"
  proof (cases "r1 = VTrue \<and> os \<noteq> []")
    case True
    then obtain ob os' where os: "os = ob # os'" by (cases os) auto
    then show ?thesis
      using op_loop_start [of fp V "ARRAY os" ctx v r2 v2 "OpArr os (length os)" ctx] True 1 2
        op_items [of ob os' fp V ctx v2] assms
      by (auto simp: op_visit_def and_then_assoc)
  next
    case False
    then show ?thesis
      using op_loop_visit [of fp V "ARRAY os" ctx v r1 v1 "OpArr os (length os) # ctx"] 1
      by (auto simp: op_visit_def op_after_def or_abort_def and_then_def split: prod.splits)
  qed
qed

lemma op_map_walks:
  assumes "\<forall>y \<in> set kvs. case y of KV a b \<Rightarrow> op_walks fp V a \<and> op_walks fp V b"
  shows "op_walks fp V (MAP kvs)"
  unfolding op_walks_def
proof (intro allI)
  fix ctx v
  obtain r1 v1 where 1: "start_map V (of_nat (length kvs)) v = (r1, v1)" by force
  obtain r2 v2 where 2: "start_map_key V v1 = (r2, v2)" by force
  show "op_loop fp V (MAP kvs) ctx v = op_after fp V ctx (walk fp V (MAP kvs) v)"
  proof (cases "r1 = VTrue \<and> kvs \<noteq> []")
    case True
    then obtain k x kvs' where kvs: "kvs = KV k x # kvs'" by (cases kvs; cases "hd kvs") auto
    then show ?thesis
      using op_loop_start [of fp V "MAP kvs" ctx v r2 v2 "OpMap kvs (length kvs) True" ctx] True 1 2
        op_pairs [of k x kvs' fp V ctx v2] assms
      by (auto simp: op_visit_def and_then_assoc)
  next
    case False
    then show ?thesis
      using op_loop_visit [of fp V "MAP kvs" ctx v r1 v1 "OpMap kvs (length kvs) True # ctx"] 1
      by (auto simp: op_visit_def op_after_def or_abort_def and_then_def split: prod.splits)
  qed
qed

lemma op_scalar_walks:
  assumes "\<And>ctx v. op_visit fp V ob ctx v = (walk fp V ob v, False, ctx)"
  shows "op_walks fp V ob"
  using op_loop_visit [of fp V ob] assms by (metis op_walks_def surj_pair)

lemma all_op_walk:
  "op_walks fp V ob"
  "\<forall>x \<in> set os. op_walks fp V x"
  "\<forall>y \<in> set kvs. case y of KV a b \<Rightarrow> op_walks fp V a \<and> op_walks fp V b"
proof (induction ob and os and kvs rule: mobj_ok_mobjs_ok_pairs_ok.induct)
qed (auto intro: op_array_walks op_map_walks op_scalar_walks simp: op_visit_def)

lemma object_parse_walk: "object_parse fp V ob v = Some (walk fp V ob v)"
  using all_op_walk(1) [of fp V ob, unfolded op_walks_def] by (simp add: object_parse_def op_after_alone)

end
