(* ===== verification/Mp_Visitors.thy ===== *)
theory Mp_Visitors
  imports Mp_Object Mp_Documents
begin

text \<open>
  The visitors of \<^verbatim>\<open>msgpack-c/include/msgpack/v1/object.hpp\<close>: packing an object, comparing two objects,
  printing an object as text and measuring the memory a copy needs.
\<close>

subsection \<open>\<^verbatim>\<open>object_pack_visitor\<close>\<close>

text \<open>The packer is a reference in the source, here the state; a stream that fails throws.\<close>

definition pk_call :: "('s \<Rightarrow> 's option) \<Rightarrow> 's \<Rightarrow> vres \<times> 's" where
  "pk_call f s = (case f s of Some s \<Rightarrow> (VTrue, s) | None \<Rightarrow> (VThrow bad_alloc, s))"

definition object_pack_visitor :: "'s stream_write \<Rightarrow> 's visitor" where
  "object_pack_visitor wr = null_visitor
     \<lparr>visit_nil := pk_call (pack_nil wr),
      visit_boolean := \<lambda>v. pk_call (if v then pack_true wr else pack_false wr),
      visit_positive_integer := \<lambda>v. pk_call (pack_uint64 wr v),
      visit_negative_integer := \<lambda>v. pk_call (pack_int64 wr v),
      visit_float32 := \<lambda>v. pk_call (pack_float wr v),
      visit_float64 := \<lambda>v. pk_call (pack_double wr v),
      visit_str := \<lambda>bs. pk_call (\<lambda>s. pack_str wr (of_nat (length bs)) s \<bind> pack_str_body wr bs),
      visit_bin := \<lambda>bs. pk_call (\<lambda>s. pack_bin wr (of_nat (length bs)) s \<bind> pack_bin_body wr bs),
      visit_ext := \<lambda>bs. pk_call (\<lambda>s. pack_ext wr (of_nat (length bs)) (hd bs) s \<bind> pack_ext_body wr bs),
      start_array := \<lambda>n. pk_call (pack_array wr n),
      start_map := \<lambda>n. pk_call (pack_array wr n)\<rparr>"

text \<open>\<^verbatim>\<open>packer << object\<close>; the stream after it, or the exception.\<close>

definition pack_object :: "fpu \<Rightarrow> 's stream_write \<Rightarrow> mobj \<Rightarrow> 's \<Rightarrow> (mp_exn + 's) option" where
  "pack_object fp wr ob s = do {
     (r, s) \<leftarrow> object_parse fp (object_pack_visitor wr) ob s;
     Some (case r of VThrow x \<Rightarrow> Inl x | _ \<Rightarrow> Inr s) }"

text \<open>The bytes it writes: a map gets the header of an array, an extension its type byte twice and a
  length that is too large by one.\<close>

fun obj_bytes :: "fpu \<Rightarrow> mobj \<Rightarrow> byte list"
  and objs_bytes :: "fpu \<Rightarrow> mobj list \<Rightarrow> byte list"
  and kvs_bytes :: "fpu \<Rightarrow> object_kv list \<Rightarrow> byte list" where
  "obj_bytes fp (ARRAY os) = enc_array (of_nat (length os)) @ objs_bytes fp os"
| "obj_bytes fp (MAP kvs) = enc_array (of_nat (length kvs)) @ kvs_bytes fp kvs"
| "obj_bytes fp (EXT bs) = enc_ext (of_nat (length bs)) (hd bs) @ bs"
| "obj_bytes fp NIL = enc_value fp NIL"
| "obj_bytes fp (BOOLEAN b) = enc_value fp (BOOLEAN b)"
| "obj_bytes fp (POSITIVE_INTEGER u) = enc_value fp (POSITIVE_INTEGER u)"
| "obj_bytes fp (NEGATIVE_INTEGER i) = enc_value fp (NEGATIVE_INTEGER i)"
| "obj_bytes fp (FLOAT32 d) = enc_value fp (FLOAT32 d)"
| "obj_bytes fp (FLOAT64 d) = enc_value fp (FLOAT64 d)"
| "obj_bytes fp (STR_t bs) = enc_value fp (STR_t bs)"
| "obj_bytes fp (BIN bs) = enc_value fp (BIN bs)"
| "objs_bytes fp [] = []"
| "objs_bytes fp (ob # os) = obj_bytes fp ob @ objs_bytes fp os"
| "kvs_bytes fp [] = []"
| "kvs_bytes fp (KV k x # kvs) = obj_bytes fp k @ obj_bytes fp x @ kvs_bytes fp kvs"

text \<open>Objects without maps and extensions.\<close>

fun plain :: "mobj \<Rightarrow> bool" where
  "plain (MAP kvs) \<longleftrightarrow> False"
| "plain (EXT bs) \<longleftrightarrow> False"
| "plain (ARRAY os) \<longleftrightarrow> list_all plain os"
| "plain _ \<longleftrightarrow> True"

lemma plain_bytes:
  "plain ob \<Longrightarrow> obj_bytes fp ob = enc_value fp ob"
  "list_all plain os \<Longrightarrow> objs_bytes fp os = enc_values fp os"
  "list_all (\<lambda>kv. case kv of KV k x \<Rightarrow> plain k \<and> plain x) kvs \<Longrightarrow> kvs_bytes fp kvs = enc_pairs fp kvs"
  by (induction fp ob and fp os and fp kvs rule: obj_bytes_objs_bytes_kvs_bytes.induct) simp_all

lemmas pack_visitor_simps = object_pack_visitor_def null_visitor_def

lemma pk_call_and_then: "pk_call f s = (VTrue, s') \<longleftrightarrow> f s = Some s'"
  by (auto simp: pk_call_def split: option.splits)

text \<open>On a total stream the walk writes these bytes.\<close>

context total_byte_stream
begin

definition writes :: "('s \<Rightarrow> vres \<times> 's) \<Rightarrow> byte list \<Rightarrow> bool" where
  "writes f bs \<longleftrightarrow> (\<forall>s. inv s \<and> length (written s) + length bs < limit \<longrightarrow>
     (\<exists>s'. f s = (VTrue, s') \<and> inv s' \<and> written s' = written s @ bs))"

lemma writes_call: "accepts f bs \<Longrightarrow> writes (pk_call f) bs"
  unfolding writes_def pk_call_and_then accepts_def puts_def by blast

lemma writes_Nil: "writes (Pair VTrue) []"
  by (simp add: writes_def)

lemma writes_append:
  assumes "writes f xs" and "writes g ys"
  shows "writes (\<lambda>s. and_then (f s) g) (xs @ ys)"
  unfolding writes_def
proof (intro allI impI, elim conjE)
  fix s assume s: "inv s" "length (written s) + length (xs @ ys) < limit"
  then have "length (written s) + length xs < limit" by simp
  with assms(1) s(1) obtain t where t: "f s = (VTrue, t)" "inv t" "written t = written s @ xs"
    unfolding writes_def by blast
  have "length (written t) + length ys < limit" using s(2) t(3) by simp
  with assms(2) t(2) obtain u where "g t = (VTrue, u)" "inv u" "written u = written t @ ys"
    unfolding writes_def by blast
  then show "\<exists>s'. and_then (f s) g = (VTrue, s') \<and> inv s' \<and> written s' = written s @ xs @ ys"
    using t by simp
qed

lemma pack_writes:
  "writes (walk fp (object_pack_visitor wr) ob) (obj_bytes fp ob)"
  "writes (walk_items fp (object_pack_visitor wr) os) (objs_bytes fp os)"
  "writes (walk_pairs fp (object_pack_visitor wr) kvs) (kvs_bytes fp kvs)"
  by (induction fp ob and fp os and fp kvs rule: obj_bytes_objs_bytes_kvs_bytes.induct)
    (simp_all add: walk_funs pack_visitor_simps pack_enc pack_simple writes_Nil
      writes_append [OF writes_call] writes_append writes_call accepts_write accepts_append)

end

lemma pack_object_bytes:
  assumes "\<forall>n. grants h n" and "sbuffer_ok b" and "length (sbuffer_contents b) + length (obj_bytes fp ob) < 2 ^ 64"
  shows "\<exists>b'. pack_object fp (sbuffer_stream h) ob b = Some (Inr b') \<and> sbuffer_ok b' \<and>
     sbuffer_contents b' = sbuffer_contents b @ obj_bytes fp ob"
proof -
  have h: "h = h\<lparr>grants := \<lambda>_. True\<rparr>" using assms(1) by (cases h) (auto simp: fun_eq_iff)
  obtain b' where "walk fp (object_pack_visitor (sbuffer_stream h)) ob b = (VTrue, b')" "sbuffer_ok b'"
      "sbuffer_contents b' = sbuffer_contents b @ obj_bytes fp ob"
    using sbuf_granted.pack_writes(1) [of fp h ob] assms(2,3) unfolding sbuf_granted.writes_def h [symmetric] by blast
  then show ?thesis by (simp add: pack_object_def object_parse_walk)
qed

subsection \<open>\<^verbatim>\<open>object_equal_visitor\<close>\<close>

text \<open>The visitor walks the second object by pointers: \<open>eq_ptr\<close> is \<^verbatim>\<open>m_ptr\<close>, an element of \<open>eq_objs\<close> a
  pointer into an array or a map. A state \<^const>\<open>None\<close> is a pointer followed past the end.\<close>

datatype eq_elem = EqObj "mobj list" | EqKv "object_kv list"

record eq_state =
  eq_ptr :: "mobj option"
  eq_objs :: "eq_elem list"
  eq_result :: bool

type_synonym eq_call = "eq_state option \<Rightarrow> vres \<times> eq_state option"

text \<open>\<^verbatim>\<open>if (... != ...) { m_result = false; return false; } return true;\<close>\<close>

definition eq_check :: "(mobj \<Rightarrow> bool) \<Rightarrow> eq_call" where
  "eq_check same st =
     (case st of
        Some s \<Rightarrow>
          (case eq_ptr s of
             Some y \<Rightarrow> if same y then (VTrue, st) else (VFalse, Some (s\<lparr>eq_result := False\<rparr>))
           | None \<Rightarrow> (VFalse, None))
      | None \<Rightarrow> (VFalse, None))"

definition eq_push :: "(mobj \<Rightarrow> bool) \<Rightarrow> (mobj \<Rightarrow> eq_elem) \<Rightarrow> eq_call" where
  "eq_push same elem st =
     and_then (eq_check same st) (\<lambda>st.
       (VTrue, map_option (\<lambda>s. s\<lparr>eq_objs := elem (the (eq_ptr s)) # eq_objs s\<rparr>) st))"

definition eq_top :: "(eq_elem \<Rightarrow> eq_state \<Rightarrow> eq_state option) \<Rightarrow> eq_call" where
  "eq_top f st =
     (case st of
        Some s \<Rightarrow>
          (case eq_objs s of
             e # es \<Rightarrow> (case f e s of Some s \<Rightarrow> (VTrue, Some s) | None \<Rightarrow> (VFalse, None))
           | [] \<Rightarrow> (VFalse, None))
      | None \<Rightarrow> (VFalse, None))"

fun eq_item :: "eq_elem \<Rightarrow> mobj option" where
  "eq_item (EqObj (ob # os)) = Some ob"
| "eq_item _ = None"

fun eq_key :: "eq_elem \<Rightarrow> mobj option" where
  "eq_key (EqKv (KV k x # kvs)) = Some k"
| "eq_key _ = None"

fun eq_val :: "eq_elem \<Rightarrow> mobj option" where
  "eq_val (EqKv (KV k x # kvs)) = Some x"
| "eq_val _ = None"

fun eq_step :: "eq_elem \<Rightarrow> eq_elem" where
  "eq_step (EqObj os) = EqObj (tl os)"
| "eq_step (EqKv kvs) = EqKv (tl kvs)"

definition eq_goto :: "(eq_elem \<Rightarrow> mobj option) \<Rightarrow> eq_call" where
  "eq_goto get = eq_top (\<lambda>e s. Some (s\<lparr>eq_ptr := get e\<rparr>))"

definition eq_advance :: eq_call where
  "eq_advance = eq_top (\<lambda>e s. Some (s\<lparr>eq_objs := eq_step e # tl (eq_objs s)\<rparr>))"

definition eq_pop :: eq_call where
  "eq_pop = eq_top (\<lambda>e s. Some (s\<lparr>eq_objs := tl (eq_objs s)\<rparr>))"

definition object_equal_visitor :: "fpu \<Rightarrow> eq_state option visitor" where
  "object_equal_visitor fp = null_visitor
     \<lparr>visit_nil := eq_check (\<lambda>y. y = NIL),
      visit_boolean := \<lambda>v. eq_check (\<lambda>y. y = BOOLEAN v),
      visit_positive_integer := \<lambda>v. eq_check (\<lambda>y. y = POSITIVE_INTEGER v),
      visit_negative_integer := \<lambda>v. eq_check (\<lambda>y. y = NEGATIVE_INTEGER v),
      visit_float32 := \<lambda>v. eq_check (\<lambda>y. case y of FLOAT32 d \<Rightarrow> fp_equal fp d (fp_widen fp v) | _ \<Rightarrow> False),
      visit_float64 := \<lambda>v. eq_check (\<lambda>y. case y of FLOAT64 d \<Rightarrow> fp_equal fp d v | _ \<Rightarrow> False),
      visit_str := \<lambda>bs. eq_check (\<lambda>y. case y of STR_t cs \<Rightarrow> length cs = length bs \<and> take (length bs) cs = bs | _ \<Rightarrow> False),
      visit_bin := \<lambda>bs. eq_check (\<lambda>y. case y of BIN cs \<Rightarrow> length cs = length bs \<and> take (length bs) cs = bs | _ \<Rightarrow> False),
      visit_ext := \<lambda>bs. eq_check (\<lambda>y. case y of EXT cs \<Rightarrow> length cs - 1 = length bs \<and> take (length bs) cs = bs | _ \<Rightarrow> False),
      start_array := \<lambda>n. eq_push (\<lambda>y. case y of ARRAY os \<Rightarrow> of_nat (length os) = n | _ \<Rightarrow> False)
        (\<lambda>y. case y of ARRAY os \<Rightarrow> EqObj os | _ \<Rightarrow> EqObj []),
      start_array_item := eq_goto eq_item,
      end_array_item := eq_advance,
      end_array := eq_pop,
      start_map := \<lambda>n. eq_push (\<lambda>y. case y of MAP kvs \<Rightarrow> of_nat (length kvs) = n | _ \<Rightarrow> False)
        (\<lambda>y. case y of MAP kvs \<Rightarrow> EqKv kvs | _ \<Rightarrow> EqKv []),
      start_map_key := eq_goto eq_key,
      start_map_value := eq_goto eq_val,
      end_map_value := eq_advance,
      end_map := eq_pop\<rparr>"

datatype object_type = T_NIL | T_BOOLEAN | T_POSITIVE_INTEGER | T_NEGATIVE_INTEGER | T_FLOAT32 | T_FLOAT64
  | T_STR | T_BIN | T_ARRAY | T_MAP | T_EXT

definition type_of :: "mobj \<Rightarrow> object_type" where
  "type_of ob =
     (case ob of
        NIL \<Rightarrow> T_NIL | BOOLEAN _ \<Rightarrow> T_BOOLEAN | POSITIVE_INTEGER _ \<Rightarrow> T_POSITIVE_INTEGER
      | NEGATIVE_INTEGER _ \<Rightarrow> T_NEGATIVE_INTEGER | FLOAT32 _ \<Rightarrow> T_FLOAT32 | FLOAT64 _ \<Rightarrow> T_FLOAT64
      | STR_t _ \<Rightarrow> T_STR | BIN _ \<Rightarrow> T_BIN | EXT _ \<Rightarrow> T_EXT | ARRAY _ \<Rightarrow> T_ARRAY | MAP _ \<Rightarrow> T_MAP)"

text \<open>\<^verbatim>\<open>operator==\<close>\<close>

definition object_equal :: "fpu \<Rightarrow> mobj \<Rightarrow> mobj \<Rightarrow> bool option" where
  "object_equal fp x y =
     (if type_of x \<noteq> type_of y then Some False
      else do {
        (r, st) \<leftarrow> object_parse fp (object_equal_visitor fp) x (Some \<lparr>eq_ptr = Some y, eq_objs = [], eq_result = True\<rparr>);
        s \<leftarrow> st;
        Some (eq_result s) })"

text \<open>What it computes: equality member by member, except for extensions, where the size with the type
  byte is compared with the size without.\<close>

primrec kv_key :: "object_kv \<Rightarrow> mobj" where "kv_key (KV k x) = k"
primrec kv_val :: "object_kv \<Rightarrow> mobj" where "kv_val (KV k x) = x"

fun array_of :: "mobj \<Rightarrow> mobj list option" where
  "array_of (ARRAY os) = Some os"
| "array_of _ = None"

fun map_of_obj :: "mobj \<Rightarrow> object_kv list option" where
  "map_of_obj (MAP kvs) = Some kvs"
| "map_of_obj _ = None"

fun obj_eq :: "fpu \<Rightarrow> mobj \<Rightarrow> mobj \<Rightarrow> bool"
  and objs_eq :: "fpu \<Rightarrow> mobj list \<Rightarrow> mobj list \<Rightarrow> bool"
  and kvs_eq :: "fpu \<Rightarrow> object_kv list \<Rightarrow> object_kv list \<Rightarrow> bool" where
  "obj_eq fp (FLOAT32 d) y = (case y of FLOAT32 d' \<Rightarrow> fp_equal fp d' (fp_widen fp (fp_narrow fp d)) | _ \<Rightarrow> False)"
| "obj_eq fp (FLOAT64 d) y = (case y of FLOAT64 d' \<Rightarrow> fp_equal fp d' d | _ \<Rightarrow> False)"
| "obj_eq fp (EXT bs) y = (case y of EXT cs \<Rightarrow> length cs - 1 = length bs \<and> take (length bs) cs = bs | _ \<Rightarrow> False)"
| "obj_eq fp (ARRAY os) y = (case array_of y of Some os' \<Rightarrow> length os = length os' \<and> objs_eq fp os os' | None \<Rightarrow> False)"
| "obj_eq fp (MAP kvs) y = (case map_of_obj y of Some kvs' \<Rightarrow> length kvs = length kvs' \<and> kvs_eq fp kvs kvs' | None \<Rightarrow> False)"
| "obj_eq fp NIL y = (y = NIL)"
| "obj_eq fp (BOOLEAN b) y = (y = BOOLEAN b)"
| "obj_eq fp (POSITIVE_INTEGER u) y = (y = POSITIVE_INTEGER u)"
| "obj_eq fp (NEGATIVE_INTEGER i) y = (y = NEGATIVE_INTEGER i)"
| "obj_eq fp (STR_t bs) y = (y = STR_t bs)"
| "obj_eq fp (BIN bs) y = (y = BIN bs)"
| "objs_eq fp [] ys = True"
| "objs_eq fp (x # xs) ys = (ys \<noteq> [] \<and> obj_eq fp x (hd ys) \<and> objs_eq fp xs (tl ys))"
| "kvs_eq fp [] ys = True"
| "kvs_eq fp (KV k x # kvs) ys =
     (ys \<noteq> [] \<and> obj_eq fp k (kv_key (hd ys)) \<and> obj_eq fp x (kv_val (hd ys)) \<and> kvs_eq fp kvs (tl ys))"

text \<open>The outcome of a part of the comparison: it went on with the stack \<open>es\<close>, or stopped and said no.\<close>

definition compares :: "bool \<Rightarrow> eq_elem list \<Rightarrow> vres \<times> eq_state option \<Rightarrow> bool" where
  "compares same es res \<longleftrightarrow>
     (if same then \<exists>p. res = (VTrue, Some \<lparr>eq_ptr = p, eq_objs = es, eq_result = True\<rparr>)
      else \<exists>s. res = (VFalse, Some s) \<and> \<not> eq_result s)"

lemma compares_and_then:
  assumes "compares same es rv"
    and "\<And>p. compares same' es' (k (Some \<lparr>eq_ptr = p, eq_objs = es, eq_result = True\<rparr>))"
  shows "compares (same \<and> same') es' (and_then rv k)"
  using assms by (auto simp: compares_def split: if_splits)

lemma compares_check:
  "compares (same y) es (eq_check same (Some \<lparr>eq_ptr = Some y, eq_objs = es, eq_result = True\<rparr>))"
  by (simp add: compares_def eq_check_def)

lemma compares_push:
  "compares (same y) (elem y # es) (eq_push same elem (Some \<lparr>eq_ptr = Some y, eq_objs = es, eq_result = True\<rparr>))"
  by (simp add: compares_def eq_check_def eq_push_def)

lemma eq_top_simps:
  "eq_goto get (Some \<lparr>eq_ptr = p, eq_objs = e # es, eq_result = b\<rparr>) = (VTrue, Some \<lparr>eq_ptr = get e, eq_objs = e # es, eq_result = b\<rparr>)"
  "eq_advance (Some \<lparr>eq_ptr = p, eq_objs = e # es, eq_result = b\<rparr>) = (VTrue, Some \<lparr>eq_ptr = p, eq_objs = eq_step e # es, eq_result = b\<rparr>)"
  "eq_pop (Some \<lparr>eq_ptr = p, eq_objs = e # es, eq_result = b\<rparr>) = (VTrue, Some \<lparr>eq_ptr = p, eq_objs = es, eq_result = b\<rparr>)"
  by (simp_all add: eq_goto_def eq_advance_def eq_pop_def eq_top_def)

lemmas equal_visitor_simps = object_equal_visitor_def null_visitor_def eq_top_simps

lemma of_nat_32_eq: "m < 2 ^ 32 \<Longrightarrow> n < 2 ^ 32 \<Longrightarrow> (of_nat m :: 32 word) = of_nat n \<longleftrightarrow> m = n"
  by (metis unat_of_nat_small)

lemma compares_stop: "compares False es rv \<Longrightarrow> compares False es' (and_then rv k)"
  using compares_and_then [of False es rv False es' k] by (auto simp: compares_def)

lemma compares_goto:
  assumes "get e = Some y" and "compares same es' (k (Some \<lparr>eq_ptr = Some y, eq_objs = e # es, eq_result = True\<rparr>))"
  shows "compares same es' (and_then (eq_goto get (Some \<lparr>eq_ptr = p, eq_objs = e # es, eq_result = True\<rparr>)) k)"
  using assms by (simp add: eq_top_simps)

lemma compares_pop:
  "compares same (e # es) rv \<Longrightarrow> compares same es (and_then rv eq_pop)"
  using compares_and_then [of same "e # es" rv True es eq_pop] by (simp add: eq_top_simps compares_def)

lemma equal_callbacks:
  "start_array_item (object_equal_visitor fp) = eq_goto eq_item" "end_array_item (object_equal_visitor fp) = eq_advance"
  "end_array (object_equal_visitor fp) = eq_pop" "start_map_key (object_equal_visitor fp) = eq_goto eq_key"
  "end_map_key (object_equal_visitor fp) = Pair VTrue" "start_map_value (object_equal_visitor fp) = eq_goto eq_val"
  "end_map_value (object_equal_visitor fp) = eq_advance" "end_map (object_equal_visitor fp) = eq_pop"
  by (simp_all add: object_equal_visitor_def null_visitor_def)

lemma walk_compares:
  "mobj_ok x \<Longrightarrow> mobj_ok y \<Longrightarrow>
     compares (obj_eq fp x y) es (walk fp (object_equal_visitor fp) x (Some \<lparr>eq_ptr = Some y, eq_objs = es, eq_result = True\<rparr>))"
  "mobjs_ok xs \<Longrightarrow> mobjs_ok ys \<Longrightarrow> length xs = length ys \<Longrightarrow>
     compares (objs_eq fp xs ys) (EqObj [] # es) (walk_items fp (object_equal_visitor fp) xs
       (Some \<lparr>eq_ptr = p, eq_objs = EqObj ys # es, eq_result = True\<rparr>))"
  "pairs_ok kvs \<Longrightarrow> pairs_ok kvs' \<Longrightarrow> length kvs = length kvs' \<Longrightarrow>
     compares (kvs_eq fp kvs kvs') (EqKv [] # es) (walk_pairs fp (object_equal_visitor fp) kvs
       (Some \<lparr>eq_ptr = p, eq_objs = EqKv kvs' # es, eq_result = True\<rparr>))"
proof (induction fp x y and fp xs ys and fp kvs kvs' arbitrary: es and p es and p es rule: obj_eq_objs_eq_kvs_eq.induct)
  case (4 fp os y es)
  let ?push = "start_array (object_equal_visitor fp) (of_nat (length os)) (Some \<lparr>eq_ptr = Some y, eq_objs = es, eq_result = True\<rparr>)"
  show ?case
  proof (cases "\<exists>os'. y = ARRAY os' \<and> length os = length os'")
    case True
    then obtain os' where y: "y = ARRAY os'" "length os = length os'" by blast
    have "?push = (VTrue, Some \<lparr>eq_ptr = Some y, eq_objs = EqObj os' # es, eq_result = True\<rparr>)"
      using y by (simp add: equal_visitor_simps eq_push_def eq_check_def)
    with 4 y show ?thesis by (auto simp: equal_callbacks intro!: compares_pop)
  next
    case False
    have "compares False es ?push"
      using False 4 of_nat_32_eq by (auto simp: equal_visitor_simps eq_push_def eq_check_def compares_def split: mobj.splits)
    moreover have "\<not> obj_eq fp (ARRAY os) y" using False by (cases y) auto
    ultimately show ?thesis by (simp add: compares_stop)
  qed
next
  case (5 fp kvs y es)
  let ?push = "start_map (object_equal_visitor fp) (of_nat (length kvs)) (Some \<lparr>eq_ptr = Some y, eq_objs = es, eq_result = True\<rparr>)"
  show ?case
  proof (cases "\<exists>kvs'. y = MAP kvs' \<and> length kvs = length kvs'")
    case True
    then obtain kvs' where y: "y = MAP kvs'" "length kvs = length kvs'" by blast
    have "?push = (VTrue, Some \<lparr>eq_ptr = Some y, eq_objs = EqKv kvs' # es, eq_result = True\<rparr>)"
      using y by (simp add: equal_visitor_simps eq_push_def eq_check_def)
    with 5 y show ?thesis by (auto simp: equal_callbacks intro!: compares_pop)
  next
    case False
    have "compares False es ?push"
      using False 5 of_nat_32_eq by (auto simp: equal_visitor_simps eq_push_def eq_check_def compares_def split: mobj.splits)
    moreover have "\<not> obj_eq fp (MAP kvs) y" using False by (cases y) auto
    ultimately show ?thesis by (simp add: compares_stop)
  qed
next
  case (13 fp x xs ys p es)
  then obtain y ys' where ys: "ys = y # ys'" by (cases ys) auto
  show ?case using 13 unfolding ys
    by (auto simp: equal_callbacks eq_top_simps intro!: compares_and_then)
next
  case (15 fp k x kvs kvs' p es)
  then obtain k' x' kvs2 where kvs': "kvs' = KV k' x' # kvs2" by (metis object_kv.exhaust length_0_conv list.exhaust list.distinct(1))
  have x: "compares (obj_eq fp x x' \<and> kvs_eq fp kvs kvs2) (EqKv [] # es)
      (and_then (walk fp (object_equal_visitor fp) x (Some \<lparr>eq_ptr = Some x', eq_objs = EqKv kvs' # es, eq_result = True\<rparr>))
        (\<lambda>v. and_then (eq_advance v) (walk_pairs fp (object_equal_visitor fp) kvs)))"
    by (rule compares_and_then) (use 15 in \<open>auto simp: equal_callbacks eq_top_simps kvs'\<close>)
  have "compares (obj_eq fp k k' \<and> obj_eq fp x x' \<and> kvs_eq fp kvs kvs2) (EqKv [] # es)
      (and_then (walk fp (object_equal_visitor fp) k (Some \<lparr>eq_ptr = Some k', eq_objs = EqKv kvs' # es, eq_result = True\<rparr>))
        (\<lambda>v. and_then (eq_goto eq_val v) (\<lambda>v. and_then (walk fp (object_equal_visitor fp) x v)
          (\<lambda>v. and_then (eq_advance v) (walk_pairs fp (object_equal_visitor fp) kvs)))))"
    by (rule compares_and_then) (use 15 x in \<open>auto simp: equal_callbacks eq_top_simps kvs'\<close>)
  then show ?case by (simp add: equal_callbacks eq_top_simps kvs')
qed (auto simp: equal_visitor_simps compares_def eq_check_def split: mobj.splits)

lemma obj_eq_type: "obj_eq fp x y \<Longrightarrow> type_of x = type_of y"
  by (cases x; cases y; simp add: type_of_def)

lemma object_equal_eq:
  assumes "mobj_ok x" and "mobj_ok y"
  shows "object_equal fp x y = Some (obj_eq fp x y)"
  using walk_compares(1) [OF assms, of fp "[]"] obj_eq_type [of fp x y]
  by (auto simp: object_equal_def object_parse_walk compares_def split: if_splits)

text \<open>On objects without floats and extensions it is equality.\<close>

fun exact :: "mobj \<Rightarrow> bool" where
  "exact (FLOAT32 d) \<longleftrightarrow> False"
| "exact (FLOAT64 d) \<longleftrightarrow> False"
| "exact (EXT bs) \<longleftrightarrow> False"
| "exact (ARRAY os) \<longleftrightarrow> list_all exact os"
| "exact (MAP kvs) \<longleftrightarrow> list_all (\<lambda>kv. case kv of KV k x \<Rightarrow> exact k \<and> exact x) kvs"
| "exact _ \<longleftrightarrow> True"

lemma obj_eq_exact:
  "exact x \<Longrightarrow> obj_eq fp x y \<longleftrightarrow> x = y"
  "list_all exact xs \<Longrightarrow> length xs = length ys \<Longrightarrow> objs_eq fp xs ys \<longleftrightarrow> xs = ys"
  "list_all (\<lambda>kv. case kv of KV k x \<Rightarrow> exact k \<and> exact x) kvs \<Longrightarrow> length kvs = length kvs' \<Longrightarrow> kvs_eq fp kvs kvs' \<longleftrightarrow> kvs = kvs'"
proof (induction fp x y and fp xs ys and fp kvs kvs' rule: obj_eq_objs_eq_kvs_eq.induct)
  case (4 fp os y)
  then show ?case by (cases y) auto
next
  case (5 fp kvs y)
  then show ?case by (cases y) auto
next
  case (13 fp x xs ys)
  then show ?case by (cases ys) auto
next
  case (15 fp k x kvs ys)
  then show ?case by (cases ys; cases "hd ys") auto
qed auto

end
