(* ===== verification/Mp_Text.thy ===== *)
theory Mp_Text
  imports Mp_Object
begin

text \<open>
  An object printed as text (\<^verbatim>\<open>object_stringize_visitor\<close> and \<^verbatim>\<open>operator<<(std::ostream&, object const&)\<close>,
  \<^verbatim>\<open>msgpack-c/include/msgpack/v1/object.hpp\<close>). The stream is the list of bytes written so far, with the
  default flags; how the standard library prints a \<^verbatim>\<open>float\<close> or a \<^verbatim>\<open>double\<close> is a parameter.
\<close>

definition asc :: "string \<Rightarrow> byte list" where
  "asc cs = map of_char cs"

lemma asc_simps [simp]: "asc [] = []" "asc (c # cs) = of_char c # asc cs"
  by (simp_all add: asc_def)

record float_text =
  show_float :: "32 word \<Rightarrow> byte list"
  show_double :: "64 word \<Rightarrow> byte list"

fun show_nat :: "nat \<Rightarrow> byte list" where
  "show_nat n = (if n < 10 then [of_nat (48 + n)] else show_nat (n div 10) @ [of_nat (48 + n mod 10)])"

declare show_nat.simps [simp del]

definition show_int :: "int \<Rightarrow> byte list" where
  "show_int i = (if i < 0 then asc ''-'' @ show_nat (nat (- i)) else show_nat (nat i))"

definition hex_digit :: "nat \<Rightarrow> byte" where
  "hex_digit n = (if n < 10 then of_nat (48 + n) else of_nat (87 + n))"

text \<open>\<^verbatim>\<open>std::hex << std::setw(4) << std::setfill('0') << n\<close> for a number of at most four digits\<close>

definition show_hex4 :: "nat \<Rightarrow> byte list" where
  "show_hex4 n = [hex_digit (n div 4096 mod 16), hex_digit (n div 256 mod 16), hex_digit (n div 16 mod 16), hex_digit (n mod 16)]"

subsection \<open>\<^verbatim>\<open>object_stringize_visitor\<close>\<close>

record text_state =
  tx_os :: "byte list"
  tx_sizes :: "32 word list"

type_synonym text_call = "text_state option \<Rightarrow> vres \<times> text_state option"

text \<open>A state \<^const>\<open>None\<close> is the last element of an empty vector.\<close>

definition tx_out :: "byte list \<Rightarrow> text_call" where
  "tx_out bs st = (VTrue, map_option (\<lambda>s. s\<lparr>tx_os := tx_os s @ bs\<rparr>) st)"

definition tx_start :: "byte list \<Rightarrow> 32 word \<Rightarrow> text_call" where
  "tx_start bs n st = tx_out bs (map_option (\<lambda>s. s\<lparr>tx_sizes := n # tx_sizes s\<rparr>) st)"

definition tx_item :: text_call where
  "tx_item st = (VTrue, do {
     s \<leftarrow> st;
     case tx_sizes s of
       [] \<Rightarrow> None
     | n # ns \<Rightarrow> Some (s\<lparr>tx_sizes := (n - 1) # ns, tx_os := tx_os s @ (if n - 1 \<noteq> 0 then asc '','' else [])\<rparr>) })"

definition tx_end :: "byte list \<Rightarrow> text_call" where
  "tx_end bs st = (VTrue, do {
     s \<leftarrow> st;
     case tx_sizes s of
       [] \<Rightarrow> None
     | n # ns \<Rightarrow> Some (s\<lparr>tx_sizes := ns, tx_os := tx_os s @ bs\<rparr>) })"

text \<open>A \<^verbatim>\<open>char\<close> is signed, and extended with its sign to an \<^verbatim>\<open>unsigned int\<close>.\<close>

definition escape_char :: "byte \<Rightarrow> byte list" where
  "escape_char c =
     (let backslash = 0x5c; code = (scast c :: 32 word) in
      if c = 0x5c then [backslash, 0x5c]
      else if c = 0x22 then [backslash, 0x22]
      else if c = 0x2f then [backslash, 0x2f]
      else if c = 0x08 then backslash # asc ''b''
      else if c = 0x0c then backslash # asc ''f''
      else if c = 0x0a then backslash # asc ''n''
      else if c = 0x0d then backslash # asc ''r''
      else if c = 0x09 then backslash # asc ''t''
      else if code < 0x20 \<or> code = 0x7f then backslash # asc ''u'' @ show_hex4 (unat (code AND 0xff))
      else [c])"

definition escape :: "byte list \<Rightarrow> byte list" where
  "escape bs = concat (map escape_char bs)"

definition object_stringize_visitor :: "float_text \<Rightarrow> text_state option visitor" where
  "object_stringize_visitor ft = null_visitor
     \<lparr>visit_nil := tx_out (asc ''null''),
      visit_boolean := \<lambda>v. tx_out (if v then asc ''true'' else asc ''false''),
      visit_positive_integer := \<lambda>v. tx_out (show_nat (unat v)),
      visit_negative_integer := \<lambda>v. tx_out (show_int (sint v)),
      visit_float32 := \<lambda>v. tx_out (show_float ft v),
      visit_float64 := \<lambda>v. tx_out (show_double ft v),
      visit_str := \<lambda>bs. tx_out ([0x22] @ escape bs @ [0x22]),
      visit_bin := \<lambda>bs. tx_out ([0x22] @ bs @ [0x22]),
      visit_ext := \<lambda>bs. tx_out (asc ''EXT''),
      start_array := tx_start (asc ''[''),
      end_array_item := tx_item,
      end_array := tx_end (asc '']''),
      start_map := tx_start (asc ''{''),
      end_map_key := tx_out (asc '':''),
      end_map_value := tx_item,
      end_map := tx_end (asc ''}'')\<rparr>"

text \<open>\<^verbatim>\<open>os << object\<close>\<close>

definition stringize :: "fpu \<Rightarrow> float_text \<Rightarrow> mobj \<Rightarrow> byte list \<Rightarrow> byte list option" where
  "stringize fp ft ob os = do {
     (r, st) \<leftarrow> object_parse fp (object_stringize_visitor ft) ob (Some \<lparr>tx_os = os, tx_sizes = []\<rparr>);
     map_option tx_os st }"

subsection \<open>The text by structural recursion\<close>

text \<open>The elements are separated by commas, which the visitor counts down to.\<close>

fun join :: "byte list list \<Rightarrow> byte list" where
  "join [] = []"
| "join [t] = t"
| "join (t # ts) = t @ asc '','' @ join ts"

fun obj_text :: "fpu \<Rightarrow> float_text \<Rightarrow> mobj \<Rightarrow> byte list"
  and item_texts :: "fpu \<Rightarrow> float_text \<Rightarrow> mobj list \<Rightarrow> byte list list"
  and pair_texts :: "fpu \<Rightarrow> float_text \<Rightarrow> object_kv list \<Rightarrow> byte list list" where
  "obj_text fp ft NIL = asc ''null''"
| "obj_text fp ft (BOOLEAN b) = (if b then asc ''true'' else asc ''false'')"
| "obj_text fp ft (POSITIVE_INTEGER u) = show_int (uint u)"
| "obj_text fp ft (NEGATIVE_INTEGER i) = show_int (sint i)"
| "obj_text fp ft (FLOAT32 d) = show_float ft (fp_narrow fp d)"
| "obj_text fp ft (FLOAT64 d) = show_double ft d"
| "obj_text fp ft (STR_t bs) = [0x22] @ escape bs @ [0x22]"
| "obj_text fp ft (BIN bs) = [0x22] @ bs @ [0x22]"
| "obj_text fp ft (EXT bs) = asc ''EXT''"
| "obj_text fp ft (ARRAY os) = asc ''['' @ join (item_texts fp ft os) @ asc '']''"
| "obj_text fp ft (MAP kvs) = asc ''{'' @ join (pair_texts fp ft kvs) @ asc ''}''"
| "item_texts fp ft [] = []"
| "item_texts fp ft (ob # os) = obj_text fp ft ob # item_texts fp ft os"
| "pair_texts fp ft [] = []"
| "pair_texts fp ft (KV k x # kvs) = (obj_text fp ft k @ asc '':'' @ obj_text fp ft x) # pair_texts fp ft kvs"

lemma join_Cons: "join (t # ts) = t @ (if ts = [] then [] else asc '','' @ join ts)"
  by (cases ts) simp_all

lemma texts_empty: "item_texts fp ft os = [] \<longleftrightarrow> os = []" "pair_texts fp ft kvs = [] \<longleftrightarrow> kvs = []"
  by (cases os; simp) (cases kvs; cases "hd kvs"; simp)

lemma counter_zero: "n < 2 ^ 32 \<Longrightarrow> (of_nat n :: 32 word) = 0 \<longleftrightarrow> n = 0"
  by (auto simp: word_of_nat_eq_0_iff dest!: dvd_imp_le)

text \<open>What a part of the walk writes and what it does to the counter on top.\<close>

definition texts :: "(text_state option \<Rightarrow> vres \<times> text_state option) \<Rightarrow> 32 word list \<Rightarrow> byte list \<Rightarrow> 32 word list \<Rightarrow> bool" where
  "texts f ns bs ns' \<longleftrightarrow> (\<forall>os. f (Some \<lparr>tx_os = os, tx_sizes = ns\<rparr>) = (VTrue, Some \<lparr>tx_os = os @ bs, tx_sizes = ns'\<rparr>))"

lemma texts_and_then: "texts f ns bs ns' \<Longrightarrow> texts g ns' cs ns'' \<Longrightarrow> texts (\<lambda>v. and_then (f v) g) ns (bs @ cs) ns''"
  by (simp add: texts_def)

lemma texts_calls:
  "texts (Pair VTrue) ns [] ns"
  "texts (tx_out bs) ns bs ns"
  "texts (tx_start bs n) ns bs (n # ns)"
  "texts tx_item (n # ns) (if n = 1 then [] else asc '','') ((n - 1) # ns)"
  "texts (tx_end bs) (n # ns) bs ns"
  by (simp_all add: texts_def tx_out_def tx_start_def tx_item_def tx_end_def)

lemma texts_item:
  assumes "length (x # xs) < 2 ^ 32" and "texts g (of_nat (length xs) # ns) bs ns'"
  shows "texts (\<lambda>v. and_then (tx_item v) g) (of_nat (length (x # xs)) # ns) ((if xs = [] then [] else asc '','') @ bs) ns'"
proof (rule texts_and_then [OF _ assms(2)])
  show "texts tx_item (of_nat (length (x # xs)) # ns) (if xs = [] then [] else asc '','') (of_nat (length xs) # ns)"
    using texts_calls(4) [of "of_nat (length (x # xs))" ns] counter_zero [of "length xs"] assms(1) by auto
qed

lemma text_callbacks:
  "visit_nil (object_stringize_visitor ft) = tx_out (asc ''null'')"
  "visit_boolean (object_stringize_visitor ft) b = tx_out (if b then asc ''true'' else asc ''false'')"
  "visit_positive_integer (object_stringize_visitor ft) u = tx_out (show_nat (unat u))"
  "visit_negative_integer (object_stringize_visitor ft) i = tx_out (show_int (sint i))"
  "visit_float32 (object_stringize_visitor ft) f = tx_out (show_float ft f)"
  "visit_float64 (object_stringize_visitor ft) d = tx_out (show_double ft d)"
  "visit_str (object_stringize_visitor ft) bs = tx_out ([0x22] @ escape bs @ [0x22])"
  "visit_bin (object_stringize_visitor ft) bs = tx_out ([0x22] @ bs @ [0x22])"
  "visit_ext (object_stringize_visitor ft) bs = tx_out (asc ''EXT'')"
  "start_array (object_stringize_visitor ft) = tx_start (asc ''['')"
  "start_array_item (object_stringize_visitor ft) = Pair VTrue"
  "end_array_item (object_stringize_visitor ft) = tx_item"
  "end_array (object_stringize_visitor ft) = tx_end (asc '']'')"
  "start_map (object_stringize_visitor ft) = tx_start (asc ''{'')"
  "start_map_key (object_stringize_visitor ft) = Pair VTrue"
  "end_map_key (object_stringize_visitor ft) = tx_out (asc '':'')"
  "start_map_value (object_stringize_visitor ft) = Pair VTrue"
  "end_map_value (object_stringize_visitor ft) = tx_item"
  "end_map (object_stringize_visitor ft) = tx_end (asc ''}'')"
  by (simp_all add: object_stringize_visitor_def null_visitor_def del: asc_simps)

declare asc_simps [simp del]

lemma walk_texts:
  "mobj_ok ob \<Longrightarrow> texts (walk fp (object_stringize_visitor ft) ob) ns (obj_text fp ft ob) ns"
  "mobjs_ok os \<Longrightarrow> length os < 2 ^ 32 \<Longrightarrow>
     texts (walk_items fp (object_stringize_visitor ft) os) (of_nat (length os) # ns) (join (item_texts fp ft os)) (0 # ns)"
  "pairs_ok kvs \<Longrightarrow> length kvs < 2 ^ 32 \<Longrightarrow>
     texts (walk_pairs fp (object_stringize_visitor ft) kvs) (of_nat (length kvs) # ns) (join (pair_texts fp ft kvs)) (0 # ns)"
proof (induction fp ft ob and fp ft os and fp ft kvs arbitrary: ns and ns and ns rule: obj_text_item_texts_pair_texts.induct)
  case (10 fp ft os)
  then show ?case
    by (auto simp: walk_funs text_callbacks intro!: texts_and_then texts_calls simp del: append_assoc)
next
  case (11 fp ft kvs)
  then show ?case
    by (auto simp: walk_funs text_callbacks intro!: texts_and_then texts_calls simp del: append_assoc)
next
  case (13 fp ft ob os)
  have item: "texts (\<lambda>v. and_then (tx_item v) (walk_items fp (object_stringize_visitor ft) os)) (of_nat (length (ob # os)) # ns)
      ((if os = [] then [] else asc '','') @ join (item_texts fp ft os)) (0 # ns)"
    using 13 by (intro texts_item) auto
  have "texts (walk fp (object_stringize_visitor ft) ob) (of_nat (length (ob # os)) # ns) (obj_text fp ft ob) (of_nat (length (ob # os)) # ns)"
    using 13 by simp
  from texts_and_then [OF this item] show ?case
    by (cases "os = []") (simp_all add: walk_funs text_callbacks join_Cons texts_empty)
next
  case (15 fp ft k x kvs)
  have item: "texts (\<lambda>v. and_then (tx_item v) (walk_pairs fp (object_stringize_visitor ft) kvs)) (of_nat (length (KV k x # kvs)) # ns)
      ((if kvs = [] then [] else asc '','') @ join (pair_texts fp ft kvs)) (0 # ns)"
    using 15 by (intro texts_item) auto
  let ?n = "of_nat (length (KV k x # kvs)) # ns"
  have x: "texts (walk fp (object_stringize_visitor ft) x) ?n (obj_text fp ft x) ?n"
    and k: "texts (walk fp (object_stringize_visitor ft) k) ?n (obj_text fp ft k) ?n"
    using 15 by simp_all
  from texts_and_then [OF k texts_and_then [OF texts_calls(2) texts_and_then [OF x item]]] show ?case
    by (cases "kvs = []") (simp_all add: walk_funs text_callbacks join_Cons texts_empty)
qed (simp_all add: walk_funs text_callbacks texts_calls show_int_def)

lemma stringize_text: "mobj_ok ob \<Longrightarrow> stringize fp ft ob os = Some (os @ obj_text fp ft ob)"
  using walk_texts(1) [of ob fp ft "[]"] by (simp add: stringize_def object_parse_walk texts_def)

subsection \<open>Reading a string back\<close>

text \<open>One character of a string literal of JSON and the rest of the text.\<close>

definition hex_value :: "byte \<Rightarrow> nat" where
  "hex_value c = (if c < 58 then unat c - 48 else unat c - 87)"

fun read_hex4 :: "byte list \<Rightarrow> (byte \<times> byte list) option" where
  "read_hex4 (a # b # c # d # r) =
     Some (of_nat (((hex_value a * 16 + hex_value b) * 16 + hex_value c) * 16 + hex_value d), r)"
| "read_hex4 _ = None"

fun read_escape :: "byte list \<Rightarrow> (byte \<times> byte list) option" where
  "read_escape (e # r) =
     (if e = 0x5c \<or> e = 0x22 \<or> e = 0x2f then Some (e, r)
      else if e = 0x62 then Some (0x08, r)
      else if e = 0x66 then Some (0x0c, r)
      else if e = 0x6e then Some (0x0a, r)
      else if e = 0x72 then Some (0x0d, r)
      else if e = 0x74 then Some (0x09, r)
      else if e = 0x75 then read_hex4 r
      else None)"
| "read_escape [] = None"

text \<open>The characters up to the closing quotation mark; raw control characters are refused.\<close>

fun read_string :: "nat \<Rightarrow> byte list \<Rightarrow> (byte list \<times> byte list) option" where
  "read_string (Suc n) (c # r) =
     (if c = 0x22 then Some ([], r)
      else if c < 0x20 then None
      else if c = 0x5c
      then do { (x, r) \<leftarrow> read_escape r; (xs, r) \<leftarrow> read_string n r; Some (x # xs, r) }
      else do { (xs, r) \<leftarrow> read_string n r; Some (c # xs, r) })"
| "read_string _ _ = None"

lemma read_hex4_append: "read_hex4 e = Some (c, []) \<Longrightarrow> read_hex4 (e @ r) = Some (c, r)"
  by (induction e rule: read_hex4.induct) simp_all

lemma read_escape_append: "read_escape e = Some (c, []) \<Longrightarrow> read_escape (e @ r) = Some (c, r)"
  by (cases e) (auto simp: read_hex4_append split: if_splits)

definition escape_ok :: "byte \<Rightarrow> bool" where
  "escape_ok c \<longleftrightarrow> escape_char c = [c] \<and> c \<noteq> 0x22 \<and> c \<noteq> 0x5c \<and> 0x20 \<le> c \<or>
     hd (escape_char c) = 0x5c \<and> read_escape (tl (escape_char c)) = Some (c, [])"

lemmas escape_defs = escape_ok_def escape_char_def Let_def show_hex4_def hex_digit_def hex_value_def asc_simps

lemma escapes_ok: "list_all escape_ok (map of_nat ([0..<32] @ [0x7f]))"
  by (simp add: upt_rec escape_defs)

lemma char_code:
  "uint (scast (c :: byte) :: 32 word) = uint c \<and> uint c < 128 \<or> 128 \<le> uint (scast c :: 32 word) \<and> 128 \<le> uint c"
proof -
  have s: "uint (scast c :: 32 word) = sint c mod 2 ^ 32"
    unfolding scast_eq uint_word_of_int_eq take_bit_eq_mod by simp
  have u: "uint c = sint c mod 2 ^ 8"
    by (subst uint_sint) (simp only: take_bit_eq_mod, simp)
  have b: "- (2 ^ 7) \<le> sint c" "sint c < 2 ^ 7"
    using sint_lt [of c] sint_ge [of c] by simp_all
  show ?thesis
  proof (cases "0 \<le> sint c")
    case True
    then show ?thesis using s u b by simp
  next
    case False
    have "uint (scast c :: 32 word) = (sint c + 2 ^ 32) mod 2 ^ 32" "uint c = (sint c + 2 ^ 8) mod 2 ^ 8"
      using s u by simp_all
    moreover have "(sint c + 2 ^ 32) mod 2 ^ 32 = sint c + 2 ^ 32" "(sint c + 2 ^ 8) mod 2 ^ 8 = sint c + 2 ^ 8"
      using False b by (intro mod_pos_pos_trivial conjI; simp)+
    ultimately show ?thesis using b by simp
  qed
qed

lemma char_code_simps:
  "(scast (c :: byte) :: 32 word) < 0x20 \<longleftrightarrow> c < 0x20" "(scast c :: 32 word) = 0x7f \<longleftrightarrow> c = 0x7f"
  using char_code [of c] by (auto simp: word_less_def word_uint_eq_iff)

lemma escape_char_ok: "escape_ok c"
proof (cases "c < 0x20 \<or> c = 0x7f")
  case True
  then have "unat c \<in> set ([0..<32] @ [0x7f])" by (auto simp: word_less_nat_alt)
  then have "escape_ok (of_nat (unat c))"
    using escapes_ok unfolding list_all_iff set_map by blast
  then show ?thesis by simp
next
  case False
  then show ?thesis by (auto simp: escape_ok_def escape_char_def Let_def char_code_simps linorder_not_less)
qed

lemma read_escape_char:
  "escape_char c = [c] \<and> c \<noteq> 0x22 \<and> c \<noteq> 0x5c \<and> 0x20 \<le> c \<or>
   (\<exists>e. escape_char c = 0x5c # e \<and> (\<forall>r. read_escape (e @ r) = Some (c, r)))"
proof -
  have "escape_char c \<noteq> []" by (simp add: escape_char_def Let_def)
  with escape_char_ok [of c] show ?thesis
    by (cases "escape_char c") (auto simp: escape_ok_def read_escape_append)
qed

lemma read_string_escape:
  "length bs < n \<Longrightarrow> read_string n (escape bs @ 0x22 # rest) = Some (bs, rest)"
proof (induction bs arbitrary: n)
  case Nil
  then show ?case by (cases n) (simp_all add: escape_def)
next
  case (Cons c bs)
  then obtain m where m: "n = Suc m" "length bs < m" by (cases n) auto
  have e: "escape (c # bs) = escape_char c @ escape bs" by (simp add: escape_def)
  show ?case
    using read_escape_char [of c] Cons.IH [OF m(2)]
    unfolding e m(1) by (elim disjE exE conjE) (simp_all add: linorder_not_less)
qed

end
