(* ===== verification/Mp_Zone.thy ===== *)
theory Mp_Zone
  imports Mp_Parse
begin

text \<open>
  The memory pool of msgpack (\<^verbatim>\<open>msgpack-c/include/msgpack/v1/detail/cpp11_zone.hpp\<close>): an allocator that
  hands out memory from the front of a chunk, gets a new chunk when the rest of one is too small, and
  releases everything at once. Addresses and sizes are numbers, \<open>u64\<close> is the arithmetic of \<^verbatim>\<open>size_t\<close>.

  The addresses that \<^verbatim>\<open>malloc\<close> returns are a parameter: \<open>al i n\<close> answers the \<open>i\<close>-th request, for \<open>n\<close> bytes.
\<close>

definition u64 :: "nat \<Rightarrow> nat" where
  "u64 n = n mod 2 ^ 64"

lemma u64_small [simp]: "n < 2 ^ 64 \<Longrightarrow> u64 n = n"
  by (simp add: u64_def)

lemma u64_le: "u64 n \<le> n"
  by (simp add: u64_def)

type_synonym allocator = "nat \<Rightarrow> nat \<Rightarrow> nat option"

text \<open>What the code relies on: blocks are not null, aligned for any type, in the lower half of the address
  space and apart from the blocks handed out before.\<close>

definition malloc_ok :: "allocator \<Rightarrow> bool" where
  "malloc_ok al \<longleftrightarrow>
     (\<forall>i n p. al i n = Some p \<longrightarrow> 0 < p \<and> 16 dvd p \<and> p + n \<le> 2 ^ 63 \<and>
        (\<forall>j < i. \<forall>m q. al j m = Some q \<longrightarrow> p + n \<le> q \<or> q + m \<le> p))"

subsection \<open>\<^verbatim>\<open>zone\<close>\<close>

text \<open>A chunk is its address with the size it was allocated with (which the source does not keep); the
  head of \<open>z_chunks\<close> is \<^verbatim>\<open>m_head\<close>. \<open>z_fins\<close> are the finalizers in the order they were pushed, \<open>z_fin_cap\<close>
  the length of their array, \<open>z_calls\<close> counts the requests made so far.\<close>

record 'f zone =
  z_chunk_size :: nat
  z_free :: nat
  z_ptr :: nat
  z_chunks :: "(nat \<times> nat) list"
  z_fins :: "'f list"
  z_fin_cap :: nat
  z_calls :: nat

abbreviation (input) sizeof_chunk :: nat where "sizeof_chunk \<equiv> 8"
abbreviation (input) sizeof_finalizer :: nat where "sizeof_finalizer \<equiv> 16"

text \<open>The constructor is \<^verbatim>\<open>noexcept\<close>, so the exception of a failed allocation ends the program.\<close>

definition zone_new :: "allocator \<Rightarrow> nat \<Rightarrow> nat \<Rightarrow> 'f zone option" where
  "zone_new al calls chunk_size = do {
     c \<leftarrow> al calls (u64 (sizeof_chunk + chunk_size));
     Some \<lparr>z_chunk_size = chunk_size, z_free = chunk_size, z_ptr = c + sizeof_chunk,
       z_chunks = [(c, u64 (sizeof_chunk + chunk_size))], z_fins = [], z_fin_cap = 0, z_calls = calls + 1\<rparr> }"

definition get_aligned :: "nat \<Rightarrow> nat \<Rightarrow> nat" where
  "get_aligned p align = u64 (p + (align - 1)) div align * align"

text \<open>The \<^verbatim>\<open>while\<close> loop of \<^verbatim>\<open>allocate_expand\<close>\<close>

function expand_size :: "nat \<Rightarrow> nat \<Rightarrow> nat" where
  "expand_size sz num =
     (if sz < num then let tmp_sz = u64 (sz * 2) in if tmp_sz \<le> sz then num else expand_size tmp_sz num else sz)"
  by pat_completeness auto
termination by (relation "measure (\<lambda>(sz, num). num - sz)") auto

declare expand_size.simps [simp del]

definition allocate_expand :: "allocator \<Rightarrow> nat \<Rightarrow> 'f zone \<Rightarrow> (mp_exn + nat) \<times> 'f zone" where
  "allocate_expand al num z =
     (let sz = expand_size (z_chunk_size z) num; n = u64 (sizeof_chunk + sz); z' = z\<lparr>z_calls := z_calls z + 1\<rparr> in
      case al (z_calls z) n of
        None \<Rightarrow> (Inl bad_alloc, z')
      | Some c \<Rightarrow> (Inr (c + sizeof_chunk), z'\<lparr>z_chunks := (c, n) # z_chunks z, z_free := sz, z_ptr := c + sizeof_chunk\<rparr>))"

definition bump :: "nat \<Rightarrow> 'f zone \<Rightarrow> 'f zone" where
  "bump num z = z\<lparr>z_free := u64 (z_free z + (2 ^ 64 - num)), z_ptr := z_ptr z + num\<rparr>"

definition allocate_align :: "allocator \<Rightarrow> nat \<Rightarrow> nat \<Rightarrow> 'f zone \<Rightarrow> (mp_exn + nat) \<times> 'f zone" where
  "allocate_align al num align z =
     (let aligned = get_aligned (z_ptr z) align;
          adjusted_size = u64 (num + (aligned - z_ptr z)) in
      if z_free z < adjusted_size
      then case allocate_expand al (u64 (num + align - 1)) z of
          (Inl x, z) \<Rightarrow> (Inl x, z)
        | (Inr p, z) \<Rightarrow>
            let aligned = get_aligned p align; adjusted_size = u64 (num + (aligned - z_ptr z)) in
            (Inr aligned, bump adjusted_size z)
      else (Inr aligned, bump adjusted_size z))"

definition allocate_no_align :: "allocator \<Rightarrow> nat \<Rightarrow> 'f zone \<Rightarrow> (mp_exn + nat) \<times> 'f zone" where
  "allocate_no_align al num z =
     (if z_free z < num
      then case allocate_expand al num z of
          (Inl x, z) \<Rightarrow> (Inl x, z)
        | (Inr p, z) \<Rightarrow> (Inr p, bump num z)
      else (Inr (z_ptr z), bump num z))"

definition undo_allocate :: "nat \<Rightarrow> 'f zone \<Rightarrow> 'f zone" where
  "undo_allocate num z = z\<lparr>z_ptr := z_ptr z - num, z_free := u64 (z_free z + num)\<rparr>"

definition push_expand :: "allocator \<Rightarrow> 'f \<Rightarrow> 'f zone \<Rightarrow> mp_exn option \<times> 'f zone" where
  "push_expand al f z =
     (let nused = z_fin_cap z;
          nnext = (if nused = 0 then if sizeof_finalizer < 72 div 2 then 72 div sizeof_finalizer else 8 else u64 (nused * 2));
          z' = z\<lparr>z_calls := z_calls z + 1\<rparr> in
      case al (z_calls z) (u64 (sizeof_finalizer * nnext)) of
        None \<Rightarrow> (Some bad_alloc, z')
      | Some _ \<Rightarrow> (None, z'\<lparr>z_fin_cap := nnext, z_fins := take nused (z_fins z) @ [f]\<rparr>))"

definition push_finalizer :: "allocator \<Rightarrow> 'f \<Rightarrow> 'f zone \<Rightarrow> mp_exn option \<times> 'f zone" where
  "push_finalizer al f z =
     (if length (z_fins z) = z_fin_cap z then push_expand al f z
      else (None, z\<lparr>z_fins := z_fins z @ [f]\<rparr>))"

text \<open>\<^verbatim>\<open>allocate<T>\<close>: memory for an object, its destructor as a finalizer, and its construction, which may
  throw.\<close>

definition zone_allocate :: "allocator \<Rightarrow> nat \<Rightarrow> nat \<Rightarrow> (nat \<Rightarrow> 'f) \<Rightarrow> (nat \<Rightarrow> mp_exn option) \<Rightarrow> 'f zone \<Rightarrow> (mp_exn + nat) \<times> 'f zone" where
  "zone_allocate al num align destruct construct z =
     (case allocate_align al num align z of
        (Inl x, z) \<Rightarrow> (Inl x, z)
      | (Inr p, z) \<Rightarrow>
          (case push_finalizer al (destruct p) z of
             (Some x, z) \<Rightarrow> (Inl x, undo_allocate num z)
           | (None, z) \<Rightarrow>
               (case construct p of
                  Some x \<Rightarrow> (Inl x, undo_allocate num (z\<lparr>z_fins := butlast (z_fins z)\<rparr>))
                | None \<Rightarrow> (Inr p, z))))"

text \<open>\<^verbatim>\<open>clear\<close> calls the finalizers, the last one first, and frees every chunk but the first. The calls and
  the addresses that are freed come with the new state.\<close>

definition zone_clear :: "'f zone \<Rightarrow> 'f list \<times> nat list \<times> 'f zone" where
  "zone_clear z =
     (let first_chunk = last (z_chunks z) in
      (rev (z_fins z), map fst (butlast (z_chunks z)),
       z\<lparr>z_fins := [], z_chunks := [first_chunk], z_free := z_chunk_size z, z_ptr := fst first_chunk + sizeof_chunk\<rparr>))"

definition zone_destroy :: "'f zone \<Rightarrow> 'f list \<times> nat list" where
  "zone_destroy z = (rev (z_fins z), map fst (z_chunks z))"

subsection \<open>What the users of a zone rely on\<close>

definition addr_block :: "nat \<Rightarrow> nat \<Rightarrow> nat set" where
  "addr_block p n = {p..<p + n}"

text \<open>The allocator hands out memory that was not in use, keeps what is in use, and throws nothing but
  \<^verbatim>\<open>bad_alloc\<close>, and not even that while there is room.\<close>

locale arena =
  fixes alloc :: "nat \<Rightarrow> nat \<Rightarrow> 'z \<Rightarrow> (mp_exn + nat) \<times> 'z"
    and ok :: "'z \<Rightarrow> bool"
    and used :: "'z \<Rightarrow> nat set"
    and room :: "'z \<Rightarrow> nat"
  assumes alloc_keeps: "ok z \<Longrightarrow> n + a \<le> 2 ^ 62 \<Longrightarrow> 0 < a \<Longrightarrow> alloc n a z = (r, z') \<Longrightarrow> ok z' \<and> used z \<subseteq> used z'"
    and alloc_block: "ok z \<Longrightarrow> n + a \<le> 2 ^ 62 \<Longrightarrow> 0 < a \<Longrightarrow> alloc n a z = (Inr p, z') \<Longrightarrow> addr_block p n \<subseteq> used z' - used z"
    and alloc_throws: "ok z \<Longrightarrow> n + a \<le> 2 ^ 62 \<Longrightarrow> 0 < a \<Longrightarrow> alloc n a z = (Inl x, z') \<Longrightarrow> x = bad_alloc \<and> room z < n + a - 1"
    and alloc_room: "ok z \<Longrightarrow> n + a \<le> 2 ^ 62 \<Longrightarrow> 0 < a \<Longrightarrow> alloc n a z = (Inr p, z') \<Longrightarrow> n + a - 1 \<le> room z \<Longrightarrow> room z \<le> room z' + (n + a - 1)"

text \<open>A series of requests; the answers, and the blocks that were granted, with their alignment.\<close>

fun alloc_all :: "(nat \<Rightarrow> nat \<Rightarrow> 'z \<Rightarrow> (mp_exn + nat) \<times> 'z) \<Rightarrow> (nat \<times> nat) list \<Rightarrow> 'z \<Rightarrow> (mp_exn + nat) list \<times> 'z" where
  "alloc_all f [] z = ([], z)"
| "alloc_all f ((n, a) # reqs) z = (let (r, z) = f n a z; (rs, z) = alloc_all f reqs z in (r # rs, z))"

fun granted :: "(nat \<times> nat) list \<Rightarrow> (mp_exn + nat) list \<Rightarrow> (nat \<times> nat \<times> nat) list" where
  "granted ((n, a) # reqs) (Inr p # rs) = (p, n, a) # granted reqs rs"
| "granted (_ # reqs) (Inl x # rs) = granted reqs rs"
| "granted _ _ = []"

abbreviation (input) req_ok :: "nat \<times> nat \<Rightarrow> bool" where
  "req_ok req \<equiv> (case req of (n, a) \<Rightarrow> n + a \<le> 2 ^ 62 \<and> 0 < a)"

definition apart :: "nat \<times> nat \<times> nat \<Rightarrow> nat \<times> nat \<times> nat \<Rightarrow> bool" where
  "apart b b' \<longleftrightarrow> (case (b, b') of ((p, n, a), (q, m, a')) \<Rightarrow> addr_block p n \<inter> addr_block q m = {})"

context arena
begin

lemma alloc_all_apart:
  assumes "ok z" and "list_all req_ok reqs" and "alloc_all alloc reqs z = (rs, z')"
  shows "ok z' \<and> used z \<subseteq> used z' \<and> (\<forall>(p, n, a) \<in> set (granted reqs rs). addr_block p n \<subseteq> used z' - used z) \<and>
    sorted_wrt apart (granted reqs rs)"
  using assms
proof (induction reqs arbitrary: z rs)
  case (Cons req reqs)
  obtain n a where req: "req = (n, a)" by force
  obtain r z1 rs1 where r: "alloc n a z = (r, z1)" "alloc_all alloc reqs z1 = (rs1, z')" "rs = r # rs1"
    using Cons.prems(3) by (auto simp: req split: prod.splits)
  have na: "n + a \<le> 2 ^ 62" "0 < a" using Cons.prems(2) by (simp_all add: req)
  have z1: "ok z1" "used z \<subseteq> used z1" using alloc_keeps [OF Cons.prems(1) na r(1)] by simp_all
  have ih: "ok z'" "used z1 \<subseteq> used z'" "\<forall>(p, n, a) \<in> set (granted reqs rs1). addr_block p n \<subseteq> used z' - used z1"
      "sorted_wrt apart (granted reqs rs1)"
    using Cons.IH [OF z1(1) _ r(2)] Cons.prems(2) by simp_all
  have bl: "\<forall>(p, n, a) \<in> set (granted reqs rs1). addr_block p n \<subseteq> used z' - used z"
    by (rule ballI, drule bspec [OF ih(3)]) (use z1(2) in \<open>auto split: prod.splits\<close>)
  show ?case
  proof (cases r)
    case (Inl x)
    have "granted (req # reqs) rs = granted reqs rs1" by (simp add: req r(3) Inl)
    with ih(1,4) bl subset_trans [OF z1(2) ih(2)] show ?thesis by simp
  next
    case (Inr p)
    have p: "addr_block p n \<subseteq> used z1 - used z" using alloc_block [OF Cons.prems(1) na] r(1) Inr by simp
    have "apart (p, n, a) b" if b: "b \<in> set (granted reqs rs1)" for b
    proof -
      obtain q m a' where q: "b = (q, m, a')" by (cases b)
      then have "addr_block q m \<subseteq> used z' - used z1" using bspec [OF ih(3) b] by simp
      then show ?thesis using p by (auto simp: apart_def q)
    qed
    moreover have "granted (req # reqs) rs = (p, n, a) # granted reqs rs1" by (simp add: req r(3) Inr)
    moreover have "addr_block p n \<subseteq> used z' - used z" using p ih(2) by blast
    ultimately show ?thesis using ih(1,4) bl subset_trans [OF z1(2) ih(2)] by simp
  qed
qed simp

end

subsection \<open>The memory of a zone\<close>

definition chunk_memory :: "'f zone \<Rightarrow> nat set" where
  "chunk_memory z = (\<Union>(c, n) \<in> set (z_chunks z). addr_block (c + sizeof_chunk) (n - sizeof_chunk))"

definition free_memory :: "'f zone \<Rightarrow> nat set" where
  "free_memory z = addr_block (z_ptr z) (z_free z)"

definition used_memory :: "'f zone \<Rightarrow> nat set" where
  "used_memory z = chunk_memory z - free_memory z"

text \<open>The front of the first chunk is free; the chunks came from \<^verbatim>\<open>malloc\<close>, and what is free was never
  handed out.\<close>

definition zone_ok :: "allocator \<Rightarrow> 'f zone \<Rightarrow> bool" where
  "zone_ok al z \<longleftrightarrow>
     (case z_chunks z of
        [] \<Rightarrow> False
      | (c, n) # cs \<Rightarrow> z_ptr z + z_free z = c + n \<and> c + sizeof_chunk \<le> z_ptr z) \<and>
     z_chunk_size z \<le> 2 ^ 62 \<and> snd (last (z_chunks z)) = sizeof_chunk + z_chunk_size z \<and>
     (\<forall>(c, n) \<in> set (z_chunks z). sizeof_chunk \<le> n \<and> (\<exists>i < z_calls z. al i n = Some c))"

lemma zone_ok_end: "malloc_ok al \<Longrightarrow> zone_ok al z \<Longrightarrow> z_ptr z + z_free z \<le> 2 ^ 63"
  by (cases "z_chunks z") (fastforce simp: zone_ok_def malloc_ok_def)+

lemma expand_size_bounds:
  assumes "num \<le> 2 ^ 62"
  shows "num \<le> expand_size sz num \<and> expand_size sz num \<le> max sz (2 * num)"
  using assms
proof (induction sz num rule: expand_size.induct)
  case (1 sz num)
  show ?case
  proof (cases "sz < num")
    case True
    then have "u64 (sz * 2) = sz * 2" using 1(2) by simp
    then show ?thesis using 1 True
      by (cases "sz * 2 \<le> sz"; subst (1 2) expand_size.simps) (auto simp: Let_def max_def)
  qed (subst (1 2) expand_size.simps, simp)
qed

lemma get_aligned_ok:
  assumes "0 < align" and "p + align \<le> 2 ^ 64"
  shows "align dvd get_aligned p align" and "p \<le> get_aligned p align" and "get_aligned p align < p + align"
proof -
  have a: "get_aligned p align = (p + (align - 1)) div align * align"
    using assms by (simp add: get_aligned_def)
  have "(p + (align - 1)) div align * align + (p + (align - 1)) mod align = p + (align - 1)"
    by (rule div_mult_mod_eq)
  moreover have "(p + (align - 1)) mod align < align" using assms(1) by simp
  ultimately show "p \<le> get_aligned p align" "get_aligned p align < p + align"
    unfolding a using assms(1) by linarith+
qed (simp add: get_aligned_def)

text \<open>What an allocation may do to the pool.\<close>

definition grows :: "allocator \<Rightarrow> 'f zone \<Rightarrow> 'f zone \<Rightarrow> bool" where
  "grows al z z' \<longleftrightarrow>
     zone_ok al z' \<and> used_memory z \<subseteq> used_memory z' \<and> z_fins z' = z_fins z \<and> z_fin_cap z' = z_fin_cap z"

definition handed_out :: "allocator \<Rightarrow> 'f zone \<Rightarrow> nat \<Rightarrow> nat \<Rightarrow> 'f zone \<Rightarrow> bool" where
  "handed_out al z p num z' \<longleftrightarrow>
     grows al z z' \<and> addr_block p num \<subseteq> used_memory z' \<and> addr_block p num \<inter> used_memory z = {} \<and> 0 < p \<and>
     fst (hd (z_chunks z')) + sizeof_chunk \<le> p \<and> p + num = z_ptr z'"

lemma grows_refl: "zone_ok al z \<Longrightarrow> grows al z z"
  by (simp add: grows_def)

lemma free_in_chunk: "zone_ok al z \<Longrightarrow> free_memory z \<subseteq> chunk_memory z"
  by (cases "z_chunks z") (auto simp: zone_ok_def chunk_memory_def free_memory_def addr_block_def)

lemma zone_ok_ptr: "malloc_ok al \<Longrightarrow> zone_ok al z \<Longrightarrow> 0 < z_ptr z"
  by (cases "z_chunks z") (auto simp: zone_ok_def)

lemma bump_free: "k \<le> z_free z \<Longrightarrow> z_free z < 2 ^ 64 \<Longrightarrow> z_free (bump k z) = z_free z - k"
proof -
  assume a: "k \<le> z_free z" "z_free z < 2 ^ 64"
  then have e: "z_free z + (2 ^ 64 - k) = (z_free z - k) + 2 ^ 64" by simp
  have "z_free (bump k z) = u64 ((z_free z - k) + 2 ^ 64)" unfolding e [symmetric] by (simp add: bump_def)
  also have "\<dots> = z_free z - k" unfolding u64_def by (subst mod_add_self2) (use a in simp)
  finally show ?thesis .
qed

lemma bump_hands_out:
  assumes "malloc_ok al" and "zone_ok al z" and "k \<le> z_free z" and "z_ptr z \<le> p" and "p + num = z_ptr z + k"
  shows "handed_out al z p num (bump k z)"
proof -
  have f: "z_free z < 2 ^ 64" using zone_ok_end [OF assms(1,2)] by simp
  note b = bump_free [OF assms(3) f]
  have p: "z_ptr (bump k z) = z_ptr z + k" "z_chunks (bump k z) = z_chunks z" "z_calls (bump k z) = z_calls z"
      "z_chunk_size (bump k z) = z_chunk_size z" "z_fins (bump k z) = z_fins z" "z_fin_cap (bump k z) = z_fin_cap z"
    by (simp_all add: bump_def)
  have c: "chunk_memory (bump k z) = chunk_memory z" by (simp add: chunk_memory_def p)
  have ok: "zone_ok al (bump k z)"
    using assms(2,3) by (cases "z_chunks z") (auto simp: zone_ok_def p b)
  have "addr_block (z_ptr z) k \<subseteq> free_memory z" "addr_block (z_ptr z) k \<inter> free_memory (bump k z) = {}"
      "free_memory (bump k z) \<subseteq> free_memory z"
    using assms(3) by (auto simp: free_memory_def addr_block_def p b)
  moreover have "addr_block p num \<subseteq> addr_block (z_ptr z) k" using assms(4,5) by (auto simp: addr_block_def)
  moreover have "fst (hd (z_chunks z)) + 8 \<le> p"
    using assms(2,4) by (cases "z_chunks z") (auto simp: zone_ok_def)
  ultimately show ?thesis
    using ok assms(4,5) free_in_chunk [OF assms(2)] zone_ok_ptr [OF assms(1,2)]
    unfolding handed_out_def grows_def used_memory_def c p by auto
qed

lemma zone_ok_chunk: "zone_ok al z \<Longrightarrow> (q, m) \<in> set (z_chunks z) \<Longrightarrow> 8 \<le> m \<and> (\<exists>i < z_calls z. al i m = Some q)"
  unfolding zone_ok_def by (auto dest!: bspec [of _ _ "(q, m)"])

lemma expand_ok:
  assumes "malloc_ok al" and "zone_ok al z" and "num \<le> 2 ^ 62" and "allocate_expand al num z = (r, z')"
  shows "grows al z z'" and "r = Inr p \<Longrightarrow> p = z_ptr z' \<and> num \<le> z_free z' \<and> free_memory z' \<inter> used_memory z = {}"
proof -
  let ?sz = "expand_size (z_chunk_size z) num"
  let ?n = "u64 (sizeof_chunk + ?sz)"
  have sz: "num \<le> ?sz" "?sz \<le> 2 ^ 63"
    using expand_size_bounds [OF assms(3), of "z_chunk_size z"] assms(2,3)
    by (auto simp: zone_ok_def split: list.splits)
  then have n: "?n = 8 + ?sz" by simp
  have *: "grows al z z' \<and> (\<forall>p. r = Inr p \<longrightarrow> p = z_ptr z' \<and> num \<le> z_free z' \<and> free_memory z' \<inter> used_memory z = {})"
  proof (cases "al (z_calls z) ?n")
    case None
    then have z': "z' = z\<lparr>z_calls := z_calls z + 1\<rparr>" "r = Inl bad_alloc"
      using assms(4) by (auto simp: allocate_expand_def Let_def)
    then show ?thesis using assms(2)
      by (auto simp: grows_def zone_ok_def used_memory_def chunk_memory_def free_memory_def less_Suc_eq split: list.splits)
  next
    case (Some c)
    then have z': "z' = z\<lparr>z_calls := z_calls z + 1, z_chunks := (c, ?n) # z_chunks z, z_free := ?sz, z_ptr := c + 8\<rparr>"
        "r = Inr (c + 8)"
      using assms(4) by (auto simp: allocate_expand_def Let_def)
    have apart: "addr_block c ?n \<inter> chunk_memory z = {}"
    proof -
      have "c + ?n \<le> q \<or> q + m \<le> c" if qm: "(q, m) \<in> set (z_chunks z)" for q m
      proof -
        obtain i where "i < z_calls z" "al i m = Some q" using zone_ok_chunk [OF assms(2) qm] by blast
        then show ?thesis using assms(1) Some unfolding malloc_ok_def by blast
      qed
      moreover have "8 \<le> m" if "(q, m) \<in> set (z_chunks z)" for q m using zone_ok_chunk [OF assms(2) that] by blast
      ultimately show ?thesis by (fastforce simp: chunk_memory_def addr_block_def)
    qed
    have free: "free_memory z' \<subseteq> addr_block c ?n" by (auto simp: z' free_memory_def addr_block_def n)
    have mem: "chunk_memory z' = addr_block (c + 8) ?sz \<union> chunk_memory z" by (simp add: z' chunk_memory_def n)
    have ok: "zone_ok al z'" using assms(2) Some
      by (auto simp: zone_ok_def z' n less_Suc_eq split: list.splits)
    have "chunk_memory z \<subseteq> used_memory z'" using apart free unfolding used_memory_def mem by blast
    then show ?thesis using ok apart free sz(1) unfolding grows_def used_memory_def by (auto simp: z')
  qed
  then show "grows al z z'" by simp
  show "r = Inr p \<Longrightarrow> p = z_ptr z' \<and> num \<le> z_free z' \<and> free_memory z' \<inter> used_memory z = {}" using * by simp
qed

lemma handed_out_trans: "grows al z z1 \<Longrightarrow> handed_out al z1 p num z' \<Longrightarrow> handed_out al z p num z'"
  unfolding handed_out_def grows_def by auto

lemma allocate_align_ok:
  assumes "malloc_ok al" and "zone_ok al z" and "num + align \<le> 2 ^ 62" and "0 < align"
    and "allocate_align al num align z = (r, z')"
  shows "case r of Inl x \<Rightarrow> x = bad_alloc \<and> grows al z z' | Inr p \<Rightarrow> handed_out al z p num z' \<and> align dvd p"
proof -
  have fit: "\<exists>k. u64 (num + (get_aligned (z_ptr z1) align - z_ptr z1)) = k \<and> k < num + align \<and>
      (k \<le> z_free z1 \<longrightarrow> handed_out al z1 (get_aligned (z_ptr z1) align) num (bump k z1)) \<and>
      align dvd get_aligned (z_ptr z1) align" if ok: "zone_ok al z1" for z1 :: "'f zone"
  proof -
    have "z_ptr z1 + align \<le> 2 ^ 64" using zone_ok_end [OF assms(1) ok] assms(3) by simp
    note a = get_aligned_ok [OF assms(4) this]
    let ?k = "num + (get_aligned (z_ptr z1) align - z_ptr z1)"
    have k: "?k < num + align" using a(2,3) by simp
    then show ?thesis using assms(3) bump_hands_out [OF assms(1) ok, of ?k "get_aligned (z_ptr z1) align" num] a(1,2) by simp
  qed
  obtain k where k: "u64 (num + (get_aligned (z_ptr z) align - z_ptr z)) = k" "k < num + align"
      "k \<le> z_free z \<longrightarrow> handed_out al z (get_aligned (z_ptr z) align) num (bump k z)" "align dvd get_aligned (z_ptr z) align"
    using fit [OF assms(2)] by blast
  show ?thesis
  proof (cases "z_free z < k")
    case False
    then show ?thesis using k assms(5) by (auto simp: allocate_align_def Let_def)
  next
    case True
    have en: "u64 (num + align - 1) = num + align - 1" using assms(3) by simp
    obtain r1 z1 where e: "allocate_expand al (num + align - 1) z = (r1, z1)" by force
    have sm: "num + align - 1 \<le> 2 ^ 62" using assms(3) by simp
    note x = expand_ok [OF assms(1,2) sm e]
    show ?thesis
    proof (cases r1)
      case (Inl exn)
      then have "exn = bad_alloc" using e by (auto simp: allocate_expand_def Let_def split: option.splits)
      then show ?thesis using True k(1) en e Inl x(1) assms(5) by (auto simp: allocate_align_def Let_def)
    next
      case (Inr p)
      then have p: "p = z_ptr z1" "num + align - 1 \<le> z_free z1" using x(2) by auto
      have "zone_ok al z1" using x(1) by (simp add: grows_def)
      from fit [OF this] obtain k1 where k1: "u64 (num + (get_aligned (z_ptr z1) align - z_ptr z1)) = k1" "k1 < num + align"
          "k1 \<le> z_free z1 \<longrightarrow> handed_out al z1 (get_aligned (z_ptr z1) align) num (bump k1 z1)" "align dvd get_aligned (z_ptr z1) align"
        by blast
      have "handed_out al z (get_aligned (z_ptr z1) align) num (bump k1 z1)"
        using k1(2,3) p(2) handed_out_trans [OF x(1)] by simp
      then show ?thesis using True k(1) en e Inr p(1) k1 assms(5) by (auto simp: allocate_align_def Let_def)
    qed
  qed
qed

text \<open>The free rest of the first chunk is enough for as many bytes, alignment included.\<close>

lemma allocate_align_room:
  assumes "malloc_ok al" and "zone_ok al z" and "num + align \<le> 2 ^ 62" and "0 < align"
    and "allocate_align al num align z = (r, z')" and "num + align - 1 \<le> z_free z"
  shows "(\<exists>p. r = Inr p) \<and> z_free z \<le> z_free z' + (num + align - 1)"
proof -
  have "z_ptr z + align \<le> 2 ^ 64" using zone_ok_end [OF assms(1,2)] assms(3) by simp
  note a = get_aligned_ok [OF assms(4) this]
  define k where "k = u64 (num + (get_aligned (z_ptr z) align - z_ptr z))"
  have k: "k \<le> num + align - 1" using a(2,3) u64_le [of "num + (get_aligned (z_ptr z) align - z_ptr z)"] by (simp add: k_def)
  have r: "r = Inr (get_aligned (z_ptr z) align)" "z' = bump k z"
    using assms(5,6) k by (auto simp: allocate_align_def Let_def k_def [symmetric])
  moreover have "z_free (bump k z) = z_free z - k"
    using k assms(6) zone_ok_end [OF assms(1,2)] by (intro bump_free) auto
  ultimately show ?thesis using k by simp
qed

interpretation pool: arena "allocate_align al" "\<lambda>z. malloc_ok al \<and> zone_ok al z" used_memory z_free for al
proof unfold_locales
  fix n a :: nat and r p x and z z' :: "'f zone"
  assume z: "malloc_ok al \<and> zone_ok al z" "n + a \<le> 2 ^ 62" "0 < a"
  note ok = allocate_align_ok [OF conjunct1 [OF z(1)] conjunct2 [OF z(1)] z(2,3)]
    and room = allocate_align_room [OF conjunct1 [OF z(1)] conjunct2 [OF z(1)] z(2,3)]
  show "(malloc_ok al \<and> zone_ok al z') \<and> used_memory z \<subseteq> used_memory z'" if "allocate_align al n a z = (r, z')"
    using z(1) ok [OF that] by (auto simp: handed_out_def grows_def split: sum.splits)
  show "addr_block p n \<subseteq> used_memory z' - used_memory z" if "allocate_align al n a z = (Inr p, z')"
    using ok [OF that] by (auto simp: handed_out_def)
  show "x = bad_alloc \<and> z_free z < n + a - 1" if "allocate_align al n a z = (Inl x, z')"
    using ok [OF that] room [OF that] by (auto simp: not_le [symmetric])
  show "z_free z \<le> z_free z' + (n + a - 1)" if "allocate_align al n a z = (Inr p, z')" "n + a - 1 \<le> z_free z"
    using room [OF that] by simp
qed

lemma alloc_all_aligned:
  assumes "malloc_ok al \<and> zone_ok al z" and "list_all req_ok reqs" and "alloc_all (allocate_align al) reqs z = (rs, z')"
  shows "list_all (\<lambda>(p, n, a). a dvd p) (granted reqs rs)"
  using assms
proof (induction reqs arbitrary: z rs)
  case (Cons req reqs)
  obtain n a where req: "req = (n, a)" by force
  obtain r z1 rs1 where r: "allocate_align al n a z = (r, z1)" "alloc_all (allocate_align al) reqs z1 = (rs1, z')" "rs = r # rs1"
    using Cons.prems(3) by (auto simp: req split: prod.splits)
  have na: "n + a \<le> 2 ^ 62" "0 < a" using Cons.prems(2) by (simp_all add: req)
  have "malloc_ok al \<and> zone_ok al z1" using pool.alloc_keeps [OF Cons.prems(1) na r(1)] by simp
  from Cons.IH [OF this _ r(2)] Cons.prems(2) have "list_all (\<lambda>(p, n, a). a dvd p) (granted reqs rs1)" by simp
  then show ?case using allocate_align_ok [OF _ _ na r(1)] Cons.prems(1) r(3) by (cases r) (simp_all add: req)
qed simp

text \<open>A request fails only when \<^verbatim>\<open>malloc\<close> does.\<close>

lemma expand_total:
  assumes "\<forall>i n. al i n \<noteq> None"
  shows "\<exists>p z'. allocate_expand al num z = (Inr p, z')"
proof -
  obtain c where "al (z_calls z) (u64 (sizeof_chunk + expand_size (z_chunk_size z) num)) = Some c"
    using assms by fastforce
  then show ?thesis by (simp add: allocate_expand_def Let_def)
qed

lemma allocate_align_total:
  assumes "\<forall>i n. al i n \<noteq> None"
  shows "\<exists>p z'. allocate_align al num align z = (Inr p, z')"
proof -
  obtain p z' where "allocate_expand al (u64 (num + align - 1)) z = (Inr p, z')"
    using expand_total [OF assms] by blast
  then show ?thesis by (simp add: allocate_align_def Let_def)
qed

lemma zone_new_ok:
  assumes "malloc_ok al" and "chunk_size \<le> 2 ^ 62" and "zone_new al calls chunk_size = Some z"
  shows "zone_ok al z" and "used_memory z = {}" and "z_fins z = []"
  using assms(2,3)
  by (auto simp: zone_new_def zone_ok_def used_memory_def chunk_memory_def free_memory_def split: bind_splits)

text \<open>After \<open>zone_clear\<close> nothing is in use; with the destructor every chunk is freed once, and every
  finalizer has been called once, the last one first.\<close>

lemma zone_clear_ok:
  assumes "zone_ok al z" and "zone_clear z = (calls, freed, z')"
  shows "zone_ok al z'" and "used_memory z' = {}" and "calls = rev (z_fins z)"
    and "freed @ snd (zone_destroy z') = map fst (z_chunks z)" and "fst (zone_destroy z') = []"
proof -
  have ne: "z_chunks z \<noteq> []" using assms(1) by (auto simp: zone_ok_def)
  obtain c n where l: "last (z_chunks z) = (c, n)" by force
  with ne have "(c, n) \<in> set (z_chunks z)" using last_in_set by metis
  note cn = zone_ok_chunk [OF assms(1) this]
  have n: "n = 8 + z_chunk_size z" "z_chunk_size z \<le> 2 ^ 62" using assms(1) l by (simp_all add: zone_ok_def)
  have z': "calls = rev (z_fins z)" "freed = map fst (butlast (z_chunks z))"
      "z' = z\<lparr>z_fins := [], z_chunks := [(c, n)], z_free := z_chunk_size z, z_ptr := c + sizeof_chunk\<rparr>"
    using assms(2) l by (simp_all add: zone_clear_def)
  show "zone_ok al z'" using cn n by (simp add: zone_ok_def z')
  show "used_memory z' = {}" by (simp add: used_memory_def chunk_memory_def free_memory_def z' n)
  show "calls = rev (z_fins z)" "fst (zone_destroy z') = []" by (simp_all add: z' zone_destroy_def)
  show "freed @ snd (zone_destroy z') = map fst (z_chunks z)"
  proof -
    have "map fst (butlast (z_chunks z) @ [last (z_chunks z)]) = map fst (z_chunks z)"
      by (simp only: append_butlast_last_id [OF ne])
    then show ?thesis using l by (simp add: z' zone_destroy_def)
  qed
qed

subsection \<open>Finalizers\<close>

definition fins_ok :: "'f zone \<Rightarrow> bool" where
  "fins_ok z \<longleftrightarrow> length (z_fins z) \<le> z_fin_cap z \<and> z_fin_cap z < 2 ^ 59"

lemma push_finalizer_ok:
  assumes "fins_ok z" and "push_finalizer al f z = (r, z')"
  shows "z_fins z' = (if r = None then z_fins z @ [f] else z_fins z)"
    and "z_fin_cap z' < 2 ^ 59 \<Longrightarrow> fins_ok z'"
    and "z_ptr z' = z_ptr z" "z_free z' = z_free z" "z_chunks z' = z_chunks z" "z_chunk_size z' = z_chunk_size z" "z_calls z \<le> z_calls z'"
proof -
  define nnext where "nnext = (if z_fin_cap z = 0 then 4 else z_fin_cap z * 2)"
  have nn: "(if z_fin_cap z = 0 then if 16 < (72 :: nat) div 2 then 72 div 16 else 8 else u64 (z_fin_cap z * 2)) = nnext"
    using assms(1) by (simp add: fins_ok_def nnext_def)
  have n: "push_expand al f z =
      (case al (z_calls z) (u64 (16 * nnext)) of
         None \<Rightarrow> (Some bad_alloc, z\<lparr>z_calls := z_calls z + 1\<rparr>)
       | Some _ \<Rightarrow> (None, z\<lparr>z_calls := z_calls z + 1, z_fin_cap := nnext, z_fins := take (z_fin_cap z) (z_fins z) @ [f]\<rparr>))"
    unfolding push_expand_def Let_def nn by simp
  have len: "z_fin_cap z < nnext" by (simp add: nnext_def)
  show "z_fins z' = (if r = None then z_fins z @ [f] else z_fins z)" "z_fin_cap z' < 2 ^ 59 \<Longrightarrow> fins_ok z'"
    "z_ptr z' = z_ptr z" "z_free z' = z_free z" "z_chunks z' = z_chunks z" "z_chunk_size z' = z_chunk_size z" "z_calls z \<le> z_calls z'"
    using assms len by (auto simp: push_finalizer_def n fins_ok_def split: option.splits if_splits)
qed

lemma zone_ok_more_calls:
  assumes "zone_ok al z" and "z_ptr z' = z_ptr z" "z_free z' = z_free z" "z_chunks z' = z_chunks z"
    "z_chunk_size z' = z_chunk_size z" "z_calls z \<le> z_calls z'"
  shows "zone_ok al z'" and "used_memory z' = used_memory z"
proof -
  have "\<exists>i < z_calls z'. al i n = Some c" if "\<exists>i < z_calls z. al i n = Some c" for c n
    using that assms(6) by (meson less_le_trans)
  then show "zone_ok al z'" using assms(1) unfolding zone_ok_def assms(2-5) by blast
  show "used_memory z' = used_memory z"
    by (simp add: used_memory_def chunk_memory_def free_memory_def assms(2-4))
qed

lemma zone_ok_fins [simp]: "zone_ok al (z\<lparr>z_fins := fs\<rparr>) = zone_ok al z"
  by (simp add: zone_ok_def split: list.split)

lemma undo_ok:
  assumes "malloc_ok al" and "zone_ok al z" and "fst (hd (z_chunks z)) + 8 \<le> p" and "p + num = z_ptr z"
  shows "zone_ok al (undo_allocate num z)"
proof -
  have "z_free z + num < 2 ^ 64" using zone_ok_end [OF assms(1,2)] assms(4) by simp
  then show ?thesis using assms(2-4) by (cases "z_chunks z") (auto simp: zone_ok_def undo_allocate_def)
qed

text \<open>An object that is not constructed leaves no finalizer behind.\<close>

lemma zone_allocate_ok:
  assumes "malloc_ok al" and "zone_ok al z" and "fins_ok z" and "num + align \<le> 2 ^ 62" and "0 < align"
    and "zone_allocate al num align destruct construct z = (r, z')"
  shows "zone_ok al z' \<and>
    (case r of
       Inl _ \<Rightarrow> z_fins z' = z_fins z
     | Inr p \<Rightarrow> z_fins z' = z_fins z @ [destruct p] \<and> align dvd p \<and> addr_block p num \<subseteq> used_memory z' \<and> addr_block p num \<inter> used_memory z = {})"
proof -
  obtain r1 z1 where a: "allocate_align al num align z = (r1, z1)" by force
  note al = allocate_align_ok [OF assms(1,2,4,5) a]
  show ?thesis
  proof (cases r1)
    case (Inl x)
    then show ?thesis using al a assms(6) by (auto simp: zone_allocate_def grows_def)
  next
    case (Inr p)
    then have h: "handed_out al z p num z1" "align dvd p" using al by auto
    then have g: "zone_ok al z1" "z_fins z1 = z_fins z" "fins_ok z1"
      using assms(3) by (simp_all add: handed_out_def grows_def fins_ok_def)
    obtain r2 z2 where f: "push_finalizer al (destruct p) z1 = (r2, z2)" by force
    note pf = push_finalizer_ok [OF g(3) f]
    note ok2 = zone_ok_more_calls [OF g(1) pf(3-7)]
    have u: "zone_ok al (undo_allocate num z3)" if "z3 = z2 \<or> z3 = z2\<lparr>z_fins := fs\<rparr>" for z3 fs
      using h(1) pf(3,5) ok2(1) that by (intro undo_ok [OF assms(1), where p = p]) (auto simp: handed_out_def)
    show ?thesis
      using a Inr f assms(6) pf(1) ok2 g(2) h u [of z2] u [of "z2\<lparr>z_fins := z_fins z\<rparr>" "z_fins z"]
      by (auto simp: zone_allocate_def undo_allocate_def handed_out_def split: option.splits)
  qed
qed

end
