(* ===== verification/Mp_Create.thy ===== *)
theory Mp_Create
  imports Mp_Zone Mp_Visitors
begin

text \<open>
  Building an object from the callbacks of the parser (\<^verbatim>\<open>msgpack-c/include/msgpack/v2/create_object_visitor.hpp\<close>,
  \<^verbatim>\<open>v2/unpack.hpp\<close>). The elements of arrays and maps and the bytes of strings live in a zone and are found
  by address: \<open>co_mem\<close> holds the objects, \<open>co_bytes\<close> the bytes. A state \<^const>\<open>None\<close> is an access to memory that was
  not allocated for an object, or through a null pointer.
\<close>

subsection \<open>Objects in memory\<close>

datatype obj_ptr = P_NULL | P_OBJ | P_AT nat

text \<open>The bytes of a string: in the buffer of the caller, or a copy in the zone.\<close>

datatype chars = Referenced "byte list" | Copied nat

text \<open>The \<^verbatim>\<open>union\<close> by the member written last; of a container first the size is written.\<close>

datatype obj_via =
    V_none | V_boolean bool | V_u64 "64 word" | V_i64 "64 word" | V_f64 "64 word"
  | V_size nat | V_array nat obj_ptr | V_map nat obj_ptr | V_str nat chars | V_bin nat chars | V_ext nat chars

record mem_obj =
  ob_type :: object_type
  ob_via :: obj_via

definition object_new :: mem_obj where
  "object_new = \<lparr>ob_type = T_NIL, ob_via = V_none\<rparr>"

abbreviation (input) sizeof_object :: nat where "sizeof_object \<equiv> 24"
abbreviation (input) sizeof_object_kv :: nat where "sizeof_object_kv \<equiv> 48"

record unpack_limit =
  lim_array :: nat
  lim_map :: nat
  lim_str :: nat
  lim_bin :: nat
  lim_ext :: nat
  lim_depth :: nat

definition unpack_limit_default :: unpack_limit where
  "unpack_limit_default =
     \<lparr>lim_array = 0xffffffff, lim_map = 0xffffffff, lim_str = 0xffffffff, lim_bin = 0xffffffff,
      lim_ext = 0xffffffff, lim_depth = 0xffffffff\<rparr>"

text \<open>\<^verbatim>\<open>unpack_reference_func\<close>: whether to refer to the buffer; \<^const>\<open>None\<close> is a null pointer.\<close>

type_synonym reference_func = "(object_type \<Rightarrow> nat \<Rightarrow> bool) option"

text \<open>The settings of a visitor, with the allocation function of the zone.\<close>

record 'z co_env =
  co_func :: reference_func
  co_limit :: unpack_limit
  co_alloc :: "nat \<Rightarrow> nat \<Rightarrow> 'z \<Rightarrow> (mp_exn + nat) \<times> 'z"
  co_fpu :: fpu

record 'z co_state =
  co_obj :: mem_obj
  co_stack :: "obj_ptr list"
  co_zone :: 'z
  co_referenced :: bool
  co_mem :: "nat \<rightharpoonup> mem_obj"
  co_bytes :: "nat \<rightharpoonup> byte"

type_synonym 'z co_call = "'z co_state option \<Rightarrow> vres \<times> 'z co_state option"

subsection \<open>\<^verbatim>\<open>create_object_visitor\<close>\<close>

text \<open>The constructor and \<open>set_zone\<close>, with what is in the memory of the zone.\<close>

definition create_object_visitor_new :: "'z \<Rightarrow> (nat \<rightharpoonup> mem_obj) \<Rightarrow> (nat \<rightharpoonup> byte) \<Rightarrow> 'z co_state" where
  "create_object_visitor_new z m b =
     \<lparr>co_obj = object_new, co_stack = [P_OBJ], co_zone = z, co_referenced = False, co_mem = m, co_bytes = b\<rparr>"

definition co_init :: "'z co_state \<Rightarrow> 'z co_state" where
  "co_init s = s\<lparr>co_stack := [P_OBJ], co_obj := object_new\<rparr>"

text \<open>\<^verbatim>\<open>m_stack.back()->...\<close>\<close>

definition obj_at :: "'z co_state \<Rightarrow> obj_ptr \<Rightarrow> mem_obj option" where
  "obj_at s p = (case p of P_NULL \<Rightarrow> None | P_OBJ \<Rightarrow> Some (co_obj s) | P_AT a \<Rightarrow> co_mem s a)"

definition set_obj :: "obj_ptr \<Rightarrow> mem_obj \<Rightarrow> 'z co_state \<Rightarrow> 'z co_state" where
  "set_obj p ob s = (case p of P_NULL \<Rightarrow> s | P_OBJ \<Rightarrow> s\<lparr>co_obj := ob\<rparr> | P_AT a \<Rightarrow> s\<lparr>co_mem := (co_mem s)(a \<mapsto> ob)\<rparr>)"

definition with_obj :: "(mem_obj \<Rightarrow> mem_obj) \<Rightarrow> 'z co_state \<Rightarrow> 'z co_state option" where
  "with_obj f s =
     (case co_stack s of
        [] \<Rightarrow> None
      | p # _ \<Rightarrow> (case obj_at s p of None \<Rightarrow> None | Some ob \<Rightarrow> Some (set_obj p (f ob) s)))"

definition co_value :: "object_type \<Rightarrow> obj_via \<Rightarrow> 'z co_call" where
  "co_value ty via st = (VTrue, st \<bind> with_obj (\<lambda>ob. \<lparr>ob_type = ty, ob_via = via\<rparr>))"

text \<open>\<^verbatim>\<open>memcpy\<close> into memory just allocated, and memory for \<open>n\<close> objects. What an object is before it is written is
  indeterminate; the model has \<^const>\<open>object_new\<close> there.\<close>

definition copy_bytes :: "nat \<Rightarrow> byte list \<Rightarrow> (nat \<rightharpoonup> byte) \<Rightarrow> (nat \<rightharpoonup> byte)" where
  "copy_bytes p bs m = (\<lambda>a. if p \<le> a \<and> a < p + length bs then Some (bs ! (a - p)) else m a)"

definition place_objects :: "nat \<Rightarrow> nat \<Rightarrow> (nat \<rightharpoonup> mem_obj) \<Rightarrow> (nat \<rightharpoonup> mem_obj)" where
  "place_objects p n m =
     (\<lambda>a. if p \<le> a \<and> (a - p) mod sizeof_object = 0 \<and> (a - p) div sizeof_object < n then Some object_new else m a)"

text \<open>\<^verbatim>\<open>visit_str\<close>, \<^verbatim>\<open>visit_bin\<close> and \<^verbatim>\<open>visit_ext\<close>: the limit, its exception, the type, the member and the size
  it gets are given.\<close>

definition co_body :: "'z co_env \<Rightarrow> nat \<Rightarrow> mp_exn \<Rightarrow> object_type \<Rightarrow> (chars \<Rightarrow> obj_via) \<Rightarrow> byte list \<Rightarrow> 'z co_call" where
  "co_body e limit overflow ty via bs st =
     (let len = length bs in
      if limit < len then (VThrow overflow, st)
      else case st \<bind> with_obj (\<lambda>ob. ob\<lparr>ob_type := ty\<rparr>) of
          None \<Rightarrow> (VTrue, None)
        | Some s \<Rightarrow>
            (if (case co_func e of None \<Rightarrow> False | Some f \<Rightarrow> f ty len)
             then (VTrue, with_obj (\<lambda>ob. ob\<lparr>ob_via := via (Referenced bs)\<rparr>) (s\<lparr>co_referenced := True\<rparr>))
             else case co_alloc e len 1 (co_zone s) of
                 (Inl x, z) \<Rightarrow> (VThrow x, Some (s\<lparr>co_zone := z\<rparr>))
               | (Inr p, z) \<Rightarrow>
                   (VTrue, with_obj (\<lambda>ob. ob\<lparr>ob_via := via (Copied p)\<rparr>)
                      (s\<lparr>co_zone := z, co_bytes := copy_bytes p bs (co_bytes s)\<rparr>))))"

text \<open>\<^verbatim>\<open>start_array\<close> and \<^verbatim>\<open>start_map\<close>: an element takes \<open>k\<close> objects. The product cannot overflow a 64-bit
  \<^verbatim>\<open>size_t\<close>, but the code checks it.\<close>

definition co_start :: "'z co_env \<Rightarrow> nat \<Rightarrow> mp_exn \<Rightarrow> object_type \<Rightarrow> (nat \<Rightarrow> obj_ptr \<Rightarrow> obj_via) \<Rightarrow> nat \<Rightarrow> 32 word \<Rightarrow> 'z co_call" where
  "co_start e limit overflow ty via k num st =
     (let n = unat num in
      if limit < n then (VThrow overflow, st)
      else case st of
          None \<Rightarrow> (VTrue, None)
        | Some s \<Rightarrow>
            (if lim_depth (co_limit e) < length (co_stack s) then (VThrow depth_size_overflow, Some s)
             else case with_obj (\<lambda>_. \<lparr>ob_type = ty, ob_via = V_size n\<rparr>) s of
                 None \<Rightarrow> (VTrue, None)
               | Some s \<Rightarrow>
                   (if n = 0
                    then (VTrue, map_option (\<lambda>s. s\<lparr>co_stack := P_NULL # co_stack s\<rparr>) (with_obj (\<lambda>ob. ob\<lparr>ob_via := via n P_NULL\<rparr>) s))
                    else let num_bytes = u64 (n * (k * sizeof_object)) in
                      if num_bytes div (k * sizeof_object) \<noteq> n then (VThrow overflow, Some s)
                      else case co_alloc e num_bytes 8 (co_zone s) of
                          (Inl x, z) \<Rightarrow> (VThrow x, Some (s\<lparr>co_zone := z\<rparr>))
                        | (Inr p, z) \<Rightarrow>
                            (VTrue, map_option (\<lambda>s. s\<lparr>co_stack := P_AT p # co_stack s\<rparr>)
                               (with_obj (\<lambda>ob. ob\<lparr>ob_via := via n (P_AT p)\<rparr>)
                                 (s\<lparr>co_zone := z, co_mem := place_objects p (n * k) (co_mem s)\<rparr>))))))"

text \<open>\<^verbatim>\<open>++m_stack.back()\<close> and \<^verbatim>\<open>m_stack.pop_back()\<close>\<close>

definition co_advance :: "'z co_call" where
  "co_advance st = (VTrue, do {
     s \<leftarrow> st;
     case co_stack s of
       P_AT p # ps \<Rightarrow> Some (s\<lparr>co_stack := P_AT (p + sizeof_object) # ps\<rparr>)
     | _ \<Rightarrow> None })"

definition co_pop :: "'z co_call" where
  "co_pop st = (VTrue, do {
     s \<leftarrow> st;
     case co_stack s of [] \<Rightarrow> None | p # ps \<Rightarrow> Some (s\<lparr>co_stack := ps\<rparr>) })"

text \<open>\<^verbatim>\<open>static_cast<uint32_t>(size - 1)\<close>\<close>

definition ext_size :: "byte list \<Rightarrow> nat" where
  "ext_size bs = unat (of_nat (length bs) - 1 :: 32 word)"

definition create_object_visitor :: "'z co_env \<Rightarrow> 'z co_state option visitor" where
  "create_object_visitor e = (let lim = co_limit e in null_visitor
     \<lparr>visit_nil := \<lambda>st. (VTrue, st \<bind> with_obj (\<lambda>ob. ob\<lparr>ob_type := T_NIL\<rparr>)),
      visit_boolean := \<lambda>v. co_value T_BOOLEAN (V_boolean v),
      visit_positive_integer := \<lambda>v. co_value T_POSITIVE_INTEGER (V_u64 v),
      visit_negative_integer := \<lambda>v. if 0 \<le> sint v then co_value T_POSITIVE_INTEGER (V_u64 v)
        else co_value T_NEGATIVE_INTEGER (V_i64 v),
      visit_float32 := \<lambda>v. co_value T_FLOAT32 (V_f64 (fp_widen (co_fpu e) v)),
      visit_float64 := \<lambda>v. co_value T_FLOAT64 (V_f64 v),
      visit_str := \<lambda>bs. co_body e (lim_str lim) str_size_overflow T_STR (V_str (length bs)) bs,
      visit_bin := \<lambda>bs. co_body e (lim_bin lim) bin_size_overflow T_BIN (V_bin (length bs)) bs,
      visit_ext := \<lambda>bs. co_body e (lim_ext lim) ext_size_overflow T_EXT (V_ext (ext_size bs)) bs,
      start_array := co_start e (lim_array lim) array_size_overflow T_ARRAY V_array 1,
      end_array_item := co_advance,
      end_array := co_pop,
      start_map := co_start e (lim_map lim) map_size_overflow T_MAP V_map 2,
      end_map_key := co_advance,
      end_map_value := co_advance,
      end_map := co_pop,
      parse_error := \<lambda>_ _. Pair (Some parse_error_exn),
      insufficient_bytes := \<lambda>_ _. Pair (Some insufficient_bytes_exn),
      vis_init := map_option co_init\<rparr>)"

subsection \<open>The object that is in memory\<close>

definition chars_are :: "(nat \<rightharpoonup> byte) \<Rightarrow> chars \<Rightarrow> byte list \<Rightarrow> bool" where
  "chars_are b ch bs \<longleftrightarrow>
     (case ch of
        Referenced cs \<Rightarrow> cs = bs
      | Copied p \<Rightarrow> map (\<lambda>i. b (p + i)) [0..<length bs] = map Some bs)"

text \<open>A \<^verbatim>\<open>FLOAT32\<close> went through a \<^verbatim>\<open>float\<close>.\<close>

fun holds :: "fpu \<Rightarrow> (nat \<rightharpoonup> mem_obj) \<Rightarrow> (nat \<rightharpoonup> byte) \<Rightarrow> mobj \<Rightarrow> mem_obj \<Rightarrow> bool"
  and holds_items :: "fpu \<Rightarrow> (nat \<rightharpoonup> mem_obj) \<Rightarrow> (nat \<rightharpoonup> byte) \<Rightarrow> mobj list \<Rightarrow> obj_ptr \<Rightarrow> bool"
  and holds_pairs :: "fpu \<Rightarrow> (nat \<rightharpoonup> mem_obj) \<Rightarrow> (nat \<rightharpoonup> byte) \<Rightarrow> object_kv list \<Rightarrow> obj_ptr \<Rightarrow> bool" where
  "holds fp m b NIL c \<longleftrightarrow> ob_type c = T_NIL"
| "holds fp m b (BOOLEAN v) c \<longleftrightarrow> ob_type c = T_BOOLEAN \<and> ob_via c = V_boolean v"
| "holds fp m b (POSITIVE_INTEGER u) c \<longleftrightarrow> ob_type c = T_POSITIVE_INTEGER \<and> ob_via c = V_u64 u"
| "holds fp m b (NEGATIVE_INTEGER i) c \<longleftrightarrow> ob_type c = T_NEGATIVE_INTEGER \<and> ob_via c = V_i64 i"
| "holds fp m b (FLOAT32 d) c \<longleftrightarrow> ob_type c = T_FLOAT32 \<and> ob_via c = V_f64 (fp_widen fp (fp_narrow fp d))"
| "holds fp m b (FLOAT64 d) c \<longleftrightarrow> ob_type c = T_FLOAT64 \<and> ob_via c = V_f64 d"
| "holds fp m b (STR_t bs) c \<longleftrightarrow>
     ob_type c = T_STR \<and> (case ob_via c of V_str n ch \<Rightarrow> n = length bs \<and> chars_are b ch bs | _ \<Rightarrow> False)"
| "holds fp m b (BIN bs) c \<longleftrightarrow>
     ob_type c = T_BIN \<and> (case ob_via c of V_bin n ch \<Rightarrow> n = length bs \<and> chars_are b ch bs | _ \<Rightarrow> False)"
| "holds fp m b (EXT bs) c \<longleftrightarrow>
     ob_type c = T_EXT \<and> (case ob_via c of V_ext n ch \<Rightarrow> n + 1 = length bs \<and> chars_are b ch bs | _ \<Rightarrow> False)"
| "holds fp m b (ARRAY os) c \<longleftrightarrow>
     ob_type c = T_ARRAY \<and> (case ob_via c of V_array n p \<Rightarrow> n = length os \<and> holds_items fp m b os p | _ \<Rightarrow> False)"
| "holds fp m b (MAP kvs) c \<longleftrightarrow>
     ob_type c = T_MAP \<and> (case ob_via c of V_map n p \<Rightarrow> n = length kvs \<and> holds_pairs fp m b kvs p | _ \<Rightarrow> False)"
| "holds_items fp m b [] p \<longleftrightarrow> True"
| "holds_items fp m b (ob # os) p \<longleftrightarrow>
     (case p of P_AT a \<Rightarrow> (case m a of Some c \<Rightarrow> holds fp m b ob c | None \<Rightarrow> False) \<and> holds_items fp m b os (P_AT (a + 24))
      | _ \<Rightarrow> False)"
| "holds_pairs fp m b [] p \<longleftrightarrow> True"
| "holds_pairs fp m b (KV k x # kvs) p \<longleftrightarrow>
     (case p of P_AT a \<Rightarrow> (case m a of Some c \<Rightarrow> holds fp m b k c | None \<Rightarrow> False) \<and>
        (case m (a + 24) of Some c \<Rightarrow> holds fp m b x c | None \<Rightarrow> False) \<and> holds_pairs fp m b kvs (P_AT (a + 48))
      | _ \<Rightarrow> False)"

text \<open>The exception for the first limit that an object exceeds, at a depth of the stack.\<close>

definition first_error :: "mp_exn option \<Rightarrow> mp_exn option \<Rightarrow> mp_exn option" where
  "first_error e1 e2 = (case e1 of None \<Rightarrow> e2 | Some x \<Rightarrow> Some x)"

definition exceeds :: "nat \<Rightarrow> nat \<Rightarrow> mp_exn \<Rightarrow> mp_exn option" where
  "exceeds limit n x = (if limit < n then Some x else None)"

fun limit_error :: "unpack_limit \<Rightarrow> nat \<Rightarrow> mobj \<Rightarrow> mp_exn option"
  and items_error :: "unpack_limit \<Rightarrow> nat \<Rightarrow> mobj list \<Rightarrow> mp_exn option"
  and pairs_error :: "unpack_limit \<Rightarrow> nat \<Rightarrow> object_kv list \<Rightarrow> mp_exn option" where
  "limit_error l d (STR_t bs) = exceeds (lim_str l) (length bs) str_size_overflow"
| "limit_error l d (BIN bs) = exceeds (lim_bin l) (length bs) bin_size_overflow"
| "limit_error l d (EXT bs) = exceeds (lim_ext l) (length bs) ext_size_overflow"
| "limit_error l d (ARRAY os) =
     first_error (exceeds (lim_array l) (length os) array_size_overflow)
       (first_error (exceeds (lim_depth l) d depth_size_overflow) (items_error l (d + 1) os))"
| "limit_error l d (MAP kvs) =
     first_error (exceeds (lim_map l) (length kvs) map_size_overflow)
       (first_error (exceeds (lim_depth l) d depth_size_overflow) (pairs_error l (d + 1) kvs))"
| "limit_error l d _ = None"
| "items_error l d [] = None"
| "items_error l d (ob # os) = first_error (limit_error l d ob) (items_error l d os)"
| "pairs_error l d [] = None"
| "pairs_error l d (KV k x # kvs) = first_error (limit_error l d k) (first_error (limit_error l d x) (pairs_error l d kvs))"

text \<open>The memory that is enough for an object.\<close>

fun mem_need :: "mobj \<Rightarrow> nat"
  and items_need :: "mobj list \<Rightarrow> nat"
  and pairs_need :: "object_kv list \<Rightarrow> nat" where
  "mem_need (STR_t bs) = length bs"
| "mem_need (BIN bs) = length bs"
| "mem_need (EXT bs) = length bs"
| "mem_need (ARRAY os) = (if os = [] then 0 else 24 * length os + 7) + items_need os"
| "mem_need (MAP kvs) = (if kvs = [] then 0 else 48 * length kvs + 7) + pairs_need kvs"
| "mem_need _ = 0"
| "items_need [] = 0"
| "items_need (ob # os) = mem_need ob + items_need os"
| "pairs_need [] = 0"
| "pairs_need (KV k x # kvs) = mem_need k + (mem_need x + pairs_need kvs)"

lemma map_leD: "m \<subseteq>\<^sub>m m' \<Longrightarrow> m a = Some c \<Longrightarrow> m' a = Some c"
  unfolding map_le_def by (metis domI)

lemma chars_are_Copied: "chars_are b (Copied p) bs \<longleftrightarrow> (\<forall>i < length bs. b (p + i) = Some (bs ! i))"
proof -
  have "map (\<lambda>i. b (p + i)) [0..<length bs] = map Some bs \<longleftrightarrow>
      (\<forall>i < length bs. map (\<lambda>i. b (p + i)) [0..<length bs] ! i = map Some bs ! i)"
    by (subst list_eq_iff_nth_eq) simp
  then show ?thesis by (simp add: chars_are_def)
qed

lemma chars_are_mono: "b \<subseteq>\<^sub>m b' \<Longrightarrow> chars_are b ch bs \<Longrightarrow> chars_are b' ch bs"
proof (cases ch)
  case (Copied p)
  show "b \<subseteq>\<^sub>m b' \<Longrightarrow> chars_are b ch bs \<Longrightarrow> chars_are b' ch bs"
    unfolding Copied chars_are_Copied using map_leD [of b b'] by blast
qed (simp add: chars_are_def)

lemma holds_mono:
  "m \<subseteq>\<^sub>m m' \<Longrightarrow> b \<subseteq>\<^sub>m b' \<Longrightarrow> holds fp m b ob c \<Longrightarrow> holds fp m' b' ob c"
  "m \<subseteq>\<^sub>m m' \<Longrightarrow> b \<subseteq>\<^sub>m b' \<Longrightarrow> holds_items fp m b os p \<Longrightarrow> holds_items fp m' b' os p"
  "m \<subseteq>\<^sub>m m' \<Longrightarrow> b \<subseteq>\<^sub>m b' \<Longrightarrow> holds_pairs fp m b kvs p \<Longrightarrow> holds_pairs fp m' b' kvs p"
proof (induction fp m b ob c and fp m b os p and fp m b kvs p rule: holds_holds_items_holds_pairs.induct)
  case (13 fp m b ob os p)
  then show ?case by (cases p) (auto split: option.splits dest: map_leD)
next
  case (15 fp m b k x kvs p)
  then show ?case by (cases p) (auto split: option.splits dest: map_leD)
qed (auto split: obj_via.splits intro: chars_are_mono)

subsection \<open>What the visitor relies on\<close>

text \<open>What a part of the walk may write: the slots \<open>W\<close> and memory that is new.\<close>

definition slots :: "'z co_state \<Rightarrow> obj_ptr set" where
  "slots s = insert P_OBJ (P_AT ` dom (co_mem s))"

definition own :: "'z co_state \<Rightarrow> 'z co_state \<Rightarrow> obj_ptr set \<Rightarrow> nat \<rightharpoonup> mem_obj" where
  "own s s' W = co_mem s' |` {a. P_AT a \<in> W \<or> a \<notin> dom (co_mem s)}"

lemma slot_obj: "p \<in> slots s \<longleftrightarrow> p \<noteq> P_NULL \<and> obj_at s p \<noteq> None"
  by (cases p) (auto simp: slots_def obj_at_def)

lemma slots_update [simp]:
  "slots (s\<lparr>co_referenced := r\<rparr>) = slots s" "slots (s\<lparr>co_stack := st\<rparr>) = slots s"
  "slots (s\<lparr>co_zone := z\<rparr>) = slots s" "slots (s\<lparr>co_bytes := b\<rparr>) = slots s"
  by (simp_all add: slots_def)

lemma obj_at_update [simp]:
  "obj_at (s\<lparr>co_referenced := r\<rparr>) p = obj_at s p" "obj_at (s\<lparr>co_stack := st\<rparr>) p = obj_at s p"
  "obj_at (s\<lparr>co_zone := z\<rparr>) p = obj_at s p" "obj_at (s\<lparr>co_bytes := b\<rparr>) p = obj_at s p"
  by (simp_all add: obj_at_def split: obj_ptr.splits)

lemma own_update [simp]: "own s (s'\<lparr>co_stack := st\<rparr>) W = own s s' W" "own (s\<lparr>co_stack := st\<rparr>) s' W = own s s' W"
  by (simp_all add: own_def)

lemma slot_at: "P_AT a \<in> slots s \<longleftrightarrow> a \<in> dom (co_mem s)"
  by (auto simp: slots_def)

context arena
begin

definition co_ok :: "'z co_state \<Rightarrow> bool" where
  "co_ok s \<longleftrightarrow> ok (co_zone s) \<and> dom (co_mem s) \<subseteq> used (co_zone s) \<and> dom (co_bytes s) \<subseteq> used (co_zone s)"

definition wrote :: "'z co_state \<Rightarrow> 'z co_state \<Rightarrow> obj_ptr set \<Rightarrow> bool" where
  "wrote s s' W \<longleftrightarrow>
     co_ok s' \<and> slots s \<subseteq> slots s' \<and> (\<forall>p \<in> slots s - W. obj_at s' p = obj_at s p) \<and> co_bytes s \<subseteq>\<^sub>m co_bytes s'"

lemma wrote_refl: "co_ok s \<Longrightarrow> wrote s s W"
  by (simp add: wrote_def)

lemma wrote_trans: "wrote s s1 W \<Longrightarrow> wrote s1 s2 W' \<Longrightarrow> W \<union> W' \<subseteq> X \<union> - slots s \<Longrightarrow> wrote s s2 X"
proof -
  assume w: "wrote s s1 W" "wrote s1 s2 W'" and X: "W \<union> W' \<subseteq> X \<union> - slots s"
  have "obj_at s2 p = obj_at s p" if p: "p \<in> slots s - X" for p
  proof -
    have "p \<in> slots s - W" "p \<in> slots s1 - W'" using p X w(1) by (auto simp: wrote_def)
    then show ?thesis using w by (simp add: wrote_def)
  qed
  moreover have "co_bytes s \<subseteq>\<^sub>m co_bytes s2" using w unfolding wrote_def by (blast intro: map_le_trans)
  ultimately show "wrote s s2 X" using w by (auto simp: wrote_def)
qed

lemma own_inner:
  assumes "slots s \<subseteq> slots s1" and "W \<subseteq> X \<union> - slots s"
  shows "own s1 s2 W \<subseteq>\<^sub>m own s s2 X"
proof -
  have "own s s2 X a = Some c" if o: "own s1 s2 W a = Some c" for a c
  proof -
    have a: "co_mem s2 a = Some c" "P_AT a \<in> W \<or> a \<notin> dom (co_mem s1)"
      using o by (auto simp: own_def restrict_map_def split: if_splits)
    have "P_AT a \<in> X \<or> a \<notin> dom (co_mem s)" using a(2) assms slot_at [of a s] slot_at [of a s1] by blast
    then show ?thesis using a(1) by (simp add: own_def restrict_map_def)
  qed
  then show ?thesis by (auto simp: map_le_def dom_def)
qed

lemma own_later:
  assumes "wrote s s1 W" and "wrote s1 s2 W'" and "W \<inter> W' = {}" and "W' \<subseteq> slots s" and "W \<subseteq> X"
  shows "own s s1 W \<subseteq>\<^sub>m own s s2 X"
proof -
  have "own s s2 X a = Some c" if o: "own s s1 W a = Some c" for a c
  proof -
    have a: "co_mem s1 a = Some c" "P_AT a \<in> W \<or> a \<notin> dom (co_mem s)"
      using o by (auto simp: own_def restrict_map_def split: if_splits)
    then have "P_AT a \<in> slots s1 - W'" using assms(3,4) by (auto simp: slots_def)
    then have "obj_at s2 (P_AT a) = obj_at s1 (P_AT a)" using assms(2) by (auto simp: wrote_def)
    then show ?thesis using a assms(5) by (auto simp: own_def obj_at_def restrict_map_def)
  qed
  then show ?thesis by (auto simp: map_le_def dom_def)
qed

text \<open>The outcome of a part of the walk: it ended and a relation holds of the states, or an exception was
  thrown, for the limit that is exceeded or for want of memory.\<close>

definition outcome :: "'z co_state \<Rightarrow> mp_exn option \<Rightarrow> nat \<Rightarrow> ('z co_state \<Rightarrow> bool) \<Rightarrow> vres \<times> 'z co_state option \<Rightarrow> bool" where
  "outcome s err need Q rv \<longleftrightarrow>
     (case rv of
        (VTrue, st) \<Rightarrow> err = None \<and> (\<exists>s'. st = Some s' \<and> Q s' \<and>
          (need \<le> room (co_zone s) \<longrightarrow> room (co_zone s) \<le> room (co_zone s') + need))
      | (VFalse, st) \<Rightarrow> False
      | (VThrow x, st) \<Rightarrow> (\<exists>s'. st = Some s' \<and> co_ok s') \<and> (err = Some x \<or> x = bad_alloc \<and> room (co_zone s) < need))"

lemma ext_size_ok: "bs \<noteq> [] \<Longrightarrow> length bs < 2 ^ 32 \<Longrightarrow> ext_size bs + 1 = length bs"
proof -
  assume a: "bs \<noteq> []" "length bs < 2 ^ 32"
  then have "(of_nat (length bs) - 1 :: 32 word) = of_nat (length bs - 1)" by (cases bs) simp_all
  with a show ?thesis unfolding ext_size_def by (simp add: unat_of_nat_small)
qed

lemma outcome_and_then:
  assumes "outcome s e1 n1 Q1 rv" and "\<And>s1. Q1 s1 \<Longrightarrow> outcome s1 e2 n2 Q2 (k (Some s1))"
  shows "outcome s (first_error e1 e2) (n1 + n2) Q2 (and_then rv k)"
proof -
  obtain r st where rv: "rv = (r, st)" by force
  show ?thesis
  proof (cases r)
    case VTrue
    then obtain s1 where s1: "st = Some s1" "Q1 s1" "e1 = None"
        "n1 \<le> room (co_zone s) \<longrightarrow> room (co_zone s) \<le> room (co_zone s1) + n1"
      using assms(1) rv by (auto simp: outcome_def)
    show ?thesis using assms(2) [OF s1(2)] s1 rv VTrue
      by (auto simp: outcome_def first_error_def split: prod.splits vres.splits)
  next
    case (VThrow x)
    then show ?thesis using assms(1) rv by (auto simp: outcome_def first_error_def and_then_def)
  qed (use assms(1) rv in \<open>simp add: outcome_def\<close>)
qed

lemma outcome_mono: "outcome s e n Q rv \<Longrightarrow> (\<And>s'. Q s' \<Longrightarrow> Q' s') \<Longrightarrow> outcome s e n Q' rv"
  by (auto simp: outcome_def split: prod.splits vres.splits)

lemma set_obj_simps [simp]:
  "p \<noteq> P_NULL \<Longrightarrow> obj_at (set_obj p c s) p = Some c" "q \<noteq> p \<Longrightarrow> obj_at (set_obj p c s) q = obj_at s q"
  "co_stack (set_obj p c s) = co_stack s" "co_zone (set_obj p c s) = co_zone s" "co_bytes (set_obj p c s) = co_bytes s"
  by (cases p; cases q; simp add: set_obj_def obj_at_def)+

lemma slots_set_obj [simp]: "p \<in> slots s \<Longrightarrow> slots (set_obj p c s) = slots s"
  by (cases p) (auto simp: slots_def set_obj_def)

lemma with_obj_slot: "co_stack s = p # ps \<Longrightarrow> p \<in> slots s \<Longrightarrow> with_obj f s = Some (set_obj p (f (the (obj_at s p))) s)"
  by (auto simp: with_obj_def slot_obj)

lemma wrote_slot: "co_ok s \<Longrightarrow> p \<in> slots s \<Longrightarrow> wrote s (set_obj p c s) {p}"
  by (cases p) (auto simp: wrote_def co_ok_def slots_def set_obj_def obj_at_def split: if_splits)

text \<open>A value has been built at the slot on top of the stack.\<close>

definition built :: "fpu \<Rightarrow> mobj \<Rightarrow> obj_ptr \<Rightarrow> obj_ptr list \<Rightarrow> 'z co_state \<Rightarrow> 'z co_state \<Rightarrow> bool" where
  "built fp ob p ps s s' \<longleftrightarrow>
     wrote s s' {p} \<and> co_stack s' = p # ps \<and> (\<exists>c. obj_at s' p = Some c \<and> holds fp (own s s' {p}) (co_bytes s') ob c)"

text \<open>The slot has been given a value; a value with a body.\<close>

definition stored :: "mem_obj \<Rightarrow> obj_ptr \<Rightarrow> obj_ptr list \<Rightarrow> 'z co_state \<Rightarrow> 'z co_state \<Rightarrow> bool" where
  "stored c p ps s s' \<longleftrightarrow> wrote s s' {p} \<and> co_stack s' = p # ps \<and> obj_at s' p = Some c"

definition stored_body :: "object_type \<Rightarrow> (chars \<Rightarrow> obj_via) \<Rightarrow> byte list \<Rightarrow> obj_ptr \<Rightarrow> obj_ptr list \<Rightarrow> 'z co_state \<Rightarrow> 'z co_state \<Rightarrow> bool" where
  "stored_body ty via bs p ps s s' \<longleftrightarrow>
     (\<exists>ch. stored \<lparr>ob_type = ty, ob_via = via ch\<rparr> p ps s s' \<and> chars_are (co_bytes s') ch bs)"

lemma with_obj_stores:
  assumes "co_ok s" and "co_stack s = p # ps" and "p \<in> slots s"
  shows "\<exists>s'. with_obj f s = Some s' \<and> stored (f (the (obj_at s p))) p ps s s' \<and> co_zone s' = co_zone s"
proof -
  have "p \<noteq> P_NULL" using assms(3) by (auto simp: slots_def)
  then show ?thesis using assms wrote_slot by (simp add: with_obj_slot stored_def)
qed

lemma co_value_stores:
  assumes "co_ok s" and "co_stack s = p # ps" and "p \<in> slots s"
  shows "outcome s None 0 (stored \<lparr>ob_type = ty, ob_via = via\<rparr> p ps s) (co_value ty via (Some s))"
  using with_obj_stores [OF assms, of "\<lambda>ob. \<lparr>ob_type = ty, ob_via = via\<rparr>"] by (auto simp: outcome_def co_value_def)

lemma co_value_built:
  assumes "co_ok s" and "co_stack s = p # ps" and "p \<in> slots s"
    and "\<And>m b. holds fp m b ob \<lparr>ob_type = ty, ob_via = via\<rparr>"
  shows "outcome s None 0 (built fp ob p ps s) (co_value ty via (Some s))"
  by (rule outcome_mono [OF co_value_stores [OF assms(1-3)]]) (simp add: stored_def built_def assms(4))

lemma copy_bytes_ok:
  assumes "addr_block p (length bs) \<inter> dom b = {}"
  shows "b \<subseteq>\<^sub>m copy_bytes p bs b" and "chars_are (copy_bytes p bs b) (Copied p) bs"
    and "dom (copy_bytes p bs b) = dom b \<union> addr_block p (length bs)"
proof -
  have "b a = Some x \<Longrightarrow> a \<notin> addr_block p (length bs)" for a x using assms by blast
  then show "b \<subseteq>\<^sub>m copy_bytes p bs b" by (fastforce simp: map_le_def copy_bytes_def addr_block_def)
qed (auto simp: copy_bytes_def chars_are_Copied addr_block_def split: if_splits)

lemma co_body_stores:
  assumes "co_ok s" and "co_stack s = p # ps" and "p \<in> slots s" and "co_alloc e = alloc" and "length bs < 2 ^ 32"
  shows "outcome s (exceeds limit (length bs) x) (length bs) (stored_body ty via bs p ps s) (co_body e limit x ty via bs (Some s))"
proof (cases "limit < length bs")
  case True
  then show ?thesis using assms(1) by (simp add: outcome_def co_body_def exceeds_def)
next
  case False
  have p: "p \<noteq> P_NULL" using assms(3) by (auto simp: slots_def)
  define c where "c = (the (obj_at s p))\<lparr>ob_type := ty\<rparr>"
  have ty: "ob_type c = ty" by (simp add: c_def)
  have w: "with_obj (ob_type_update (\<lambda>_. ty)) s = Some (set_obj p c s)"
    using with_obj_slot [OF assms(2,3)] by (simp add: c_def)
  have via: "c\<lparr>ob_via := v\<rparr> = \<lparr>ob_type = ty, ob_via = v\<rparr>" for v using ty by (cases c) simp
  have put: "with_obj (ob_via_update (\<lambda>_. v)) s1 = Some (set_obj p \<lparr>ob_type = ty, ob_via = v\<rparr> s1)"
    if "co_stack s1 = p # ps" "p \<in> slots s1" "obj_at s1 p = Some c" for v s1
    using with_obj_slot [OF that(1,2)] that(3) via by simp
  define s1 where "s1 = set_obj p c s"
  have s1: "co_stack s1 = p # ps" "p \<in> slots s1" "obj_at s1 p = Some c" "co_zone s1 = co_zone s" "wrote s s1 {p}"
    using assms p wrote_slot by (simp_all add: s1_def)
  have built: "stored_body ty via bs p ps s (set_obj p \<lparr>ob_type = ty, ob_via = via ch\<rparr> s2)"
    if "wrote s s2 {p}" "co_stack s2 = p # ps" "p \<in> slots s2" "chars_are (co_bytes s2) ch bs" for s2 ch
  proof -
    have "wrote s2 (set_obj p \<lparr>ob_type = ty, ob_via = via ch\<rparr> s2) {p}"
      using that(1,3) wrote_slot by (simp add: wrote_def)
    from wrote_trans [OF that(1) this, of "{p}"] show ?thesis
      using that(2,4) p by (auto simp: stored_body_def stored_def)
  qed
  show ?thesis
  proof (cases "case co_func e of None \<Rightarrow> False | Some f \<Rightarrow> f ty (length bs)")
    case True
    have "wrote s (s1\<lparr>co_referenced := True\<rparr>) {p}"
      using s1(5) by (simp add: wrote_def co_ok_def)
    then show ?thesis
      using True False w put [of "s1\<lparr>co_referenced := True\<rparr>"] built [of "s1\<lparr>co_referenced := True\<rparr>" "Referenced bs"] s1
      by (simp add: outcome_def co_body_def exceeds_def chars_are_def flip: s1_def)
  next
    case nref: False
    obtain r z where a: "co_alloc e (length bs) 1 (co_zone s1) = (r, z)" by force
    have ok: "ok (co_zone s1)" "length bs + 1 \<le> 2 ^ 62" using s1(5) assms(5) by (simp_all add: wrote_def co_ok_def)
    note al = alloc_keeps [OF ok, of r z] alloc_throws [OF ok, of _ z] alloc_block [OF ok, of _ z] alloc_room [OF ok, of _ z]
    show ?thesis
    proof (cases r)
      case (Inl x)
      have "co_ok (s1\<lparr>co_zone := z\<rparr>)" using al(1) a assms(4) s1(5) by (auto simp: wrote_def co_ok_def)
      then show ?thesis using Inl nref False al(2) a w assms(4) s1(4)
        by (auto simp: outcome_def co_body_def exceeds_def simp flip: s1_def split: option.splits)
    next
      case (Inr q)
      let ?s2 = "s1\<lparr>co_zone := z, co_bytes := copy_bytes q bs (co_bytes s1)\<rparr>"
      have new: "addr_block q (length bs) \<subseteq> used z - used (co_zone s1)" using al(3) a Inr assms(4) by simp
      have ok1: "co_ok s1" using s1(5) by (simp add: wrote_def)
      then have "addr_block q (length bs) \<inter> dom (co_bytes s1) = {}" using new by (auto simp: co_ok_def)
      note copy = copy_bytes_ok [OF this]
      have "co_ok ?s2" using ok1 al(1) a assms(4) new copy(3) by (auto simp: co_ok_def)
      moreover have "co_bytes s \<subseteq>\<^sub>m copy_bytes q bs (co_bytes s1)"
        using s1(5) copy(1) by (auto simp: wrote_def intro: map_le_trans)
      ultimately have "wrote s ?s2 {p}" using s1(5) by (simp add: wrote_def)
      then show ?thesis
        using nref False w a al(4) Inr assms(4) put [of ?s2] built [of ?s2 "Copied q"] copy(2) s1
        by (simp add: outcome_def co_body_def exceeds_def flip: s1_def split: option.splits)
    qed
  qed
qed

lemma co_body_built:
  assumes "co_ok s" and "co_stack s = p # ps" and "p \<in> slots s" and "co_alloc e = alloc" and "length bs < 2 ^ 32"
    and "\<And>m b ch. chars_are b ch bs \<Longrightarrow> holds fp m b ob \<lparr>ob_type = ty, ob_via = via ch\<rparr>"
  shows "outcome s (exceeds limit (length bs) x) (length bs) (built fp ob p ps s) (co_body e limit x ty via bs (Some s))"
  by (rule outcome_mono [OF co_body_stores [OF assms(1-5)]]) (auto simp: stored_body_def stored_def built_def assms(6))

text \<open>The slots of a container.\<close>

definition cells :: "obj_ptr \<Rightarrow> nat \<Rightarrow> obj_ptr set" where
  "cells q n = (case q of P_AT a \<Rightarrow> (\<lambda>i. P_AT (a + 24 * i)) ` {..<n} | _ \<Rightarrow> {})"

lemma cells_0 [simp]: "cells q 0 = {}"
  by (simp add: cells_def split: obj_ptr.split)

lemma cells_Suc: "cells (P_AT a) (Suc n) = insert (P_AT a) (cells (P_AT (a + 24)) n)"
proof -
  have "{..<Suc n} = insert 0 (Suc ` {..<n})" by (auto simp: image_iff less_Suc_eq_0_disj)
  then show ?thesis by (auto simp: cells_def image_iff add.assoc)
qed

lemma cells_above: "P_AT a \<in> cells (P_AT b) n \<Longrightarrow> b \<le> a"
  by (auto simp: cells_def)

text \<open>A container has been opened.\<close>

definition opened :: "obj_ptr \<Rightarrow> obj_ptr list \<Rightarrow> object_type \<Rightarrow> (nat \<Rightarrow> obj_ptr \<Rightarrow> obj_via) \<Rightarrow> nat \<Rightarrow> nat \<Rightarrow>
    'z co_state \<Rightarrow> 'z co_state \<Rightarrow> bool" where
  "opened p ps ty via n k s s' \<longleftrightarrow>
     wrote s s' {p} \<and>
     (\<exists>q. co_stack s' = q # p # ps \<and> obj_at s' p = Some \<lparr>ob_type = ty, ob_via = via n q\<rparr> \<and>
        (n = 0 \<or> (\<exists>a. q = P_AT a)) \<and> cells q (n * k) \<subseteq> slots s' - slots s)"

lemma place_objects_ok:
  assumes "addr_block a (n * 24) \<inter> dom m = {}"
  shows "m \<subseteq>\<^sub>m place_objects a n m" and "dom (place_objects a n m) \<subseteq> dom m \<union> addr_block a (n * 24)"
    and "P_AT b \<in> cells (P_AT a) n \<Longrightarrow> b \<in> dom (place_objects a n m) - dom m"
proof -
  have in_block: "x \<in> addr_block a (n * 24)" if "a \<le> x" "(x - a) div 24 < n" for x
    using that by (auto simp: addr_block_def div_less_iff_less_mult)
  have "m x = Some y \<Longrightarrow> x \<notin> addr_block a (n * 24)" for x y using assms by blast
  then show "m \<subseteq>\<^sub>m place_objects a n m" using in_block by (fastforce simp: map_le_def place_objects_def)
  show "dom (place_objects a n m) \<subseteq> dom m \<union> addr_block a (n * 24)"
    using in_block by (auto simp: place_objects_def split: if_splits)
  assume "P_AT b \<in> cells (P_AT a) n"
  then obtain i where i: "b = a + 24 * i" "i < n" by (auto simp: cells_def)
  then have "b \<in> addr_block a (n * 24)" by (auto simp: addr_block_def)
  then show "b \<in> dom (place_objects a n m) - dom m" using assms i by (auto simp: place_objects_def)
qed

lemma co_start_opens:
  assumes "co_ok s" and "co_stack s = p # ps" and "p \<in> slots s" and "co_alloc e = alloc" and "k = 1 \<or> k = 2"
  shows "outcome s
    (first_error (exceeds limit (unat num) x) (exceeds (lim_depth (co_limit e)) (length (co_stack s)) depth_size_overflow))
    (if num = 0 then 0 else k * 24 * unat num + 7)
    (opened p ps ty via (unat num) k s) (co_start e limit x ty via k num (Some s))"
proof (cases "limit < unat num \<or> lim_depth (co_limit e) < length (co_stack s)")
  case True
  then show ?thesis using assms(1) by (auto simp: outcome_def co_start_def exceeds_def first_error_def Let_def)
next
  case False
  have p: "p \<noteq> P_NULL" using assms(3) by (auto simp: slots_def)
  define n where "n = unat num"
  have n: "num = 0 \<longleftrightarrow> n = 0" "n < 2 ^ 32" using unsigned_less [of num] by (simp_all add: n_def unat_eq_zero)
  define s1 where "s1 = set_obj p \<lparr>ob_type = ty, ob_via = V_size n\<rparr> s"
  have w: "with_obj (\<lambda>_. \<lparr>ob_type = ty, ob_via = V_size n\<rparr>) s = Some s1"
    using with_obj_slot [OF assms(2,3)] by (simp add: s1_def)
  have s1: "co_stack s1 = p # ps" "p \<in> slots s1" "obj_at s1 p = Some \<lparr>ob_type = ty, ob_via = V_size n\<rparr>"
      "co_zone s1 = co_zone s" "wrote s s1 {p}" "slots s1 = slots s"
    using assms p wrote_slot by (simp_all add: s1_def)
  have put: "with_obj (ob_via_update (\<lambda>_. v)) s2 = Some (set_obj p \<lparr>ob_type = ty, ob_via = v\<rparr> s2)"
    if "co_stack s2 = p # ps" "p \<in> slots s2" "obj_at s2 p = obj_at s1 p" for v s2
    using with_obj_slot [OF that(1,2)] that(3) s1(3) by simp
  have opens: "opened p ps ty via n k s ((set_obj p \<lparr>ob_type = ty, ob_via = via n q\<rparr> s2)\<lparr>co_stack := q # p # ps\<rparr>)"
    if "wrote s s2 {p}" "p \<in> slots s2" "n = 0 \<or> (\<exists>a. q = P_AT a)" "cells q (n * k) \<subseteq> slots s2 - slots s" for s2 q
  proof -
    have "wrote s2 (set_obj p \<lparr>ob_type = ty, ob_via = via n q\<rparr> s2) {p}"
      using that(1,2) wrote_slot by (simp add: wrote_def)
    from wrote_trans [OF that(1) this, of "{p}"] have "wrote s (set_obj p \<lparr>ob_type = ty, ob_via = via n q\<rparr> s2) {p}" by simp
    then show ?thesis using that(2-4) p by (auto simp: opened_def wrote_def co_ok_def)
  qed
  show ?thesis
  proof (cases "n = 0")
    case True
    then show ?thesis using False w put [of s1] opens [of s1 P_NULL] s1 n
      by (simp add: outcome_def co_start_def exceeds_def first_error_def flip: n_def)
  next
    case False
    note nz = this
    have sz: "u64 (n * (k * 24)) = n * (k * 24)" "n * (k * 24) + 8 \<le> 2 ^ 62" using n(2) assms(5) by auto
    have kd: "n * (k * 24) div (k * 24) = n" using assms(5) by auto
    obtain r z where a: "co_alloc e (n * (k * 24)) 8 (co_zone s1) = (r, z)" by force
    have ok: "ok (co_zone s1)" using s1(5) by (simp add: wrote_def co_ok_def)
    note al = alloc_keeps [OF ok sz(2), of r z] alloc_throws [OF ok sz(2), of _ z] alloc_block [OF ok sz(2), of _ z] alloc_room [OF ok sz(2), of _ z]
    show ?thesis
    proof (cases r)
      case (Inl y)
      have "co_ok (s1\<lparr>co_zone := z\<rparr>)" using al(1) a assms(4) s1(5) by (auto simp: wrote_def co_ok_def)
      then show ?thesis using Inl False al(2) a w assms(4) s1(4) sz(1) kd n \<open>\<not> (limit < unat num \<or> _)\<close>
        by (simp add: outcome_def co_start_def exceeds_def first_error_def Let_def mult.commute flip: n_def)
    next
      case (Inr q)
      let ?s2 = "s1\<lparr>co_zone := z, co_mem := place_objects q (n * k) (co_mem s1)\<rparr>"
      have new: "addr_block q (n * k * 24) \<subseteq> used z - used (co_zone s1)" using al(3) a Inr assms(4) by (simp add: mult.assoc)
      have ok1: "co_ok s1" using s1(5) by (simp add: wrote_def)
      then have "addr_block q (n * k * 24) \<inter> dom (co_mem s1) = {}" using new by (auto simp: co_ok_def)
      note place = place_objects_ok [OF this]
      have sub: "slots s1 \<subseteq> slots ?s2" using place(1) by (auto simp: slots_def dest: map_leD)
      have same: "obj_at ?s2 b = obj_at s1 b" if "b \<in> slots s1" for b
        using that place(1) by (cases b) (auto simp: slots_def obj_at_def dest: map_leD)
      have u: "ok z" "used (co_zone s1) \<subseteq> used z" using al(1) a assms(4) by simp_all
      then have "dom (place_objects q (n * k) (co_mem s1)) \<subseteq> used z" using place(2) new ok1 unfolding co_ok_def by blast
      then have "co_ok ?s2" using ok1 u by (auto simp: co_ok_def)
      then have w2: "wrote s ?s2 {p}" using s1(5,6) sub same by (simp add: wrote_def subset_iff)
      have "cells (P_AT q) (n * k) \<subseteq> slots ?s2 - slots s1"
      proof
        fix b assume b: "b \<in> cells (P_AT q) (n * k)"
        then obtain c where c: "b = P_AT c" by (auto simp: cells_def)
        show "b \<in> slots ?s2 - slots s1" using place(3) [of c] b by (simp add: c slot_at)
      qed
      then have "opened p ps ty via n k s ((set_obj p \<lparr>ob_type = ty, ob_via = via n (P_AT q)\<rparr> ?s2)\<lparr>co_stack := P_AT q # p # ps\<rparr>)"
        using opens [OF w2, of "P_AT q"] s1(2,6) sub by auto
      then show ?thesis
        using False w a al(4) Inr assms(4) put [of ?s2] s1 same [OF s1(2)] sub sz(1) kd n \<open>\<not> (limit < unat num \<or> _)\<close>
        by (auto simp: outcome_def co_start_def exceeds_def first_error_def Let_def subset_iff mult.commute n_def [symmetric])
    qed
  qed
qed

lemma co_advance_moves:
  "co_stack s = P_AT a # ps \<Longrightarrow> co_advance (Some s) = (VTrue, Some (s\<lparr>co_stack := P_AT (a + 24) # ps\<rparr>))"
  by (simp add: co_advance_def)

lemma co_pop_pops: "co_stack s = q # ps \<Longrightarrow> co_pop (Some s) = (VTrue, Some (s\<lparr>co_stack := ps\<rparr>))"
  by (simp add: co_pop_def)

lemma wrote_stack [simp]: "wrote s (s'\<lparr>co_stack := st\<rparr>) W = wrote s s' W" "wrote (s\<lparr>co_stack := st\<rparr>) s' W = wrote s s' W"
  by (simp_all add: wrote_def co_ok_def)

lemma outcome_stack [simp]: "outcome (s\<lparr>co_stack := st\<rparr>) = outcome s"
  by (simp add: fun_eq_iff outcome_def split: vres.split)

lemma co_ok_stack [simp]: "co_ok (s\<lparr>co_stack := st\<rparr>) = co_ok s"
  by (simp add: co_ok_def)

text \<open>A step that always goes on.\<close>

lemma outcome_step:
  assumes "f (Some s) = (VTrue, Some (s\<lparr>co_stack := st\<rparr>))" and "outcome s e n Q (k (Some (s\<lparr>co_stack := st\<rparr>)))"
  shows "outcome s e n Q (and_then (f (Some s)) k)"
  using assms by simp

definition built_items :: "fpu \<Rightarrow> mobj list \<Rightarrow> obj_ptr \<Rightarrow> obj_ptr list \<Rightarrow> 'z co_state \<Rightarrow> 'z co_state \<Rightarrow> bool" where
  "built_items fp os q ps s s' \<longleftrightarrow>
     wrote s s' (cells q (length os)) \<and> tl (co_stack s') = ps \<and> co_stack s' \<noteq> [] \<and>
     holds_items fp (own s s' (cells q (length os))) (co_bytes s') os q"

definition built_pairs :: "fpu \<Rightarrow> object_kv list \<Rightarrow> obj_ptr \<Rightarrow> obj_ptr list \<Rightarrow> 'z co_state \<Rightarrow> 'z co_state \<Rightarrow> bool" where
  "built_pairs fp kvs q ps s s' \<longleftrightarrow>
     wrote s s' (cells q (length kvs * 2)) \<and> tl (co_stack s') = ps \<and> co_stack s' \<noteq> [] \<and>
     holds_pairs fp (own s s' (cells q (length kvs * 2))) (co_bytes s') kvs q"

lemma built_items_Cons:
  assumes "built fp ob (P_AT a) ps s s1" and "built_items fp os (P_AT (a + 24)) ps (s1\<lparr>co_stack := st\<rparr>) s2"
    and "cells (P_AT a) (Suc (length os)) \<subseteq> slots s"
  shows "built_items fp (ob # os) (P_AT a) ps s s2"
proof -
  let ?W = "cells (P_AT (a + 24)) (length os)" and ?X = "cells (P_AT a) (Suc (length os))"
  have X: "?X = insert (P_AT a) ?W" by (rule cells_Suc)
  have na: "P_AT a \<notin> ?W" using cells_above [of a "a + 24" "length os"] by auto
  have w1: "wrote s s1 {P_AT a}" and w2: "wrote s1 s2 ?W" using assms(1,2) by (simp_all add: built_def built_items_def)
  obtain c where c: "obj_at s1 (P_AT a) = Some c" "holds fp (own s s1 {P_AT a}) (co_bytes s1) ob c"
    using assms(1) by (auto simp: built_def)
  have "own s s1 {P_AT a} \<subseteq>\<^sub>m own s s2 ?X" using own_later [OF w1 w2, of ?X] na assms(3) X by auto
  then have h1: "holds fp (own s s2 ?X) (co_bytes s2) ob c"
    using holds_mono(1) c(2) w2 by (auto simp: wrote_def)
  have "own s1 s2 ?W \<subseteq>\<^sub>m own s s2 ?X" using own_inner [of s s1 ?W ?X s2] w1 X by (auto simp: wrote_def)
  then have h2: "holds_items fp (own s s2 ?X) (co_bytes s2) os (P_AT (a + 24))"
    using holds_mono(2) [OF _ map_le_refl] assms(2) by (auto simp: built_items_def)
  have "P_AT a \<in> slots s1 - ?W" using na w1 assms(3) X by (auto simp: wrote_def)
  then have "obj_at s2 (P_AT a) = Some c" using w2 c(1) by (auto simp: wrote_def)
  then have at: "own s s2 ?X a = Some c" using X by (simp add: own_def obj_at_def)
  have "wrote s s2 ?X" using wrote_trans [OF w1 w2, of ?X] X by auto
  then show ?thesis using at h1 h2 assms(2) by (simp add: built_items_def)
qed

lemma built_pairs_Cons:
  assumes "built fp k (P_AT a) ps s s1" and "built fp x (P_AT (a + 24)) ps (s1\<lparr>co_stack := st1\<rparr>) s2"
    and "built_pairs fp kvs (P_AT (a + 48)) ps (s2\<lparr>co_stack := st2\<rparr>) s3"
    and "cells (P_AT a) (Suc (Suc (length kvs * 2))) \<subseteq> slots s"
  shows "built_pairs fp (KV k x # kvs) (P_AT a) ps s s3"
proof -
  let ?W = "cells (P_AT (a + 48)) (length kvs * 2)" and ?X = "cells (P_AT a) (Suc (Suc (length kvs * 2)))"
  let ?a = "P_AT a" and ?b = "P_AT (a + 24)"
  have X: "?X = insert ?a (insert ?b ?W)" by (simp add: cells_Suc add.assoc)
  have W: "?a \<notin> ?W" "?b \<notin> ?W"
    using cells_above [of a "a + 48" "length kvs * 2"] cells_above [of "a + 24" "a + 48" "length kvs * 2"] by auto
  have w1: "wrote s s1 {?a}" and w2: "wrote s1 s2 {?b}" and w3: "wrote s2 s3 ?W"
    using assms(1-3) by (simp_all add: built_def built_pairs_def)
  have w12: "wrote s s2 {?a, ?b}" and w23: "wrote s1 s3 (insert ?b ?W)"
    using wrote_trans [OF w1 w2, of "{?a, ?b}"] wrote_trans [OF w2 w3, of "insert ?b ?W"] by auto
  have sub: "slots s \<subseteq> slots s1" "slots s1 \<subseteq> slots s2" "co_bytes s1 \<subseteq>\<^sub>m co_bytes s2" "co_bytes s2 \<subseteq>\<^sub>m co_bytes s3"
    using w1 w2 w3 by (simp_all add: wrote_def)
  obtain c d where c: "obj_at s1 ?a = Some c" "holds fp (own s s1 {?a}) (co_bytes s1) k c"
      and d: "obj_at s2 ?b = Some d" "holds fp (own s1 s2 {?b}) (co_bytes s2) x d"
    using assms(1,2) by (auto simp: built_def)
  have "own s s1 {?a} \<subseteq>\<^sub>m own s s3 ?X" using own_later [OF w1 w23, of ?X] W assms(4) X by auto
  then have h1: "holds fp (own s s3 ?X) (co_bytes s3) k c"
    using holds_mono(1) c(2) map_le_trans [OF sub(3,4)] by blast
  have "own s1 s2 {?b} \<subseteq>\<^sub>m own s1 s3 (insert ?b ?W)" using own_later [OF w2 w3, of "insert ?b ?W"] W assms(4) X sub by auto
  moreover have "own s1 s3 (insert ?b ?W) \<subseteq>\<^sub>m own s s3 ?X" using own_inner [OF sub(1), of "insert ?b ?W" ?X s3] X by auto
  ultimately have "own s1 s2 {?b} \<subseteq>\<^sub>m own s s3 ?X" by (rule map_le_trans)
  then have h2: "holds fp (own s s3 ?X) (co_bytes s3) x d" using holds_mono(1) d(2) sub(4) by blast
  have "own s2 s3 ?W \<subseteq>\<^sub>m own s s3 ?X" using own_inner [of s s2 ?W ?X s3] sub X by auto
  then have h3: "holds_pairs fp (own s s3 ?X) (co_bytes s3) kvs (P_AT (a + 48))"
    using holds_mono(3) [OF _ map_le_refl] assms(3) by (auto simp: built_pairs_def)
  have ab: "?a \<in> slots s" "?b \<in> slots s" using assms(4) X by auto
  have "obj_at s3 ?a = obj_at s1 ?a" using w23 ab W sub by (auto simp: wrote_def)
  moreover have "obj_at s3 ?b = obj_at s2 ?b" using w3 ab W sub by (auto simp: wrote_def)
  ultimately have at: "own s s3 ?X a = Some c" "own s s3 ?X (a + 24) = Some d"
    using c(1) d(1) X by (simp_all add: own_def obj_at_def)
  have "wrote s s3 ?X" using wrote_trans [OF w12 w3, of ?X] X by auto
  then show ?thesis using at h1 h2 h3 assms(3) by (simp add: built_pairs_def)
qed

text \<open>The end of a container.\<close>

lemma closed:
  assumes "opened p ps ty via n k s s1" and "p \<in> slots s" and "co_stack s1 = q # p # ps"
    and "wrote s1 s2 (cells q (n * k))" and "tl (co_stack s2) = p # ps" "co_stack s2 \<noteq> []"
    and "\<And>m. own s1 s2 (cells q (n * k)) \<subseteq>\<^sub>m m \<Longrightarrow> holds fp m (co_bytes s2) ob \<lparr>ob_type = ty, ob_via = via n q\<rparr>"
  shows "outcome s2 None 0 (built fp ob p ps s) (co_pop (Some s2))"
proof -
  have o: "wrote s s1 {p}" "obj_at s1 p = Some \<lparr>ob_type = ty, ob_via = via n q\<rparr>" "cells q (n * k) \<inter> slots s = {}" "slots s \<subseteq> slots s1"
    using assms(1,3) by (auto simp: opened_def wrote_def)
  have "p \<notin> cells q (n * k)" using o(3) assms(2) by auto
  then have "obj_at s2 p = obj_at s1 p" using assms(2,4) o(4) by (auto simp: wrote_def)
  moreover have "wrote s s2 {p}" using wrote_trans [OF o(1) assms(4), of "{p}"] o(3) by auto
  moreover have "own s1 s2 (cells q (n * k)) \<subseteq>\<^sub>m own s s2 {p}" using own_inner [OF o(4), of "cells q (n * k)" "{p}" s2] o(3) by auto
  ultimately have "built fp ob p ps s (s2\<lparr>co_stack := p # ps\<rparr>)" using assms(7) o(2) by (auto simp: built_def)
  then show ?thesis using assms(5,6) co_pop_pops [of s2 "hd (co_stack s2)" "p # ps"] by (cases "co_stack s2") (auto simp: outcome_def)
qed

lemma first_error_simps [simp]:
  "first_error (first_error e1 e2) e3 = first_error e1 (first_error e2 e3)" "first_error e None = e" "first_error None e = e"
  by (simp_all add: first_error_def split: option.splits)

lemma create_callbacks:
  "visit_nil (create_object_visitor e) (Some s) = (VTrue, with_obj (\<lambda>ob. ob\<lparr>ob_type := T_NIL\<rparr>) s)"
  "visit_boolean (create_object_visitor e) v = co_value T_BOOLEAN (V_boolean v)"
  "visit_positive_integer (create_object_visitor e) u = co_value T_POSITIVE_INTEGER (V_u64 u)"
  "visit_negative_integer (create_object_visitor e) i =
     (if 0 \<le> sint i then co_value T_POSITIVE_INTEGER (V_u64 i) else co_value T_NEGATIVE_INTEGER (V_i64 i))"
  "visit_float32 (create_object_visitor e) f = co_value T_FLOAT32 (V_f64 (fp_widen (co_fpu e) f))"
  "visit_float64 (create_object_visitor e) d = co_value T_FLOAT64 (V_f64 d)"
  "visit_str (create_object_visitor e) bs = co_body e (lim_str (co_limit e)) str_size_overflow T_STR (V_str (length bs)) bs"
  "visit_bin (create_object_visitor e) bs = co_body e (lim_bin (co_limit e)) bin_size_overflow T_BIN (V_bin (length bs)) bs"
  "visit_ext (create_object_visitor e) bs = co_body e (lim_ext (co_limit e)) ext_size_overflow T_EXT (V_ext (ext_size bs)) bs"
  "start_array (create_object_visitor e) = co_start e (lim_array (co_limit e)) array_size_overflow T_ARRAY V_array 1"
  "start_array_item (create_object_visitor e) = Pair VTrue"
  "end_array_item (create_object_visitor e) = co_advance"
  "end_array (create_object_visitor e) = co_pop"
  "start_map (create_object_visitor e) = co_start e (lim_map (co_limit e)) map_size_overflow T_MAP V_map 2"
  "start_map_key (create_object_visitor e) = Pair VTrue"
  "end_map_key (create_object_visitor e) = co_advance"
  "start_map_value (create_object_visitor e) = Pair VTrue"
  "end_map_value (create_object_visitor e) = co_advance"
  "end_map (create_object_visitor e) = co_pop"
  by (simp_all add: create_object_visitor_def null_visitor_def Let_def)

lemma walk_builds:
  assumes e: "co_alloc e = alloc" "co_fpu e = fp"
  shows
  "mobj_ok ob \<Longrightarrow> co_ok s \<Longrightarrow> co_stack s = p # ps \<Longrightarrow> p \<in> slots s \<Longrightarrow>
     outcome s (limit_error (co_limit e) (Suc (length ps)) ob) (mem_need ob) (built fp ob p ps s)
       (walk fp (create_object_visitor e) ob (Some s))"
  "mobjs_ok os \<Longrightarrow> co_ok s \<Longrightarrow> co_stack s = q # ps \<Longrightarrow> cells q (length os) \<subseteq> slots s \<Longrightarrow> os = [] \<or> (\<exists>a. q = P_AT a) \<Longrightarrow>
     outcome s (items_error (co_limit e) (Suc (length ps)) os) (items_need os) (built_items fp os q ps s)
       (walk_items fp (create_object_visitor e) os (Some s))"
  "pairs_ok kvs \<Longrightarrow> co_ok s \<Longrightarrow> co_stack s = q # ps \<Longrightarrow> cells q (length kvs * 2) \<subseteq> slots s \<Longrightarrow> kvs = [] \<or> (\<exists>a. q = P_AT a) \<Longrightarrow>
     outcome s (pairs_error (co_limit e) (Suc (length ps)) kvs) (pairs_need kvs) (built_pairs fp kvs q ps s)
       (walk_pairs fp (create_object_visitor e) kvs (Some s))"
proof (induction ob and os and kvs arbitrary: s p ps and s q ps and s q ps rule: mobj_ok_mobjs_ok_pairs_ok.induct)
  case (1 i)
  then show ?case by (auto simp: walk_funs create_callbacks intro!: co_value_built)
next
  case (2 bs)
  then show ?case using co_body_built [OF 2(2-4) e(1)] by (auto simp: walk_funs create_callbacks)
next
  case (3 bs)
  then show ?case using co_body_built [OF 3(2-4) e(1)] by (auto simp: walk_funs create_callbacks)
next
  case (4 bs)
  then show ?case using co_body_built [OF 4(2-4) e(1)] ext_size_ok [of bs] by (auto simp: walk_funs create_callbacks)
next
  case (5 os)
  have num: "unat (of_nat (length os) :: 32 word) = length os" "(of_nat (length os) :: 32 word) = 0 \<longleftrightarrow> os = []"
    using 5(2) by (auto simp: unat_of_nat_small word_of_nat_eq_0_iff dest!: dvd_imp_le)
  note start = co_start_opens [OF 5(3-5) e(1), of 1 "lim_array (co_limit e)" "of_nat (length os)" array_size_overflow T_ARRAY V_array]
  have "outcome s1 (items_error (co_limit e) (Suc (Suc (length ps))) os) (items_need os) (built fp (ARRAY os) p ps s)
      (and_then (walk_items fp (create_object_visitor e) os (Some s1)) co_pop)"
    if o: "opened p ps T_ARRAY V_array (length os) 1 s s1" for s1
  proof -
    obtain q where q: "co_stack s1 = q # p # ps" "os = [] \<or> (\<exists>a. q = P_AT a)" "cells q (length os) \<subseteq> slots s1" "co_ok s1"
      using o by (auto simp: opened_def wrote_def)
    have "outcome s1 (items_error (co_limit e) (Suc (Suc (length ps))) os) (items_need os) (built_items fp os q (p # ps) s1)
        (walk_items fp (create_object_visitor e) os (Some s1))"
      using 5(1) [OF _ q(4,1,3,2)] 5(2) by simp
    moreover have "outcome s2 None 0 (built fp (ARRAY os) p ps s) (co_pop (Some s2))"
      if b: "built_items fp os q (p # ps) s1 s2" for s2
    proof (rule closed [OF o 5(5) q(1)])
      show "wrote s1 s2 (cells q (length os * 1))" "tl (co_stack s2) = p # ps" "co_stack s2 \<noteq> []"
        using b by (simp_all add: built_items_def)
      show "holds fp m (co_bytes s2) (ARRAY os) \<lparr>ob_type = T_ARRAY, ob_via = V_array (length os) q\<rparr>"
        if "own s1 s2 (cells q (length os * 1)) \<subseteq>\<^sub>m m" for m
        using holds_mono(2) [OF that map_le_refl] b by (simp add: built_items_def)
    qed
    ultimately have "outcome s1 (first_error (items_error (co_limit e) (Suc (Suc (length ps))) os) None) (items_need os + 0)
        (built fp (ARRAY os) p ps s) (and_then (walk_items fp (create_object_visitor e) os (Some s1)) co_pop)"
      by (rule outcome_and_then)
    then show ?thesis by simp
  qed
  from outcome_and_then [OF start [unfolded num] this] show ?case
    using 5(4) by (cases "os = []") (simp_all add: walk_funs create_callbacks num)
next
  case (6 kvs)
  have num: "unat (of_nat (length kvs) :: 32 word) = length kvs" "(of_nat (length kvs) :: 32 word) = 0 \<longleftrightarrow> kvs = []"
    using 6(2) by (auto simp: unat_of_nat_small word_of_nat_eq_0_iff dest!: dvd_imp_le)
  note start = co_start_opens [OF 6(3-5) e(1), of 2 "lim_map (co_limit e)" "of_nat (length kvs)" map_size_overflow T_MAP V_map]
  have "outcome s1 (pairs_error (co_limit e) (Suc (Suc (length ps))) kvs) (pairs_need kvs) (built fp (MAP kvs) p ps s)
      (and_then (walk_pairs fp (create_object_visitor e) kvs (Some s1)) co_pop)"
    if o: "opened p ps T_MAP V_map (length kvs) 2 s s1" for s1
  proof -
    obtain q where q: "co_stack s1 = q # p # ps" "kvs = [] \<or> (\<exists>a. q = P_AT a)" "cells q (length kvs * 2) \<subseteq> slots s1" "co_ok s1"
      using o by (auto simp: opened_def wrote_def)
    have "outcome s1 (pairs_error (co_limit e) (Suc (Suc (length ps))) kvs) (pairs_need kvs) (built_pairs fp kvs q (p # ps) s1)
        (walk_pairs fp (create_object_visitor e) kvs (Some s1))"
      using 6(1) [OF _ q(4,1,3,2)] 6(2) by simp
    moreover have "outcome s2 None 0 (built fp (MAP kvs) p ps s) (co_pop (Some s2))"
      if b: "built_pairs fp kvs q (p # ps) s1 s2" for s2
    proof (rule closed [OF o 6(5) q(1)])
      show "wrote s1 s2 (cells q (length kvs * 2))" "tl (co_stack s2) = p # ps" "co_stack s2 \<noteq> []"
        using b by (simp_all add: built_pairs_def)
      show "holds fp m (co_bytes s2) (MAP kvs) \<lparr>ob_type = T_MAP, ob_via = V_map (length kvs) q\<rparr>"
        if "own s1 s2 (cells q (length kvs * 2)) \<subseteq>\<^sub>m m" for m
        using holds_mono(3) [OF that map_le_refl] b by (simp add: built_pairs_def)
    qed
    ultimately have "outcome s1 (first_error (pairs_error (co_limit e) (Suc (Suc (length ps))) kvs) None) (pairs_need kvs + 0)
        (built fp (MAP kvs) p ps s) (and_then (walk_pairs fp (create_object_visitor e) kvs (Some s1)) co_pop)"
      by (rule outcome_and_then)
    then show ?thesis by simp
  qed
  from outcome_and_then [OF start [unfolded num] this] show ?case
    using 6(4) by (cases "kvs = []") (simp_all add: walk_funs create_callbacks num)
next
  case "7_1"
  then have "p \<noteq> P_NULL" by (auto simp: slots_def)
  then show ?case using "7_1" wrote_slot
    by (simp add: walk_funs create_callbacks outcome_def with_obj_slot built_def)
next
  case 8
  then show ?case by (auto simp: outcome_def walk_funs built_items_def wrote_refl)
next
  case (9 ob os)
  then obtain a where a: "q = P_AT a" by auto
  have X: "cells (P_AT a) (Suc (length os)) \<subseteq> slots s" using 9(6) a by simp
  have "P_AT a \<in> slots s" using X by (simp add: cells_Suc)
  then have ob: "outcome s (limit_error (co_limit e) (Suc (length ps)) ob) (mem_need ob) (built fp ob (P_AT a) ps s)
      (walk fp (create_object_visitor e) ob (Some s))"
    using 9(1) 9(3-5) a by simp
  have "outcome s1 (items_error (co_limit e) (Suc (length ps)) os) (items_need os) (built_items fp (ob # os) (P_AT a) ps s)
      (and_then (co_advance (Some s1)) (walk_items fp (create_object_visitor e) os))"
    if b: "built fp ob (P_AT a) ps s s1" for s1
  proof (rule outcome_step)
    have s1: "co_stack s1 = P_AT a # ps" "co_ok s1" "slots s \<subseteq> slots s1" using b by (auto simp: built_def wrote_def)
    then show "co_advance (Some s1) = (VTrue, Some (s1\<lparr>co_stack := P_AT (a + 24) # ps\<rparr>))" by (simp add: co_advance_moves)
    have "outcome s1 (items_error (co_limit e) (Suc (length ps)) os) (items_need os)
        (built_items fp os (P_AT (a + 24)) ps (s1\<lparr>co_stack := P_AT (a + 24) # ps\<rparr>))
        (walk_items fp (create_object_visitor e) os (Some (s1\<lparr>co_stack := P_AT (a + 24) # ps\<rparr>)))"
      using 9(2) [of "s1\<lparr>co_stack := P_AT (a + 24) # ps\<rparr>" "P_AT (a + 24)" ps] 9(3) s1 X by (auto simp: cells_Suc)
    then show "outcome s1 (items_error (co_limit e) (Suc (length ps)) os) (items_need os) (built_items fp (ob # os) (P_AT a) ps s)
        (walk_items fp (create_object_visitor e) os (Some (s1\<lparr>co_stack := P_AT (a + 24) # ps\<rparr>)))"
      by (rule outcome_mono) (rule built_items_Cons [OF b _ X])
  qed
  from outcome_and_then [OF ob this] show ?case using a by (simp add: walk_funs create_callbacks)
next
  case 10
  then show ?case by (auto simp: outcome_def walk_funs built_pairs_def wrote_refl)
next
  case (11 k x kvs)
  then obtain a where a: "q = P_AT a" by auto
  let ?V = "create_object_visitor e" and ?d = "Suc (length ps)"
  have X: "cells (P_AT a) (Suc (Suc (length kvs * 2))) \<subseteq> slots s" using 11(7) a by simp
  have ab: "P_AT a \<in> slots s" "P_AT (a + 24) \<in> slots s" "cells (P_AT (a + 48)) (length kvs * 2) \<subseteq> slots s"
    using X by (simp_all add: cells_Suc add.assoc)
  have k: "outcome s (limit_error (co_limit e) ?d k) (mem_need k) (built fp k (P_AT a) ps s) (walk fp ?V k (Some s))"
    using 11(1) 11(4-6) a ab by simp
  have "outcome s1 (first_error (limit_error (co_limit e) ?d x) (pairs_error (co_limit e) ?d kvs)) (mem_need x + pairs_need kvs)
      (built_pairs fp (KV k x # kvs) (P_AT a) ps s)
      (and_then (co_advance (Some s1)) (\<lambda>v. and_then (walk fp ?V x v) (\<lambda>v. and_then (co_advance v) (walk_pairs fp ?V kvs))))"
    if b1: "built fp k (P_AT a) ps s s1" for s1
  proof (rule outcome_step)
    let ?s1 = "s1\<lparr>co_stack := P_AT (a + 24) # ps\<rparr>"
    have s1: "co_stack s1 = P_AT a # ps" "co_ok s1" "slots s \<subseteq> slots s1" using b1 by (auto simp: built_def wrote_def)
    then show "co_advance (Some s1) = (VTrue, Some ?s1)" by (simp add: co_advance_moves)
    have x: "outcome s1 (limit_error (co_limit e) ?d x) (mem_need x) (built fp x (P_AT (a + 24)) ps ?s1) (walk fp ?V x (Some ?s1))"
      using 11(2) [of ?s1 "P_AT (a + 24)" ps] 11(4) s1 ab by auto
    have "outcome s2 (pairs_error (co_limit e) ?d kvs) (pairs_need kvs) (built_pairs fp (KV k x # kvs) (P_AT a) ps s)
        (and_then (co_advance (Some s2)) (walk_pairs fp ?V kvs))"
      if b2: "built fp x (P_AT (a + 24)) ps ?s1 s2" for s2
    proof (rule outcome_step)
      let ?s2 = "s2\<lparr>co_stack := P_AT (a + 48) # ps\<rparr>"
      have s2: "co_stack s2 = P_AT (a + 24) # ps" "co_ok s2" "slots s1 \<subseteq> slots s2" using b2 by (auto simp: built_def wrote_def)
      then show "co_advance (Some s2) = (VTrue, Some ?s2)" by (simp add: co_advance_moves add.assoc)
      have "outcome s2 (pairs_error (co_limit e) ?d kvs) (pairs_need kvs) (built_pairs fp kvs (P_AT (a + 48)) ps ?s2)
          (walk_pairs fp ?V kvs (Some ?s2))"
        using 11(3) [of ?s2 "P_AT (a + 48)" ps] 11(4) s1 s2 ab by auto
      then show "outcome s2 (pairs_error (co_limit e) ?d kvs) (pairs_need kvs) (built_pairs fp (KV k x # kvs) (P_AT a) ps s)
          (walk_pairs fp ?V kvs (Some ?s2))"
        by (rule outcome_mono) (rule built_pairs_Cons [OF b1 b2 _ X])
    qed
    from outcome_and_then [OF x this] show "outcome s1 (first_error (limit_error (co_limit e) ?d x) (pairs_error (co_limit e) ?d kvs))
        (mem_need x + pairs_need kvs) (built_pairs fp (KV k x # kvs) (P_AT a) ps s)
        (and_then (walk fp ?V x (Some ?s1)) (\<lambda>v. and_then (co_advance v) (walk_pairs fp ?V kvs)))" .
  qed
  from outcome_and_then [OF k this] show ?case using a by (simp add: walk_funs create_callbacks)
qed (auto simp: walk_funs create_callbacks e intro!: co_value_built)

end

end
