(* ===== verification/Mp_Protocol.thy ===== *)
theory Mp_Protocol
  imports Mp_Parse
begin

text \<open>
  The order in which the parser makes the callbacks of a visitor, as an interface: a relation between
  the stack of open containers and the states of two visitors, the second of which always answers true.
  If the callbacks keep the relation, the parser keeps it on every input, up to the callback that stops
  the first visitor. With a second visitor that does nothing the relation is an invariant; with one that
  remembers why the first stopped it carries the results on valid documents over to visitors that stop.
\<close>

subsection \<open>Callbacks\<close>

datatype vcall =
    C_nil | C_boolean bool | C_positive "64 word" | C_negative "64 word" | C_float32 "32 word" | C_float64 "64 word"
  | C_str "byte list" | C_bin "byte list" | C_ext "byte list"
  | C_start_array "32 word" | C_start_array_item | C_end_array_item | C_end_array
  | C_start_map "32 word" | C_start_map_key | C_end_map_key | C_start_map_value | C_end_map_value | C_end_map

fun call :: "'v visitor \<Rightarrow> vcall \<Rightarrow> 'v \<Rightarrow> vres \<times> 'v" where
  "call V C_nil = visit_nil V"
| "call V (C_boolean b) = visit_boolean V b"
| "call V (C_positive u) = visit_positive_integer V u"
| "call V (C_negative i) = visit_negative_integer V i"
| "call V (C_float32 f) = visit_float32 V f"
| "call V (C_float64 d) = visit_float64 V d"
| "call V (C_str bs) = visit_str V bs"
| "call V (C_bin bs) = visit_bin V bs"
| "call V (C_ext bs) = visit_ext V bs"
| "call V (C_start_array n) = start_array V n"
| "call V C_start_array_item = start_array_item V"
| "call V C_end_array_item = end_array_item V"
| "call V C_end_array = end_array V"
| "call V (C_start_map n) = start_map V n"
| "call V C_start_map_key = start_map_key V"
| "call V C_end_map_key = end_map_key V"
| "call V C_start_map_value = start_map_value V"
| "call V C_end_map_value = end_map_value V"
| "call V C_end_map = end_map V"

text \<open>The callbacks of a value without parts; a size has 32 bits.\<close>

definition is_scalar :: "vcall \<Rightarrow> bool" where
  "is_scalar k \<longleftrightarrow>
     (case k of C_nil \<Rightarrow> True | C_boolean _ \<Rightarrow> True | C_positive _ \<Rightarrow> True | C_negative _ \<Rightarrow> True | C_float32 _ \<Rightarrow> True
      | C_float64 _ \<Rightarrow> True | C_str bs \<Rightarrow> length bs < 2 ^ 32 | C_bin bs \<Rightarrow> length bs < 2 ^ 32 | C_ext bs \<Rightarrow> length bs < 2 ^ 32
      | _ \<Rightarrow> False)"

text \<open>A value may come next: every open container has elements left.\<close>

definition slot :: "unpack_stack \<Rightarrow> bool" where
  "slot st \<longleftrightarrow> list_all (\<lambda>(ct, n). n \<noteq> 0) st"

subsection \<open>Two visitors side by side\<close>

definition follows :: "(vres \<Rightarrow> 'v \<Rightarrow> 'w \<Rightarrow> bool) \<Rightarrow> ('v \<Rightarrow> 'w \<Rightarrow> bool) \<Rightarrow> vres \<times> 'v \<Rightarrow> vres \<times> 'w \<Rightarrow> bool" where
  "follows D R rv rw \<longleftrightarrow>
     fst rw = VTrue \<and> (if fst rv = VTrue then R (snd rv) (snd rw) else D (fst rv) (snd rv) (snd rw))"

definition retype :: "'w \<Rightarrow> 'v mp_context \<Rightarrow> 'w mp_context" where
  "retype w c = \<lparr>m_trail = m_trail c, m_cs = m_cs c, m_stack = m_stack c, m_current = m_current c, m_visitor = w\<rparr>"

lemma retype_simps [simp]:
  "m_trail (retype w c) = m_trail c" "m_cs (retype w c) = m_cs c" "m_stack (retype w c) = m_stack c"
  "m_current (retype w c) = m_current c" "m_visitor (retype w c) = w"
  "(retype w c)\<lparr>m_trail := t\<rparr> = retype w (c\<lparr>m_trail := t\<rparr>)" "(retype w c)\<lparr>m_cs := x\<rparr> = retype w (c\<lparr>m_cs := x\<rparr>)"
  "(retype w c)\<lparr>m_stack := st\<rparr> = retype w (c\<lparr>m_stack := st\<rparr>)" "(retype w c)\<lparr>m_current := n\<rparr> = retype w (c\<lparr>m_current := n\<rparr>)"
  "(retype w c)\<lparr>m_visitor := w'\<rparr> = retype w' c" "retype w (c\<lparr>m_visitor := v\<rparr>) = retype w c"
  by (simp_all add: retype_def)

lemma retype_retype [simp]: "retype w (retype v c) = retype w c" "retype (m_visitor c) c = c"
  by (simp_all add: retype_def)

text \<open>What a turn of the loop does, for two visitors at once.\<close>

inductive acts :: "'v visitor \<Rightarrow> 'w visitor \<Rightarrow> 'w \<Rightarrow> 'v mp_context \<Rightarrow> 'v exec_step \<Rightarrow> 'w exec_step \<Rightarrow> bool"
  for V :: "'v visitor" and V' :: "'w visitor" and w :: 'w where
  quiet: "ret \<in> {None, Some PARSE_CONTINUE} \<Longrightarrow> acts V V' w c (ret, again, c) (ret, again, retype w c)"
| scalar: "is_scalar k \<Longrightarrow> acts V V' w c (visited V (call V k (m_visitor c)) c) (visited V' (call V' k w) (retype w c))"
| array: "acts V V' w c (go_on (start_array_agg V n c)) (go_on (start_array_agg V' n (retype w c)))"
| map: "acts V V' w c (go_on (start_map_agg V n c)) (go_on (start_map_agg V' n (retype w c)))"
| fail: "acts V V' w c (fail_parse V p c) (fail_parse V' p (retype w c))"

definition acts2 :: "'v visitor \<Rightarrow> 'w visitor \<Rightarrow> 'w \<Rightarrow> 'v mp_context \<Rightarrow> 'v exec_step option \<Rightarrow> 'w exec_step option \<Rightarrow> bool" where
  "acts2 V V' w c os os' \<longleftrightarrow>
     os = None \<and> os' = None \<or>
     (\<exists>c1 s s'. m_stack c1 = m_stack c \<and> m_visitor c1 = m_visitor c \<and> os = Some s \<and> os' = Some s' \<and> acts V V' w c1 s s')"

lemma acts2_intros:
  assumes "m_stack c1 = m_stack c" "m_visitor c1 = m_visitor c"
  shows "acts2 V V' w c None None"
    "ret \<in> {None, Some PARSE_CONTINUE} \<Longrightarrow> acts2 V V' w c (Some (ret, again, c1)) (Some (ret, again, retype w c1))"
    "is_scalar k \<Longrightarrow> rv = call V k (m_visitor c) \<Longrightarrow> rw = call V' k w \<Longrightarrow> acts2 V V' w c (Some (visited V rv c1)) (Some (visited V' rw (retype w c1)))"
    "acts2 V V' w c (Some (go_on (start_array_agg V n c1))) (Some (go_on (start_array_agg V' n (retype w c1))))"
    "acts2 V V' w c (Some (go_on (start_map_agg V n c1))) (Some (go_on (start_map_agg V' n (retype w c1))))"
    "acts2 V V' w c (Some (fail_parse V p c1)) (Some (fail_parse V' p (retype w c1)))"
  using assms acts.intros [where c = c1 and V = V and V' = V' and w = w] unfolding acts2_def by (blast, blast, metis, blast+)

lemma acts2_bind:
  assumes "\<And>x. m = Some x \<Longrightarrow> acts2 V V' w c (F x) (F' x)"
  shows "acts2 V V' w c (m \<bind> F) (m \<bind> F')"
  using assms by (cases m) (auto simp: acts2_def)

lemma acts2_if: "(b \<Longrightarrow> acts2 V V' w c x x') \<Longrightarrow> (\<not> b \<Longrightarrow> acts2 V V' w c y y') \<Longrightarrow>
    acts2 V V' w c (if b then x else y) (if b then x' else y')"
  by simp

lemma scalar_acts:
  "m_stack c1 = m_stack c \<Longrightarrow> m_visitor c1 = m_visitor c \<Longrightarrow> is_scalar k \<Longrightarrow>
     acts2 V V' w c (Some (visited V (call V k (m_visitor c)) c1)) (Some (visited V' (call V' k w) (retype w c1)))"
  by (rule acts2_intros(3)) simp_all

lemmas scalar_calls = scalar_acts [where k = C_nil, unfolded is_scalar_def, simplified] scalar_acts [where k = "C_boolean b" for b, unfolded is_scalar_def, simplified]
  scalar_acts [where k = "C_positive u" for u, unfolded is_scalar_def, simplified] scalar_acts [where k = "C_negative i" for i, unfolded is_scalar_def, simplified]
  scalar_acts [where k = "C_float32 f" for f, unfolded is_scalar_def, simplified] scalar_acts [where k = "C_float64 d" for d, unfolded is_scalar_def, simplified]
  scalar_acts [where k = "C_str bs" for bs, unfolded is_scalar_def, simplified] scalar_acts [where k = "C_bin bs" for bs, unfolded is_scalar_def, simplified]
  scalar_acts [where k = "C_ext bs" for bs, unfolded is_scalar_def, simplified]

lemmas acts_rules = acts2_bind acts2_if scalar_calls acts2_intros(2,4-6)

lemma exec_header_acts: "acts2 V V' w c (exec_header V data c) (exec_header V' data (retype w c))"
  unfolding exec_header_def Let_def retype_simps mp_context.simps
  by (intro acts_rules; simp add: scalar_calls)

lemma exec_number_acts: "acts2 V V' w c (exec_number V data n c) (exec_number V' data n (retype w c))"
  unfolding exec_number_def Let_def retype_simps
  by (intro acts_rules; simp add: scalar_calls)

lemma mem_range_length: "mem_range data n (num mod 4294967296) = Some bs \<Longrightarrow> length bs < 4294967296"
  by (auto simp: mem_range_def split: if_splits)

lemma visit_bytes_acts:
  assumes "m_stack c1 = m_stack c" "m_visitor c1 = m_visitor c"
  shows "acts2 V V' w c (visit_bytes V (visit_str V) data n num c1) (visit_bytes V' (visit_str V') data n num (retype w c1))"
    "acts2 V V' w c (visit_bytes V (visit_bin V) data n num c1) (visit_bytes V' (visit_bin V') data n num (retype w c1))"
    "acts2 V V' w c (visit_bytes V (visit_ext V) data n num c1) (visit_bytes V' (visit_ext V') data n num (retype w c1))"
  using assms unfolding visit_bytes_def retype_simps by (intro acts_rules; simp add: mem_range_length)+

lemmas bytes_acts = acts_rules visit_bytes_acts

lemma expect_body_acts:
  assumes "m_stack c1 = m_stack c" "m_visitor c1 = m_visitor c"
  shows "acts2 V V' w c (expect_body V (visit_str V) acs data n t c1) (expect_body V' (visit_str V') acs data n t (retype w c1))"
    "acts2 V V' w c (expect_body V (visit_bin V) acs data n t c1) (expect_body V' (visit_bin V') acs data n t (retype w c1))"
    "acts2 V V' w c (expect_body V (visit_ext V) acs data n t c1) (expect_body V' (visit_ext V') acs data n t (retype w c1))"
  using assms unfolding expect_body_def Let_def retype_simps mp_context.simps by (intro bytes_acts; simp)+

lemma exec_switch_acts: "acts2 V V' w c (exec_switch V data n c) (exec_switch V' data n (retype w c))"
  unfolding exec_switch_def exec_fixext_def exec_length_def exec_body_def exec_aggregate_def retype_simps
  by (intro bytes_acts expect_body_acts exec_number_acts; simp)

lemma exec_trail_acts: "acts2 V V' w c (exec_trail V data pe again c) (exec_trail V' data pe again (retype w c))"
proof -
  have up: "acts2 V V' w c os os'" if "acts2 V V' w c1 os os'" "m_stack c1 = m_stack c" "m_visitor c1 = m_visitor c" for c1 os os'
    using that by (simp add: acts2_def)
  define c1 where "c1 = (if again then c\<lparr>m_current := m_current c + 1\<rparr> else c)"
  have c1: "m_stack c1 = m_stack c" "m_visitor c1 = m_visitor c" "(if again then (retype w c)\<lparr>m_current := m_current (retype w c) + 1\<rparr> else retype w c) = retype w c1"
    by (simp_all add: c1_def)
  let ?c2 = "c1\<lparr>m_current := m_current c1 + m_trail c1 - 1\<rparr>"
  have "acts2 V V' w c (exec_switch V data n ?c2) (exec_switch V' data n (retype w ?c2))" for n
    using up [OF exec_switch_acts] c1 by simp
  then show ?thesis
    using acts2_intros(2) [OF c1(1,2), of "Some PARSE_CONTINUE" V V' w False]
    unfolding exec_trail_def c1(3) c1_def [symmetric] Let_def by simp
qed

lemma acts2_up: "acts2 V V' w c1 os os' \<Longrightarrow> m_stack c1 = m_stack c \<Longrightarrow> m_visitor c1 = m_visitor c \<Longrightarrow> acts2 V V' w c os os'"
  by (simp add: acts2_def)

lemma acts_consumed:
  assumes "acts V V' w c s s'"
  shows "(\<exists>ret again. ret \<in> {None, Some PARSE_CONTINUE} \<and> s = (ret, again, c) \<and> s' = (ret, again, retype w c)) \<or>
     consumed c s \<and> consumed (retype w c) s'"
  using assms by cases (auto intro: visited_consumed agg_consumed fail_parse_consumed)

lemma iter_consumed:
  assumes "m_cs c = MSGPACK_CS_HEADER" and "exec_header V data c = Some s" and "consumed c1 s"
  shows "exec_iter V data pe again c = Some s"
  using assms by (cases s; cases "fst s") (auto simp: exec_iter_def consumed_def)

lemma exec_iter_acts: "acts2 V V' w c (exec_iter V data pe again c) (exec_iter V' data pe again (retype w c))"
proof (cases "m_cs c = MSGPACK_CS_HEADER")
  case False
  then show ?thesis using exec_trail_acts [of V V' w c data pe again] by (simp add: exec_iter_def)
next
  case True
  note cs = this
  show ?thesis
  proof (cases "exec_header V data c")
    case None
    then show ?thesis using exec_header_acts [of V V' w c data] cs by (auto simp: acts2_def exec_iter_def)
  next
    case (Some s)
    then obtain c1 s' where h: "m_stack c1 = m_stack c" "m_visitor c1 = m_visitor c" "exec_header V' data (retype w c) = Some s'"
        "acts V V' w c1 s s'"
      using exec_header_acts [of V V' w c data] by (auto simp: acts2_def)
    from acts_consumed [OF h(4)] show ?thesis
    proof (elim disjE exE conjE)
      fix ret ag
      assume q: "ret \<in> {None, Some PARSE_CONTINUE}" "s = (ret, ag, c1)" "s' = (ret, ag, retype w c1)"
      show ?thesis
      proof (cases "ret = None \<and> (m_cs c1 \<noteq> MSGPACK_CS_HEADER \<or> ag)")
        case True
        then show ?thesis
          using Some h q cs acts2_up [OF exec_trail_acts h(1,2), of V V' w data pe ag] by (simp add: exec_iter_def)
      next
        case False
        then show ?thesis using Some h q cs acts2_intros(2) [OF h(1,2) q(1), of V V' w ag] by (auto simp: exec_iter_def)
      qed
    next
      assume con: "consumed c1 s" "consumed (retype w c1) s'"
      have "exec_iter V data pe again c = Some s" by (rule iter_consumed [OF cs Some con(1)])
      moreover have "exec_iter V' data pe again (retype w c) = Some s'" by (rule iter_consumed [OF _ h(3) con(2)]) (simp add: cs)
      ultimately show ?thesis using h by (auto simp: acts2_def)
    qed
  qed
qed

lemma visited_stopped:
  assumes "stack_consume V (m_stack c) v1 = (ret_of q, st1, v2)" and "q \<noteq> VTrue"
  shows "\<exists>c1. visited V (VTrue, v1) c = (Some (ret_of q), False, c1) \<and> m_visitor c1 = v2"
  using assms by (cases q) (simp_all add: visited_def after_visit_proc_def go_on_def ret_of_def)

lemma visited_visitor:
  assumes "stack_consume V (m_stack c) v1 = (ret, st1, v2)"
  shows "m_visitor (snd (snd (visited V (VTrue, v1) c))) = v2"
  using assms by (cases ret) (simp_all add: visited_def after_visit_proc_def go_on_def)

text \<open>Computation induction on the loop, for one visitor.\<close>

lemma loop_induct:
  assumes "exec_loop W data pe again c = Some (r, c1)"
    and "\<And>again c ret again' c' r c1. exec_iter W data pe again c = Some (ret, again', c') \<Longrightarrow>
      (case ret of Some p \<Rightarrow> r = p \<and> c1 = c'
       | None \<Rightarrow> if m_current c' = pe then r = PARSE_CONTINUE \<and> c1 = c'
                else exec_loop W data pe again' c' = Some (r, c1) \<and> P again' c' r c1) \<Longrightarrow> P again c r c1"
  shows "P again c r c1"
proof -
  have "\<forall>r c1. res = (r, c1) \<longrightarrow> U = W \<longrightarrow> dat = data \<longrightarrow> p = pe \<longrightarrow> exec_loop U dat p ag d = Some res \<and> P ag d r c1"
    if e: "exec_loop U dat p ag d = Some res" for U dat p ag d res
  proof (rule exec_loop.raw_induct [where P = "\<lambda>U dat p ag d res. \<forall>r c1. res = (r, c1) \<longrightarrow> U = W \<longrightarrow> dat = data \<longrightarrow> p = pe \<longrightarrow>
      exec_loop U dat p ag d = Some res \<and> P ag d r c1", OF _ e])
    fix loop U dat p ag d res
    assume IH: "\<And>U dat p ag d res. loop U dat p ag d = Some res \<Longrightarrow> \<forall>r c1. res = (r, c1) \<longrightarrow> U = W \<longrightarrow> dat = data \<longrightarrow> p = pe \<longrightarrow>
        exec_loop U dat p ag d = Some res \<and> P ag d r c1"
      and body: "exec_iter U dat p ag d \<bind> (\<lambda>(ret, again, c). case ret of
          None \<Rightarrow> if m_current c \<noteq> p then loop U dat p again c else Some (PARSE_CONTINUE, c) | Some r \<Rightarrow> Some (r, c)) = Some res"
    show "\<forall>r c1. res = (r, c1) \<longrightarrow> U = W \<longrightarrow> dat = data \<longrightarrow> p = pe \<longrightarrow> exec_loop U dat p ag d = Some res \<and> P ag d r c1"
    proof (intro allI impI)
      fix r c1 assume a: "res = (r, c1)" "U = W" "dat = data" "p = pe"
      obtain ret again' c' where it: "exec_iter W data pe ag d = Some (ret, again', c')"
        using body a by (cases "exec_iter W data pe ag d") auto
      show "exec_loop U dat p ag d = Some res \<and> P ag d r c1"
      proof (cases ret)
        case (Some q)
        then show ?thesis using body it a assms(2) [OF it, of r c1] by (subst exec_loop.simps) auto
      next
        case None
        show ?thesis
        proof (cases "m_current c' = pe")
          case True
          then show ?thesis using None body it a assms(2) [OF it, of r c1] by (subst exec_loop.simps) auto
        next
          case False
          then have "loop U dat p again' c' = Some res" using None body it a by simp
          from IH [OF this] have "exec_loop W data pe again' c' = Some res \<and> P again' c' r c1" using a by blast
          then show ?thesis using False None it a assms(2) [OF it, of r c1] by (subst exec_loop.simps) auto
        qed
      qed
    qed
  qed
  with assms(1) show ?thesis by blast
qed

subsection \<open>The interface\<close>

definition error_ret :: "mp_exn option \<Rightarrow> parse_return" where
  "error_ret x = (case x of None \<Rightarrow> PARSE_PARSE_ERROR | Some x \<Rightarrow> THROWN x)"

locale visitor_protocol =
  fixes V :: "'v visitor" and V' :: "'w visitor"
    and R :: "unpack_stack \<Rightarrow> 'v \<Rightarrow> 'w \<Rightarrow> bool" and D :: "vres \<Rightarrow> 'v \<Rightarrow> 'w \<Rightarrow> bool" and S :: "parse_return \<Rightarrow> 'v \<Rightarrow> bool"
  assumes value_call: "R st v w \<Longrightarrow> slot st \<Longrightarrow> is_scalar k \<Longrightarrow> follows D (R st) (call V k v) (call V' k w)"
    and array_call: "R st v w \<Longrightarrow> slot st \<Longrightarrow> follows D (R ((MSGPACK_CT_ARRAY_ITEM, n) # st)) (start_array V n v) (start_array V' n w)"
    and item_call: "R ((MSGPACK_CT_ARRAY_ITEM, n) # st) v w \<Longrightarrow> n \<noteq> 0 \<Longrightarrow>
        follows D (R ((MSGPACK_CT_ARRAY_ITEM, n) # st)) (start_array_item V v) (start_array_item V' w)"
    and end_item_call: "R ((MSGPACK_CT_ARRAY_ITEM, n) # st) v w \<Longrightarrow> n \<noteq> 0 \<Longrightarrow>
        follows D (R ((MSGPACK_CT_ARRAY_ITEM, n - 1) # st)) (end_array_item V v) (end_array_item V' w)"
    and end_array_call: "R ((MSGPACK_CT_ARRAY_ITEM, 0) # st) v w \<Longrightarrow> follows D (R st) (end_array V v) (end_array V' w)"
    and map_call: "R st v w \<Longrightarrow> slot st \<Longrightarrow> follows D (R ((MSGPACK_CT_MAP_KEY, n) # st)) (start_map V n v) (start_map V' n w)"
    and key_call: "R ((MSGPACK_CT_MAP_KEY, n) # st) v w \<Longrightarrow> n \<noteq> 0 \<Longrightarrow>
        follows D (R ((MSGPACK_CT_MAP_KEY, n) # st)) (start_map_key V v) (start_map_key V' w)"
    and end_key_call: "R ((MSGPACK_CT_MAP_KEY, n) # st) v w \<Longrightarrow> n \<noteq> 0 \<Longrightarrow>
        follows D (R ((MSGPACK_CT_MAP_VALUE, n) # st)) (end_map_key V v) (end_map_key V' w)"
    and map_value_call: "R ((MSGPACK_CT_MAP_VALUE, n) # st) v w \<Longrightarrow> n \<noteq> 0 \<Longrightarrow>
        follows D (R ((MSGPACK_CT_MAP_VALUE, n) # st)) (start_map_value V v) (start_map_value V' w)"
    and end_value_call: "R ((MSGPACK_CT_MAP_VALUE, n) # st) v w \<Longrightarrow> n \<noteq> 0 \<Longrightarrow>
        follows D (R ((MSGPACK_CT_MAP_KEY, n - 1) # st)) (end_map_value V v) (end_map_value V' w)"
    and end_map_call: "R ((MSGPACK_CT_MAP_KEY, 0) # st) v w \<Longrightarrow> follows D (R st) (end_map V v) (end_map V' w)"
    and stopped_call: "D r v w \<Longrightarrow> call V' k w = rw \<Longrightarrow> fst rw = VTrue \<and> D r v (snd rw)"
    and stopped_error: "D r v w \<Longrightarrow> D r v (snd (parse_error V' i j w))"
    and error_call: "R st v w \<Longrightarrow> S (error_ret (fst (parse_error V i j v))) (snd (parse_error V i j v))"

context visitor_protocol
begin

lemma stopped_calls:
  assumes "D r v w"
  shows "visit_nil V' w = (q, w') \<Longrightarrow> q = VTrue \<and> D r v w'" "start_array V' n w = (q, w') \<Longrightarrow> q = VTrue \<and> D r v w'"
    "start_array_item V' w = (q, w') \<Longrightarrow> q = VTrue \<and> D r v w'" "end_array_item V' w = (q, w') \<Longrightarrow> q = VTrue \<and> D r v w'"
    "end_array V' w = (q, w') \<Longrightarrow> q = VTrue \<and> D r v w'" "start_map V' n w = (q, w') \<Longrightarrow> q = VTrue \<and> D r v w'"
    "start_map_key V' w = (q, w') \<Longrightarrow> q = VTrue \<and> D r v w'" "end_map_key V' w = (q, w') \<Longrightarrow> q = VTrue \<and> D r v w'"
    "start_map_value V' w = (q, w') \<Longrightarrow> q = VTrue \<and> D r v w'" "end_map_value V' w = (q, w') \<Longrightarrow> q = VTrue \<and> D r v w'"
    "end_map V' w = (q, w') \<Longrightarrow> q = VTrue \<and> D r v w'"
  using stopped_call [OF assms, of C_nil] stopped_call [OF assms, of "C_start_array n"] stopped_call [OF assms, of C_start_array_item]
    stopped_call [OF assms, of C_end_array_item] stopped_call [OF assms, of C_end_array] stopped_call [OF assms, of "C_start_map n"]
    stopped_call [OF assms, of C_start_map_key] stopped_call [OF assms, of C_end_map_key] stopped_call [OF assms, of C_start_map_value]
    stopped_call [OF assms, of C_end_map_value] stopped_call [OF assms, of C_end_map]
  by simp_all

lemma stopped_consume: "D r v w \<Longrightarrow> stack_consume V' st w = (ret, st', w') \<Longrightarrow> D r v w'"
proof (induction st arbitrary: w)
  case (Cons e st)
  then show ?case
    by (cases e; cases "fst e") (auto simp: Let_def split: prod.splits if_splits dest: stopped_calls)
qed simp

lemma stopped_consume': "D r v w \<Longrightarrow> D r v (snd (snd (stack_consume V' st w)))"
  using stopped_consume by (cases "stack_consume V' st w") auto

text \<open>Where the two parsers are after a part of the run: side by side, or the first has stopped.\<close>

definition in_step :: "'v exec_step \<Rightarrow> 'w exec_step \<Rightarrow> bool" where
  "in_step x y \<longleftrightarrow>
     (case (x, y) of ((ret, again, c), (ret', again', c')) \<Rightarrow>
        ret = ret' \<and> again = again' \<and> ret \<in> {None, Some PARSE_CONTINUE, Some PARSE_SUCCESS} \<and> c' = retype (m_visitor c') c \<and>
          R (m_stack c) (m_visitor c) (m_visitor c') \<and> slot (m_stack c) \<and> (ret = Some PARSE_SUCCESS \<longrightarrow> m_stack c = []) \<or>
        (\<exists>q. q \<noteq> VTrue \<and> ret = Some (ret_of q) \<and> D q (m_visitor c) (m_visitor c')) \<or>
        (\<exists>p p'. ret = Some p \<and> ret' = Some p' \<and> p \<notin> {PARSE_CONTINUE, PARSE_SUCCESS} \<and> p' \<notin> {PARSE_CONTINUE, PARSE_SUCCESS} \<and>
          S p (m_visitor c)))"

lemma followsE:
  assumes "follows D Q rv rw"
  obtains v w where "rv = (VTrue, v)" "rw = (VTrue, w)" "Q v w"
  | r v w where "r \<noteq> VTrue" "rv = (r, v)" "rw = (VTrue, w)" "D r v w"
  using assms by (cases rv; cases rw) (auto simp: follows_def split: if_splits)

text \<open>A value is complete.\<close>

definition consumes :: "parse_return \<times> unpack_stack \<times> 'v \<Rightarrow> parse_return \<times> unpack_stack \<times> 'w \<Rightarrow> bool" where
  "consumes x y \<longleftrightarrow>
     (case (x, y) of ((ret, st, v), (ret', st', w)) \<Rightarrow>
        ret = ret' \<and> st = st' \<and> R st v w \<and> slot st \<and> (ret = PARSE_CONTINUE \<or> ret = PARSE_SUCCESS \<and> st = []) \<or>
        (\<exists>q. q \<noteq> VTrue \<and> ret = ret_of q \<and> D q v w))"

lemma stack_consume_consumes:
  "R st v w \<Longrightarrow> slot st \<Longrightarrow> consumes (stack_consume V st v) (stack_consume V' st w)"
proof (induction st arbitrary: v w)
  case Nil
  then show ?case by (simp add: consumes_def)
next
  case (Cons e st)
  obtain ct n where e: "e = (ct, n)" by force
  have n: "n \<noteq> 0" "slot st" using Cons.prems(2) by (simp_all add: e slot_def)
  note r = Cons.prems(1)[unfolded e]
  have stop: "consumes (ret_of q, st1, v1) y" if "q \<noteq> VTrue" "D q v1 w1" "D q v1 w1 \<Longrightarrow> D q v1 (snd (snd y))" for q st1 v1 w1 y
    using that by (cases y) (auto simp: consumes_def)
  have goes: "consumes (PARSE_CONTINUE, (ct', m) # st, v1) (PARSE_CONTINUE, (ct', m) # st, w1)"
    if "R ((ct', m) # st) v1 w1" "m \<noteq> 0" for ct' m v1 w1
    using that n by (simp add: consumes_def slot_def)
  note stopped = stopped_calls stopped_consume
  show ?case
  proof (cases ct)
    case MSGPACK_CT_ARRAY_ITEM
    note r = r[unfolded MSGPACK_CT_ARRAY_ITEM]
    show ?thesis unfolding e MSGPACK_CT_ARRAY_ITEM
    proof (cases rule: followsE [OF end_item_call [OF r n(1)]])
      case (1 v1 w1)
      show "consumes (stack_consume V ((MSGPACK_CT_ARRAY_ITEM, n) # st) v) (stack_consume V' ((MSGPACK_CT_ARRAY_ITEM, n) # st) w)"
      proof (cases "n - 1 = 0")
        case True
        show ?thesis
          by (cases rule: followsE [OF end_array_call [OF 1(3)[unfolded True]]])
            (use 1 True Cons.IH n(2) in \<open>auto intro!: stop dest: stopped intro: stopped_consume' split: prod.splits\<close>)
      next
        case False
        show ?thesis
          by (cases rule: followsE [OF item_call [OF 1(3) False]])
            (use 1 False in \<open>auto simp: ret_of_def [of VTrue] intro!: stop goes\<close>)
      qed
    next
      case (2 q v1 w1)
      then show "consumes (stack_consume V ((MSGPACK_CT_ARRAY_ITEM, n) # st) v) (stack_consume V' ((MSGPACK_CT_ARRAY_ITEM, n) # st) w)"
        by (auto intro!: stop dest: stopped intro: stopped_consume' split: prod.splits)
    qed
  next
    case MSGPACK_CT_MAP_KEY
    note r = r[unfolded MSGPACK_CT_MAP_KEY]
    show ?thesis unfolding e MSGPACK_CT_MAP_KEY
    proof (cases rule: followsE [OF end_key_call [OF r n(1)]])
      case (1 v1 w1)
      show "consumes (stack_consume V ((MSGPACK_CT_MAP_KEY, n) # st) v) (stack_consume V' ((MSGPACK_CT_MAP_KEY, n) # st) w)"
        by (cases rule: followsE [OF map_value_call [OF 1(3) n(1)]])
          (use 1 n(1) in \<open>auto intro!: stop goes\<close>)
    next
      case (2 q v1 w1)
      then show "consumes (stack_consume V ((MSGPACK_CT_MAP_KEY, n) # st) v) (stack_consume V' ((MSGPACK_CT_MAP_KEY, n) # st) w)"
        by (auto intro!: stop dest: stopped intro: stopped_consume' split: prod.splits)
    qed
  next
    case MSGPACK_CT_MAP_VALUE
    note r = r[unfolded MSGPACK_CT_MAP_VALUE]
    show ?thesis unfolding e MSGPACK_CT_MAP_VALUE
    proof (cases rule: followsE [OF end_value_call [OF r n(1)]])
      case (1 v1 w1)
      show "consumes (stack_consume V ((MSGPACK_CT_MAP_VALUE, n) # st) v) (stack_consume V' ((MSGPACK_CT_MAP_VALUE, n) # st) w)"
      proof (cases "n - 1 = 0")
        case True
        show ?thesis
          by (cases rule: followsE [OF end_map_call [OF 1(3)[unfolded True]]])
            (use 1 True Cons.IH n(2) in \<open>auto intro!: stop dest: stopped intro: stopped_consume' split: prod.splits\<close>)
      next
        case False
        show ?thesis
          by (cases rule: followsE [OF key_call [OF 1(3) False]])
            (use 1 False in \<open>auto simp: ret_of_def [of VTrue] intro!: stop goes\<close>)
      qed
    next
      case (2 q v1 w1)
      then show "consumes (stack_consume V ((MSGPACK_CT_MAP_VALUE, n) # st) v) (stack_consume V' ((MSGPACK_CT_MAP_VALUE, n) # st) w)"
        by (auto intro!: stop dest: stopped intro: stopped_consume' split: prod.splits)
    qed
  qed
qed

lemma consumesE:
  assumes "consumes (stack_consume V st v) (stack_consume V' st w)"
  obtains ret st1 v1 w1 where "stack_consume V st v = (ret, st1, v1)" "stack_consume V' st w = (ret, st1, w1)"
      "R st1 v1 w1" "slot st1" "ret = PARSE_CONTINUE \<or> ret = PARSE_SUCCESS \<and> st1 = []"
  | q st1 v1 ret' st' w1 where "stack_consume V st v = (ret_of q, st1, v1)" "stack_consume V' st w = (ret', st', w1)"
      "q \<noteq> VTrue" "D q v1 w1"
  using assms by (cases "stack_consume V st v"; cases "stack_consume V' st w") (auto simp: consumes_def)

lemma in_step_stopped:
  assumes "q \<noteq> VTrue" and "D q v w" and "m_visitor c = v" and "m_visitor (snd (snd y)) = w"
  shows "in_step (Some (ret_of q), again, c) y"
  using assms by (cases y) (auto simp: in_step_def)

lemma in_step_alive:
  assumes "R (m_stack c) (m_visitor c) w" and "slot (m_stack c)"
    and "ret = None \<or> ret = Some PARSE_CONTINUE \<or> ret = Some PARSE_SUCCESS \<and> m_stack c = []"
  shows "in_step (ret, again, c) (ret, again, retype w c)"
  using assms by (auto simp: in_step_def)

lemma visited_in_step:
  assumes "R (m_stack c) (m_visitor c) w" and "slot (m_stack c)" and "is_scalar k"
  shows "in_step (visited V (call V k (m_visitor c)) c) (visited V' (call V' k w) (retype w c))"
proof (cases rule: followsE [OF value_call [OF assms]])
  case (1 v1 w1)
  show ?thesis
  proof (cases rule: consumesE [OF stack_consume_consumes [OF 1(3) assms(2)]])
    case (1 ret st1 v2 w2)
    let ?c = "c\<lparr>m_visitor := v2, m_current := m_current c + 1, m_stack := st1, m_cs := MSGPACK_CS_HEADER\<rparr>"
    have "in_step (if ret = PARSE_CONTINUE then None else Some ret, False, ?c)
        (if ret = PARSE_CONTINUE then None else Some ret, False, retype w2 ?c)"
      using 1(3-5) by (intro in_step_alive) auto
    then show ?thesis using 1 \<open>call V k _ = _\<close> \<open>call V' k _ = _\<close>
      by (cases c) (auto simp: visited_def after_visit_proc_def go_on_def retype_def)
  next
    case (2 q st1 v2 ret' st' w2)
    then obtain c1 where "visited V (call V k (m_visitor c)) c = (Some (ret_of q), False, c1)" "m_visitor c1 = v2"
      using visited_stopped [of V c v1 q st1 v2] \<open>call V k _ = _\<close> by auto
    moreover have "m_visitor (snd (snd (visited V' (call V' k w) (retype w c)))) = w2"
      using visited_visitor [of V' "retype w c" w1 ret' st' w2] 2 \<open>call V' k _ = _\<close> by simp
    ultimately show ?thesis by (auto intro: in_step_stopped [OF 2(3,4)])
  qed
next
  case (2 q v1 w1)
  obtain ret' st' w2 where c': "stack_consume V' (m_stack c) w1 = (ret', st', w2)" by (metis prod_cases3)
  have d: "D q v1 w2" using stopped_consume [OF 2(4) c'] .
  have "\<exists>c1. visited V (call V k (m_visitor c)) c = (Some (ret_of q), False, c1) \<and> m_visitor c1 = v1"
    using 2(1,2) by (cases q) (simp_all add: visited_def after_visit_proc_def go_on_def ret_of_def)
  moreover have "m_visitor (snd (snd (visited V' (call V' k w) (retype w c)))) = w2"
    using visited_visitor [of V' "retype w c" w1 ret' st' w2] 2(3) c' by simp
  ultimately show ?thesis by (auto intro: in_step_stopped [OF 2(1) d])
qed

lemma fail_in_step:
  assumes "R (m_stack c) (m_visitor c) w"
  shows "in_step (fail_parse V p c) (fail_parse V' p (retype w c))"
  using error_call [OF assms, of "pred_size p" p]
  by (auto simp: in_step_def fail_parse_def error_ret_def split: option.splits prod.splits)

lemma stopped_aggregate:
  assumes "D q v w1" and "sw num w = (VTrue, w1)"
    and stopped: "\<And>q v w q' w'. D q v w \<Longrightarrow> ew w = (q', w') \<Longrightarrow> q' = VTrue \<and> D q v w'"
      "\<And>q v w q' w'. D q v w \<Longrightarrow> pw w = (q', w') \<Longrightarrow> q' = VTrue \<and> D q v w'"
    and push: "\<And>w. stack_push V' ct num (m_stack c) w = (ret_of (fst (pw w)), (ct, num) # m_stack c, snd (pw w))"
  shows "D q v (m_visitor (snd (start_aggregate V' sw ew ct num (retype w c))))"
proof (cases "num = 0")
  case True
  obtain w2 where "ew w1 = (VTrue, w2)" "D q v w2" using stopped(1) [OF assms(1)] by (metis surj_pair)
  then show ?thesis using assms(2) True stopped_consume' [of q v w2 "m_stack c"]
    by (auto simp: start_aggregate_def Let_def split: prod.splits)
next
  case False
  obtain w2 where "pw w1 = (VTrue, w2)" "D q v w2" using stopped(2) [OF assms(1)] by (metis surj_pair)
  then show ?thesis using assms(2) False push [of w1]
    by (auto simp: start_aggregate_def Let_def)
qed

text \<open>The two kinds of containers share the steps of \<open>start_aggregate\<close>.\<close>

lemma aggregate_in_step:
  assumes open_call: "follows D (R ((ct, num) # m_stack c)) (sv num (m_visitor c)) (sw num w)"
    and close_call: "\<And>v w. num = 0 \<Longrightarrow> R ((ct, num) # m_stack c) v w \<Longrightarrow> follows D (R (m_stack c)) (ev v) (ew w)"
    and push: "\<And>v w. num \<noteq> 0 \<Longrightarrow> R ((ct, num) # m_stack c) v w \<Longrightarrow>
        follows D (R ((ct, num) # m_stack c)) (pv v) (pw w)"
    and pushes: "\<And>v. stack_push V ct num (m_stack c) v = (ret_of (fst (pv v)), (ct, num) # m_stack c, snd (pv v))"
      "\<And>w. stack_push V' ct num (m_stack c) w = (ret_of (fst (pw w)), (ct, num) # m_stack c, snd (pw w))"
    and stopped: "\<And>q v w q' w'. D q v w \<Longrightarrow> ew w = (q', w') \<Longrightarrow> q' = VTrue \<and> D q v w'"
      "\<And>q v w q' w'. D q v w \<Longrightarrow> pw w = (q', w') \<Longrightarrow> q' = VTrue \<and> D q v w'"
    and "slot (m_stack c)"
  shows "in_step (go_on (start_aggregate V sv ev ct num c)) (go_on (start_aggregate V' sw ew ct num (retype w c)))"
proof -
  have stop: "in_step (go_on (ret_of q, c1)) (go_on (ret', c2))" if "q \<noteq> VTrue" "D q (m_visitor c1) (m_visitor c2)" for q c1 ret' c2
    using that in_step_stopped [OF that(1)] by (auto simp: go_on_def)
  show ?thesis
  proof (cases rule: followsE [OF open_call])
    case (1 v1 w1)
    show ?thesis
    proof (cases "num = 0")
      case True
      show ?thesis
      proof (cases rule: followsE [OF close_call [OF True 1(3)]])
        case (1 v2 w2)
        then have close: "ev v1 = (VTrue, v2)" "ew w1 = (VTrue, w2)" "R (m_stack c) v2 w2" by simp_all
        show ?thesis
        proof (cases rule: consumesE [OF stack_consume_consumes [OF close(3) assms(8)]])
          case (1 ret st1 v3 w3)
          let ?c = "c\<lparr>m_current := m_current c + 1, m_visitor := v3, m_stack := st1,
            m_cs := (if ret = PARSE_CONTINUE then MSGPACK_CS_HEADER else m_cs c)\<rparr>"
          have "in_step (if ret = PARSE_CONTINUE then None else Some ret, False, ?c)
              (if ret = PARSE_CONTINUE then None else Some ret, False, retype w3 ?c)"
            using 1(3-5) by (intro in_step_alive) auto
          then show ?thesis using 1 close True \<open>sv num _ = _\<close> \<open>sw num _ = _\<close>
            by (cases c) (auto simp: start_aggregate_def go_on_def retype_def)
        next
          case (2 q st1 v3 ret' st' w3)
          then show ?thesis using close True \<open>sv num _ = _\<close> \<open>sw num _ = _\<close>
            by (auto simp: start_aggregate_def Let_def intro!: stop)
        qed
      next
        case (2 q v2 w2)
        then show ?thesis using True \<open>sv num _ = _\<close> \<open>sw num _ = _\<close>
          by (auto simp: start_aggregate_def Let_def intro!: stop intro: stopped_consume split: prod.splits)
      qed
    next
      case False
      show ?thesis
      proof (cases rule: followsE [OF push [OF False 1(3)]])
        case (1 v2 w2)
        let ?c = "c\<lparr>m_current := m_current c + 1, m_visitor := v2, m_stack := (ct, num) # m_stack c, m_cs := MSGPACK_CS_HEADER\<rparr>"
        have "in_step (None, False, ?c) (None, False, retype w2 ?c)"
          using 1(3) False assms(8) by (intro in_step_alive) (auto simp: slot_def)
        then show ?thesis using 1 False pushes \<open>sv num _ = _\<close> \<open>sw num _ = _\<close>
          by (cases c) (auto simp: start_aggregate_def go_on_def retype_def)
      next
        case (2 q v2 w2)
        then show ?thesis using False pushes \<open>sv num _ = _\<close> \<open>sw num _ = _\<close>
          by (auto simp: start_aggregate_def Let_def intro!: stop)
      qed
    qed
  next
    case (2 q v1 w1)
    have "D q v1 (m_visitor (snd (start_aggregate V' sw ew ct num (retype w c))))"
      by (rule stopped_aggregate [where sw = sw and ew = ew and pw = pw and w = w and ct = ct, OF 2(4,3) stopped pushes(2)])
    then have "in_step (go_on (ret_of q, c\<lparr>m_current := m_current c + 1, m_visitor := v1\<rparr>))
        (go_on (start_aggregate V' sw ew ct num (retype w c)))"
      by (cases "start_aggregate V' sw ew ct num (retype w c)") (auto intro!: stop 2(1))
    then show ?thesis using 2(1,2) by (simp add: start_aggregate_def)
  qed
qed

lemma push_array: "stack_push V0 MSGPACK_CT_ARRAY_ITEM n st v =
    (ret_of (fst (start_array_item V0 v)), (MSGPACK_CT_ARRAY_ITEM, n) # st, snd (start_array_item V0 v))"
  by (simp split: prod.split)

lemma push_map: "stack_push V0 MSGPACK_CT_MAP_KEY n st v =
    (ret_of (fst (start_map_key V0 v)), (MSGPACK_CT_MAP_KEY, n) # st, snd (start_map_key V0 v))"
  by (simp split: prod.split)

lemma acts_in_step:
  assumes "acts V V' w c s s'" and "R (m_stack c) (m_visitor c) w" and "slot (m_stack c)"
  shows "in_step s s'"
  using assms(1)
proof cases
  case quiet
  then show ?thesis using assms(2,3) by (auto intro: in_step_alive)
next
  case scalar
  then show ?thesis using visited_in_step [OF assms(2,3)] by simp
next
  case (array n)
  show ?thesis unfolding array start_array_agg_def
    by (rule aggregate_in_step [where sv = "start_array V" and sw = "start_array V'" and ev = "end_array V" and ew = "end_array V'" and pv = "start_array_item V" and
        pw = "start_array_item V'" and ct = MSGPACK_CT_ARRAY_ITEM, OF array_call [OF assms(2,3)] _ _ push_array push_array _ _ assms(3)])
      (auto intro: end_array_call item_call dest: stopped_calls)
next
  case (map n)
  show ?thesis unfolding map start_map_agg_def
    by (rule aggregate_in_step [where sv = "start_map V" and sw = "start_map V'" and ev = "end_map V" and ew = "end_map V'" and pv = "start_map_key V" and
        pw = "start_map_key V'" and ct = MSGPACK_CT_MAP_KEY, OF map_call [OF assms(2,3)] _ _ push_map push_map _ _ assms(3)])
      (auto intro: end_map_call key_call dest: stopped_calls)
next
  case fail
  then show ?thesis using fail_in_step [OF assms(2)] by simp
qed

lemma acts_stopped:
  assumes "acts V V' w c s s'" and "D q v w"
  shows "D q v (m_visitor (snd (snd s')))"
  using assms(1)
proof cases
  case (scalar k)
  obtain w1 where w1: "call V' k w = (VTrue, w1)" "D q v w1" using stopped_call [OF assms(2) refl, of k] by (metis prod.collapse)
  obtain ret st w2 where "stack_consume V' (m_stack c) w1 = (ret, st, w2)" by (metis prod_cases3)
  then show ?thesis using scalar w1 visited_visitor [of V' "retype w c" w1 ret st w2] stopped_consume [OF w1(2)] by simp
next
  case (array n)
  obtain w1 where w1: "start_array V' n w = (VTrue, w1)" "D q v w1" using stopped_calls(2) [OF assms(2)] by (metis surj_pair)
  have "D q v (m_visitor (snd (start_array_agg V' n (retype w c))))" unfolding start_array_agg_def
    by (rule stopped_aggregate [where sw = "start_array V'" and ew = "end_array V'" and pw = "start_array_item V'" and w = w and ct = MSGPACK_CT_ARRAY_ITEM, OF w1(2,1) _ _ push_array])
      (auto dest: stopped_calls)
  then show ?thesis unfolding array by (auto simp: go_on_def split: prod.splits)
next
  case (map n)
  obtain w1 where w1: "start_map V' n w = (VTrue, w1)" "D q v w1" using stopped_calls(6) [OF assms(2)] by (metis surj_pair)
  have "D q v (m_visitor (snd (start_map_agg V' n (retype w c))))" unfolding start_map_agg_def
    by (rule stopped_aggregate [where sw = "start_map V'" and ew = "end_map V'" and pw = "start_map_key V'" and w = w and ct = MSGPACK_CT_MAP_KEY, OF w1(2,1) _ _ push_map])
      (auto dest: stopped_calls)
  then show ?thesis unfolding map by (auto simp: go_on_def split: prod.splits)
next
  case (fail p)
  then show ?thesis using stopped_error [OF assms(2), of "pred_size p" p]
    by (auto simp: fail_parse_def split: prod.splits option.splits)
qed (use assms(2) in simp)

text \<open>The loop.\<close>

lemma iter_in_step:
  assumes "R (m_stack c) (m_visitor c) w" and "slot (m_stack c)"
    and "exec_iter V data pe again c = Some s" and "exec_iter V' data pe again (retype w c) = Some s'"
  shows "in_step s s'"
proof -
  obtain c1 where "m_stack c1 = m_stack c" "m_visitor c1 = m_visitor c" "acts V V' w c1 s s'"
    using exec_iter_acts [of V V' w c data pe again] assms(3,4) by (auto simp: acts2_def)
  with assms(1,2) show ?thesis by (simp add: acts_in_step)
qed

lemma iter_stopped:
  assumes "D q v (m_visitor c)" and "exec_iter V' data pe again c = Some s"
  shows "D q v (m_visitor (snd (snd s)))"
proof -
  have "acts2 V V' (m_visitor c) (retype v c) (exec_iter V data pe again (retype v c)) (Some s)"
    using exec_iter_acts [of V V' "m_visitor c" "retype v c" data pe again] assms(2) by simp
  then obtain c1 s0 where "acts V V' (m_visitor c) c1 s0 s" by (auto simp: acts2_def)
  from acts_stopped [OF this assms(1)] show ?thesis .
qed

lemma loop_stopped:
  assumes "exec_loop V' data pe again c = Some (r, c1)" and "D q v (m_visitor c)"
  shows "D q v (m_visitor c1)"
  using assms(2)
proof (induction rule: loop_induct [OF assms(1)])
  case (1 again c ret again' c' r c1)
  have "D q v (m_visitor c')" using iter_stopped [OF 1(3,1)] by simp
  then show ?case using 1(2) by (auto split: option.splits if_splits)
qed

lemma loop_in_step:
  assumes "exec_loop V data pe again c = Some (r, c1)" and "exec_loop V' data pe again (retype w c) = Some (r', c1')"
    and "R (m_stack c) (m_visitor c) w" and "slot (m_stack c)"
  shows "in_step (Some r, False, c1) (Some r', False, c1')"
  using assms(2-4)
proof (induction arbitrary: w rule: loop_induct [OF assms(1)])
  case (1 again c ret again1 c2 r c1 w)
  obtain ret' again2 c2' where i': "exec_iter V' data pe again (retype w c) = Some (ret', again2, c2')"
    using 1(3) by (subst (asm) exec_loop.simps) (cases "exec_iter V' data pe again (retype w c)", auto)
  have step: "in_step (ret, again1, c2) (ret', again2, c2')" by (rule iter_in_step [OF 1(4,5,1) i'])
  have cont: "case ret' of Some p \<Rightarrow> r' = p \<and> c1' = c2'
       | None \<Rightarrow> if m_current c2' = pe then r' = PARSE_CONTINUE \<and> c1' = c2'
                else exec_loop V' data pe again2 c2' = Some (r', c1')"
    using 1(3) i' by (subst (asm) exec_loop.simps) (auto split: option.splits if_splits)
  have dead: "D q v (m_visitor c1')" if "D q v (m_visitor c2')" for q v
    using cont that loop_stopped by (auto split: option.splits if_splits)
  consider w' where "ret = ret'" "again1 = again2" "c2' = retype w' c2" "R (m_stack c2) (m_visitor c2) w'" "slot (m_stack c2)"
      "ret = None \<or> ret = Some PARSE_CONTINUE \<or> ret = Some PARSE_SUCCESS \<and> m_stack c2 = []"
    | q where "q \<noteq> VTrue" "ret = Some (ret_of q)" "D q (m_visitor c2) (m_visitor c2')"
    | p p' where "ret = Some p" "ret' = Some p'" "in_step (Some p, again1, c2) (Some p', again2, c2')" "p \<notin> {PARSE_CONTINUE, PARSE_SUCCESS}"
        "p' \<notin> {PARSE_CONTINUE, PARSE_SUCCESS}" "S p (m_visitor c2)"
    using step unfolding in_step_def by fastforce
  then show ?case
  proof cases
    case (1 w')
    show ?thesis
    proof (cases ret)
      case None
      show ?thesis
      proof (cases "m_current c2 = pe")
        case True
        then show ?thesis using 1 None cont \<open>case ret of None \<Rightarrow> _ | Some p \<Rightarrow> _ p\<close>
          by (auto intro: in_step_alive)
      next
        case False
        then show ?thesis using 1 None cont \<open>case ret of None \<Rightarrow> _ | Some p \<Rightarrow> _ p\<close> by simp
      qed
    next
      case (Some p)
      then show ?thesis using 1 cont \<open>case ret of None \<Rightarrow> _ | Some p \<Rightarrow> _ p\<close>
        by (auto intro: in_step_alive)
    qed
  next
    case (2 q)
    then show ?thesis using dead [OF 2(3)] \<open>case ret of None \<Rightarrow> _ | Some p \<Rightarrow> _ p\<close>
      by (auto intro: in_step_stopped)
  next
    case (3 p p')
    then show ?thesis using cont \<open>case ret of None \<Rightarrow> _ | Some p \<Rightarrow> _ p\<close> by (auto simp: in_step_def)
  qed
qed

text \<open>A run of the parser from an offset: the first visitor has stopped, has failed, or the relation holds.\<close>

lemma execute_in_step:
  assumes "off \<le> len" and "len \<le> length data" and "ctx_ok c" and "R (m_stack c) (m_visitor c) w" and "slot (m_stack c)"
  obtains r c1 r' c1' where "execute V data len off c = Some (r, c1)" "execute V' data len off (retype w c) = Some (r', c1')"
    "in_step (Some r, False, c1) (Some r', False, c1')"
proof -
  have "ctx_ok (retype w c)" using assms(3) by (simp add: ctx_ok_def)
  with execute_total [OF assms(1,2), of "retype w c" V'] execute_total [OF assms(1,2,3), of V]
  obtain r c1 r' c1' where e: "execute V data len off c = Some (r, c1)" "execute V' data len off (retype w c) = Some (r', c1')"
    by blast
  have "in_step (Some r, False, c1) (Some r', False, c1')"
  proof (cases "off = len")
    case True
    then show ?thesis using e assms(4,5) in_step_alive [of "c\<lparr>m_current := off\<rparr>" w "Some PARSE_CONTINUE" False]
      by (auto simp: execute_def)
  next
    case False
    then show ?thesis using e loop_in_step [of data len False "c\<lparr>m_current := off\<rparr>" r c1 w r' c1'] assms(4,5)
      by (simp add: execute_def)
  qed
  with e that show ?thesis by blast
qed

end

end
