(* ===== verification/Mp_Stops.thy ===== *)
theory Mp_Stops
  imports Mp_Protocol Mp_Documents Mp_Object
begin

text \<open>
  Visitors that stop: a callback that answers false, or throws, in the middle of a document. The results
  on documents that a visitor accepts carry over through a visitor that remembers the stop and goes on.
\<close>

subsection \<open>A visitor that remembers the stop\<close>

definition recalled :: "vres \<times> 'v \<Rightarrow> vres \<times> ('v + vres \<times> 'v)" where
  "recalled rv = (VTrue, if fst rv = VTrue then Inl (snd rv) else Inr rv)"

definition recall :: "('v \<Rightarrow> vres \<times> 'v) \<Rightarrow> 'v + vres \<times> 'v \<Rightarrow> vres \<times> ('v + vres \<times> 'v)" where
  "recall f w = (case w of Inl v \<Rightarrow> recalled (f v) | Inr rv \<Rightarrow> (VTrue, Inr rv))"

definition recorder :: "'v visitor \<Rightarrow> ('v + vres \<times> 'v) visitor" where
  "recorder V = null_visitor
     \<lparr>visit_nil := recall (visit_nil V), visit_boolean := \<lambda>b. recall (visit_boolean V b),
      visit_positive_integer := \<lambda>u. recall (visit_positive_integer V u),
      visit_negative_integer := \<lambda>i. recall (visit_negative_integer V i),
      visit_float32 := \<lambda>f. recall (visit_float32 V f), visit_float64 := \<lambda>d. recall (visit_float64 V d),
      visit_str := \<lambda>bs. recall (visit_str V bs), visit_bin := \<lambda>bs. recall (visit_bin V bs),
      visit_ext := \<lambda>bs. recall (visit_ext V bs),
      start_array := \<lambda>n. recall (start_array V n), start_array_item := recall (start_array_item V),
      end_array_item := recall (end_array_item V), end_array := recall (end_array V),
      start_map := \<lambda>n. recall (start_map V n), start_map_key := recall (start_map_key V),
      end_map_key := recall (end_map_key V), start_map_value := recall (start_map_value V),
      end_map_value := recall (end_map_value V), end_map := recall (end_map V)\<rparr>"

lemma recorder_simps [simp]:
  "visit_nil (recorder V) = recall (visit_nil V)" "visit_boolean (recorder V) b = recall (visit_boolean V b)"
  "visit_positive_integer (recorder V) u = recall (visit_positive_integer V u)"
  "visit_negative_integer (recorder V) i = recall (visit_negative_integer V i)"
  "visit_float32 (recorder V) f = recall (visit_float32 V f)" "visit_float64 (recorder V) d = recall (visit_float64 V d)"
  "visit_str (recorder V) bs = recall (visit_str V bs)" "visit_bin (recorder V) bs = recall (visit_bin V bs)"
  "visit_ext (recorder V) bs = recall (visit_ext V bs)"
  "start_array (recorder V) n = recall (start_array V n)" "start_array_item (recorder V) = recall (start_array_item V)"
  "end_array_item (recorder V) = recall (end_array_item V)" "end_array (recorder V) = recall (end_array V)"
  "start_map (recorder V) n = recall (start_map V n)" "start_map_key (recorder V) = recall (start_map_key V)"
  "end_map_key (recorder V) = recall (end_map_key V)" "start_map_value (recorder V) = recall (start_map_value V)"
  "end_map_value (recorder V) = recall (end_map_value V)" "end_map (recorder V) = recall (end_map V)"
  "parse_error (recorder V) p q w = (None, w)"
  by (simp_all add: recorder_def null_visitor_def)

lemma call_recorder: "call (recorder V) k = recall (call V k)"
  by (cases k) simp_all

lemma recall_follows:
  "w = Inl v \<Longrightarrow> follows (\<lambda>r v w. w = Inr (r, v)) (\<lambda>v w. w = Inl v) (f v) (recall f w)"
  by (auto simp: follows_def recall_def recalled_def)

lemma recall_Inr [simp]: "recall f (Inr rv) = (VTrue, Inr rv)"
  by (simp add: recall_def)

interpretation recorded: visitor_protocol V "recorder V" "\<lambda>st v w. w = Inl v" "\<lambda>r v w. w = Inr (r, v)" "\<lambda>_ _. True"
  for V :: "'v visitor"
  by unfold_locales (auto intro: recall_follows simp: call_recorder)

subsection \<open>Documents that stop the visitor\<close>

lemma recall_and_then: "and_then (recall f w) (recall g) = recall (\<lambda>v. and_then (f v) g) w"
  by (cases w) (auto simp: recall_def recalled_def and_then_def split: prod.splits)

lemma recall_True: "Pair VTrue = recall (Pair VTrue)"
  by (simp add: fun_eq_iff recall_def recalled_def split: sum.split)

lemma walk_recorder:
  "walk fp (recorder V) ob = recall (walk fp V ob)"
  "walk_items fp (recorder V) os = recall (walk_items fp V os)"
  "walk_pairs fp (recorder V) kvs = recall (walk_pairs fp V kvs)"
  by (induction ob and os and kvs rule: mobj_ok_mobjs_ok_pairs_ok.induct)
    (simp_all add: walk_funs recall_and_then recall_True)

lemma document_stops:
  assumes "mobj_ok ob" and "walk fp V ob v = (r, v1)" and "r \<noteq> VTrue"
  shows "parse_imp V (pre @ enc_value fp ob @ post) (length (pre @ enc_value fp ob @ post)) (length pre) v =
     Some (ret_of r, length pre, v1)"
proof -
  let ?data = "pre @ enc_value fp ob @ post"
  have "visit_obj fp (recorder V) ob (Inl v) = Some (Inr (r, v1))"
    using assms(2,3) by (simp add: visit_obj_walk walk_recorder recall_def recalled_def)
  from execute_document [OF assms(1), of "context_new (Inl v)" ?data "length pre" fp "length ?data" "recorder V" "Inr (r, v1)"] this
  obtain c' where e: "execute (recorder V) ?data (length ?data) (length pre) (context_new (Inl v)) = Some (PARSE_SUCCESS, c')"
      "m_visitor c' = Inr (r, v1)"
    by (auto simp: context_new_def at_bytes_whole)
  have ret: "retype (Inl v) (context_new v) = context_new (Inl v)" by (simp add: context_new_def retype_def)
  obtain r0 c0 r1 c1 where e0: "execute V ?data (length ?data) (length pre) (context_new v) = Some (r0, c0)"
      "execute (recorder V) ?data (length ?data) (length pre) (retype (Inl v) (context_new v)) = Some (r1, c1)"
      "recorded.in_step (Some r0, False, c0) (Some r1, False, c1)"
    by (rule recorded.execute_in_step [of "length pre" "length ?data" ?data "context_new v" "Inl v" V])
      (simp_all add: context_new_def ctx_ok_def slot_def)
  then have "r1 = PARSE_SUCCESS" "c1 = c'" using e(1) unfolding ret by simp_all
  then have "r0 = ret_of r" "m_visitor c0 = v1"
    using e(2) e0(3) by (auto simp: recorded.in_step_def)
  then show ?thesis using e0(1) assms(3) enc_value_nonempty [of fp ob]
    by (cases r) (simp_all add: parse_imp_def ret_of_def)
qed

end
