(* ===== verification/Mp_Unpack.thy ===== *)
theory Mp_Unpack
  imports Mp_Create Mp_Stops
begin

text \<open>
  Unpacking into objects (\<^verbatim>\<open>msgpack-c/include/msgpack/v2/unpack.hpp\<close>): the parser drives the visitor that
  builds an object in a zone. On the packed bytes of a value the value is in memory afterwards, or the
  exception of the first limit that is exceeded is thrown; on any bytes at all no memory is touched
  that was not allocated for an object.
\<close>

subsection \<open>\<^verbatim>\<open>unpack_imp\<close> and \<^verbatim>\<open>unpack\<close>\<close>

text \<open>The object and the flag are those of the visitor, unless an exception was thrown.\<close>

definition unpack_imp :: "'z co_env \<Rightarrow> byte list \<Rightarrow> nat \<Rightarrow> nat \<Rightarrow> 'z \<Rightarrow> (nat \<rightharpoonup> mem_obj) \<Rightarrow> (nat \<rightharpoonup> byte) \<Rightarrow>
    (parse_return \<times> nat \<times> 'z co_state) option" where
  "unpack_imp e data len off z m b = do {
     (ret, off, st) \<leftarrow> parse_imp (create_object_visitor e) data len off (Some (create_object_visitor_new z m b));
     s \<leftarrow> st;
     Some (ret, off, s) }"

text \<open>\<^verbatim>\<open>object_handle\<close>, with the memory of its zone.\<close>

record 'f object_handle =
  oh_obj :: mem_obj
  oh_zone :: "'f zone option"
  oh_mem :: "nat \<rightharpoonup> mem_obj"
  oh_bytes :: "nat \<rightharpoonup> byte"

definition object_handle_new :: "'f object_handle" where
  "object_handle_new = \<lparr>oh_obj = object_new, oh_zone = None, oh_mem = Map.empty, oh_bytes = Map.empty\<rparr>"

definition handle_of :: "'f zone co_state \<Rightarrow> 'f object_handle" where
  "handle_of s = \<lparr>oh_obj = co_obj s, oh_zone = Some (co_zone s), oh_mem = co_mem s, oh_bytes = co_bytes s\<rparr>"

abbreviation (input) MSGPACK_ZONE_CHUNK_SIZE :: nat where "MSGPACK_ZONE_CHUNK_SIZE \<equiv> 8192"
abbreviation (input) sizeof_zone :: nat where "sizeof_zone \<equiv> 56"

text \<open>\<^verbatim>\<open>new msgpack::zone\<close>; \<^const>\<open>None\<close> when the constructor ends the program.\<close>

definition new_zone :: "allocator \<Rightarrow> nat \<Rightarrow> (mp_exn + 'f zone) option" where
  "new_zone al calls =
     (case al calls sizeof_zone of
        None \<Rightarrow> Some (Inl bad_alloc)
      | Some _ \<Rightarrow> map_option Inr (zone_new al (calls + 1) MSGPACK_ZONE_CHUNK_SIZE))"

definition unpack_env :: "allocator \<Rightarrow> fpu \<Rightarrow> reference_func \<Rightarrow> unpack_limit \<Rightarrow> 'f zone co_env" where
  "unpack_env al fp f limit = \<lparr>co_func = f, co_limit = limit, co_alloc = allocate_align al, co_fpu = fp\<rparr>"

text \<open>The handle, the offset and the flag \<^verbatim>\<open>referenced\<close>, or the exception.\<close>

definition unpack :: "allocator \<Rightarrow> nat \<Rightarrow> fpu \<Rightarrow> byte list \<Rightarrow> nat \<Rightarrow> nat \<Rightarrow> reference_func \<Rightarrow> unpack_limit \<Rightarrow>
    (mp_exn + 'f object_handle \<times> nat \<times> bool) option" where
  "unpack al calls fp data len off f limit = do {
     r \<leftarrow> new_zone al calls;
     case r of
       Inl x \<Rightarrow> Some (Inl x)
     | Inr z \<Rightarrow> do {
         (ret, noff, s) \<leftarrow> unpack_imp (unpack_env al fp f limit) data len off z Map.empty Map.empty;
         Some (case ret of
             PARSE_SUCCESS \<Rightarrow> Inr (handle_of s, noff, co_referenced s)
           | PARSE_EXTRA_BYTES \<Rightarrow> Inr (handle_of s, noff, co_referenced s)
           | THROWN x \<Rightarrow> Inl x
           | _ \<Rightarrow> Inr (object_handle_new, off, co_referenced s)) } }"

definition unpack_off :: "allocator \<Rightarrow> nat \<Rightarrow> fpu \<Rightarrow> byte list \<Rightarrow> nat \<Rightarrow> nat \<Rightarrow> reference_func \<Rightarrow> unpack_limit \<Rightarrow>
    (mp_exn + 'f object_handle \<times> nat) option" where
  "unpack_off al calls fp data len off f limit =
     map_option (map_sum id (\<lambda>(h, off, referenced). (h, off))) (unpack al calls fp data len off f limit)"

definition unpack_referenced :: "allocator \<Rightarrow> nat \<Rightarrow> fpu \<Rightarrow> byte list \<Rightarrow> nat \<Rightarrow> reference_func \<Rightarrow> unpack_limit \<Rightarrow>
    (mp_exn + 'f object_handle \<times> bool) option" where
  "unpack_referenced al calls fp data len f limit =
     map_option (map_sum id (\<lambda>(h, off, referenced). (h, referenced))) (unpack al calls fp data len 0 f limit)"

definition unpack_simple :: "allocator \<Rightarrow> nat \<Rightarrow> fpu \<Rightarrow> byte list \<Rightarrow> nat \<Rightarrow> reference_func \<Rightarrow> unpack_limit \<Rightarrow>
    (mp_exn + 'f object_handle) option" where
  "unpack_simple al calls fp data len f limit =
     map_option (map_sum id (\<lambda>(h, off, referenced). h)) (unpack al calls fp data len 0 f limit)"

text \<open>The overload that sets a handle; without an object it leaves the handle as it is.\<close>

definition unpack_into :: "'f object_handle \<Rightarrow> allocator \<Rightarrow> nat \<Rightarrow> fpu \<Rightarrow> byte list \<Rightarrow> nat \<Rightarrow> nat \<Rightarrow> reference_func \<Rightarrow> unpack_limit \<Rightarrow>
    (mp_exn + 'f object_handle \<times> nat \<times> bool) option" where
  "unpack_into result al calls fp data len off f limit = do {
     r \<leftarrow> new_zone al calls;
     case r of
       Inl x \<Rightarrow> Some (Inl x)
     | Inr z \<Rightarrow> do {
         (ret, noff, s) \<leftarrow> unpack_imp (unpack_env al fp f limit) data len off z Map.empty Map.empty;
         Some (case ret of
             PARSE_SUCCESS \<Rightarrow> Inr (handle_of s, noff, co_referenced s)
           | PARSE_EXTRA_BYTES \<Rightarrow> Inr (handle_of s, noff, co_referenced s)
           | THROWN x \<Rightarrow> Inl x
           | _ \<Rightarrow> Inr (result, off, co_referenced s)) } }"

text \<open>The overload with a zone of the caller: the object, the offset and the flag or the exception, and the
  zone with its memory.\<close>

definition unpack_in_zone :: "allocator \<Rightarrow> 'f zone \<Rightarrow> (nat \<rightharpoonup> mem_obj) \<Rightarrow> (nat \<rightharpoonup> byte) \<Rightarrow> fpu \<Rightarrow> byte list \<Rightarrow> nat \<Rightarrow> nat \<Rightarrow>
    reference_func \<Rightarrow> unpack_limit \<Rightarrow>
    ((mp_exn + mem_obj \<times> nat \<times> bool) \<times> 'f zone \<times> (nat \<rightharpoonup> mem_obj) \<times> (nat \<rightharpoonup> byte)) option" where
  "unpack_in_zone al z m b fp data len off f limit = do {
     (ret, noff, s) \<leftarrow> unpack_imp (unpack_env al fp f limit) data len off z m b;
     Some (case ret of
         PARSE_SUCCESS \<Rightarrow> Inr (co_obj s, noff, co_referenced s)
       | PARSE_EXTRA_BYTES \<Rightarrow> Inr (co_obj s, noff, co_referenced s)
       | THROWN x \<Rightarrow> Inl x
       | _ \<Rightarrow> Inr (co_obj s, off, co_referenced s), co_zone s, co_mem s, co_bytes s) }"

subsection \<open>Unpacking what was packed\<close>

lemma own_co_mem: "own s s' W \<subseteq>\<^sub>m co_mem s'"
  by (auto simp: own_def map_le_def restrict_map_def split: if_splits)

context arena
begin

lemma new_visitor_ok:
  assumes "ok z" and "dom m \<subseteq> used z" and "dom b \<subseteq> used z"
  shows "co_ok (create_object_visitor_new z m b)" and "P_OBJ \<in> slots (create_object_visitor_new z m b)"
  using assms by (simp_all add: co_ok_def create_object_visitor_new_def slots_def)

lemma built_root:
  assumes "built fp ob P_OBJ [] (create_object_visitor_new z m b) s"
  shows "co_ok s \<and> holds fp (co_mem s) (co_bytes s) ob (co_obj s) \<and> m \<subseteq>\<^sub>m co_mem s \<and> b \<subseteq>\<^sub>m co_bytes s"
proof -
  let ?s0 = "create_object_visitor_new z m b"
  have w: "wrote ?s0 s {P_OBJ}" and h: "holds fp (own ?s0 s {P_OBJ}) (co_bytes s) ob (co_obj s)"
    using assms by (auto simp: built_def obj_at_def)
  have "co_mem s a = Some c" if a: "m a = Some c" for a c
  proof -
    have "P_AT a \<in> slots ?s0 - {P_OBJ}" using a by (auto simp: slots_def create_object_visitor_new_def)
    then have "obj_at s (P_AT a) = obj_at ?s0 (P_AT a)" using w by (auto simp: wrote_def)
    then show ?thesis using a by (simp add: obj_at_def create_object_visitor_new_def)
  qed
  then have "m \<subseteq>\<^sub>m co_mem s" by (auto simp: map_le_def dom_def)
  moreover have "co_ok s" "b \<subseteq>\<^sub>m co_bytes s" using w by (simp_all add: wrote_def create_object_visitor_new_def)
  ultimately show ?thesis using holds_mono(1) [OF own_co_mem map_le_refl h] by simp
qed

lemma unpack_imp_document:
  assumes "co_alloc e = alloc" and "co_fpu e = fp" and "mobj_ok ob"
    and "ok z" and "dom m \<subseteq> used z" and "dom b \<subseteq> used z"
  shows "\<exists>ret off s. unpack_imp e (pre @ enc_value fp ob @ post) (length (pre @ enc_value fp ob @ post)) (length pre) z m b =
       Some (ret, off, s) \<and> co_ok s \<and>
     (ret = (if post = [] then PARSE_SUCCESS else PARSE_EXTRA_BYTES) \<and> off = length (pre @ enc_value fp ob) \<and>
        limit_error (co_limit e) 1 ob = None \<and> holds fp (co_mem s) (co_bytes s) ob (co_obj s) \<and>
        m \<subseteq>\<^sub>m co_mem s \<and> b \<subseteq>\<^sub>m co_bytes s \<or>
      (\<exists>x. ret = THROWN x \<and> off = length pre \<and>
        (limit_error (co_limit e) 1 ob = Some x \<or> x = bad_alloc \<and> room z < mem_need ob)))"
proof -
  let ?s0 = "create_object_visitor_new z m b" and ?V = "create_object_visitor e"
  have s0: "co_stack ?s0 = [P_OBJ]" "co_zone ?s0 = z" by (simp_all add: create_object_visitor_new_def)
  obtain r st where w: "walk fp ?V ob (Some ?s0) = (r, st)" by force
  have out: "outcome ?s0 (limit_error (co_limit e) 1 ob) (mem_need ob) (built fp ob P_OBJ [] ?s0) (r, st)"
    using walk_builds(1) [OF assms(1,2,3) new_visitor_ok(1) [OF assms(4-6)] s0(1) new_visitor_ok(2) [OF assms(4-6)]] w by simp
  show ?thesis
  proof (cases r)
    case VTrue
    then obtain s where s: "st = Some s" "limit_error (co_limit e) 1 ob = None" "built fp ob P_OBJ [] ?s0 s"
      using out by (auto simp: outcome_def)
    have "visit_obj fp ?V ob (Some ?s0) = Some (Some s)" using w VTrue s(1) by (simp add: visit_obj_walk)
    from parse_document [OF assms(3) this, of pre post] show ?thesis
      using s(2) built_root [OF s(3)] by (simp add: unpack_imp_def)
  next
    case (VThrow x)
    then obtain s where s: "st = Some s" "co_ok s" "limit_error (co_limit e) 1 ob = Some x \<or> x = bad_alloc \<and> room z < mem_need ob"
      using out s0(2) by (auto simp: outcome_def)
    from document_stops [OF assms(3) w, of pre post] show ?thesis
      using VThrow s by (simp add: unpack_imp_def ret_of_def)
  qed (use out in \<open>simp add: outcome_def\<close>)
qed

end

subsection \<open>Any input\<close>

text \<open>The objects that are still to be written through the pointer to an open container.\<close>

fun left :: "container_type \<Rightarrow> 32 word \<Rightarrow> nat" where
  "left MSGPACK_CT_ARRAY_ITEM n = unat n"
| "left MSGPACK_CT_MAP_KEY n = unat n * 2"
| "left MSGPACK_CT_MAP_VALUE n = unat n * 2 - 1"

context arena
begin

text \<open>The stack of the parser and the stack of pointers: every pointer has slots for what is left.\<close>

fun ptrs_ok :: "obj_ptr set \<Rightarrow> unpack_stack \<Rightarrow> obj_ptr list \<Rightarrow> bool" where
  "ptrs_ok X [] qs \<longleftrightarrow> qs = [P_OBJ]"
| "ptrs_ok X ((ct, n) # st) qs \<longleftrightarrow>
     (\<exists>q qs'. qs = q # qs' \<and> (left ct n = 0 \<or> (\<exists>a. q = P_AT a)) \<and> cells q (left ct n) \<subseteq> X \<and> ptrs_ok X st qs')"

definition builds :: "unpack_stack \<Rightarrow> 'z co_state option \<Rightarrow> bool" where
  "builds st v \<longleftrightarrow> (\<exists>s. v = Some s \<and> co_ok s \<and> ptrs_ok (slots s) st (co_stack s))"

definition kept :: "'z co_state option \<Rightarrow> bool" where
  "kept v \<longleftrightarrow> (\<exists>s. v = Some s \<and> co_ok s)"

lemma ptrs_ok_mono: "ptrs_ok X st qs \<Longrightarrow> X \<subseteq> Y \<Longrightarrow> ptrs_ok Y st qs"
  by (induction X st qs rule: ptrs_ok.induct) (simp, simp, blast)

text \<open>When a value comes next the pointer on top is a slot.\<close>

lemma ptrs_ok_top:
  assumes "ptrs_ok (slots s) st (co_stack s)" and "slot st"
  shows "\<exists>p ps. co_stack s = p # ps \<and> p \<in> slots s"
proof (cases st)
  case Nil
  then show ?thesis using assms(1) by (simp add: slots_def)
next
  case (Cons e st')
  obtain ct n where e: "e = (ct, n)" by force
  have "0 < unat n" using assms(2) by (simp add: Cons e slot_def word_neq_0_conv word_less_nat_alt)
  then have nz: "left ct n \<noteq> 0" by (cases ct) auto
  obtain q qs where q: "co_stack s = q # qs" "left ct n = 0 \<or> (\<exists>a. q = P_AT a)" "cells q (left ct n) \<subseteq> slots s"
    using assms(1) by (auto simp: Cons e)
  then obtain a where a: "q = P_AT a" using nz by blast
  then have "q \<in> cells q (left ct n)" using nz cells_Suc [of a "left ct n - 1"] by simp
  then show ?thesis using q by blast
qed

text \<open>From an outcome to the answer of a callback.\<close>

lemma outcome_follows:
  assumes "outcome s err need Q rv" and "\<And>s'. Q s' \<Longrightarrow> builds st (Some s')"
  shows "follows (\<lambda>r v w. r \<noteq> VFalse \<and> kept v) (\<lambda>v w. builds st v) rv (VTrue, w)"
  using assms by (cases rv; cases "fst rv") (auto simp: outcome_def follows_def kept_def)

lemma stored_builds:
  assumes "stored c p ps s s'" and "ptrs_ok (slots s) st (p # ps)"
  shows "builds st (Some s')"
  using assms ptrs_ok_mono [of "slots s" st "p # ps" "slots s'"] by (auto simp: builds_def stored_def wrote_def)

lemma null_call: "call null_visitor k w = (VTrue, w)"
  by (cases k) (simp_all add: null_visitor_def)

text \<open>The types of values without a body.\<close>

lemma value_follows:
  assumes "co_alloc e = alloc" and "builds st v" and "slot st" and "is_scalar k"
  shows "follows (\<lambda>r v w. r \<noteq> VFalse \<and> kept v) (\<lambda>v w. builds st v) (call (create_object_visitor e) k v) (VTrue, w)"
proof -
  obtain s where s: "v = Some s" "co_ok s" "ptrs_ok (slots s) st (co_stack s)" using assms(2) by (auto simp: builds_def)
  obtain p ps where p: "co_stack s = p # ps" "p \<in> slots s" using ptrs_ok_top [OF s(3) assms(3)] by blast
  note st = stored_builds [where s = s and st = st and p = p and ps = ps, OF _ s(3)[unfolded p(1)]]
  have val: "follows (\<lambda>r v w. r \<noteq> VFalse \<and> kept v) (\<lambda>v w. builds st v) (co_value ty via v) (VTrue, w)" for ty via
    unfolding s(1) by (rule outcome_follows [OF co_value_stores [OF s(2) p]]) (rule st)
  have body: "follows (\<lambda>r v w. r \<noteq> VFalse \<and> kept v) (\<lambda>v w. builds st v) (co_body e limit x ty via bs v) (VTrue, w)"
    if "length bs < 2 ^ 32" for limit x ty via bs
    unfolding s(1) by (rule outcome_follows [OF co_body_stores [OF s(2) p assms(1) that]]) (auto simp: stored_body_def intro: st)
  have nil: "follows (\<lambda>r v w. r \<noteq> VFalse \<and> kept v) (\<lambda>v w. builds st v) (visit_nil (create_object_visitor e) v) (VTrue, w)"
    using with_obj_stores [OF s(2) p, of "\<lambda>ob. ob\<lparr>ob_type := T_NIL\<rparr>"] st by (auto simp: s(1) create_callbacks follows_def)
  show ?thesis using assms(4) val body nil by (cases k) (auto simp: is_scalar_def create_callbacks(2-9))
qed

lemma start_follows:
  assumes "co_alloc e = alloc" and "builds st v" and "slot st" and "k = 1 \<or> k = 2" and "left ct n = unat n * k"
  shows "follows (\<lambda>r v w. r \<noteq> VFalse \<and> kept v) (\<lambda>v w. builds ((ct, n) # st) v) (co_start e limit x ty via k n v) (VTrue, w)"
proof -
  obtain s where s: "v = Some s" "co_ok s" "ptrs_ok (slots s) st (co_stack s)" using assms(2) by (auto simp: builds_def)
  obtain p ps where p: "co_stack s = p # ps" "p \<in> slots s" using ptrs_ok_top [OF s(3) assms(3)] by blast
  have "builds ((ct, n) # st) (Some s')" if o: "opened p ps ty via (unat n) k s s'" for s'
  proof -
    obtain q where q: "co_stack s' = q # p # ps" "unat n = 0 \<or> (\<exists>a. q = P_AT a)" "cells q (unat n * k) \<subseteq> slots s'"
        "slots s \<subseteq> slots s'" "co_ok s'"
      using o by (auto simp: opened_def wrote_def)
    have "ptrs_ok (slots s') st (p # ps)" using ptrs_ok_mono [OF s(3) q(4)] p(1) by simp
    then show ?thesis using q by (auto simp: builds_def assms(5))
  qed
  from outcome_follows [OF co_start_opens [OF s(2) p assms(1,4)] this] show ?thesis unfolding s(1) .
qed

lemma advance_follows:
  assumes "builds ((ct, n) # st) v" and "left ct n = Suc (left ct' n')"
  shows "follows (\<lambda>r v w. r \<noteq> VFalse \<and> kept v) (\<lambda>v w. builds ((ct', n') # st) v) (co_advance v) (VTrue, w)"
proof -
  obtain s a qs where s: "v = Some s" "co_ok s" "co_stack s = P_AT a # qs" "cells (P_AT a) (Suc (left ct' n')) \<subseteq> slots s"
      "ptrs_ok (slots s) st qs"
    using assms by (auto simp: builds_def)
  then show ?thesis by (auto simp: follows_def co_advance_def builds_def cells_Suc)
qed

lemma pop_follows:
  assumes "builds ((ct, n) # st) v"
  shows "follows (\<lambda>r v w. r \<noteq> VFalse \<and> kept v) (\<lambda>v w. builds st v) (co_pop v) (VTrue, w)"
  using assms by (auto simp: builds_def follows_def co_pop_def)

lemma skip_follows: "builds st v \<Longrightarrow> follows D (\<lambda>v w. builds st v) (VTrue, v) (VTrue, w)"
  by (simp add: follows_def)

end

lemma left_Suc:
  "n \<noteq> 0 \<Longrightarrow> left MSGPACK_CT_ARRAY_ITEM n = Suc (left MSGPACK_CT_ARRAY_ITEM (n - 1))"
  "n \<noteq> 0 \<Longrightarrow> left MSGPACK_CT_MAP_KEY n = Suc (left MSGPACK_CT_MAP_VALUE n)"
  "n \<noteq> 0 \<Longrightarrow> left MSGPACK_CT_MAP_VALUE n = Suc (left MSGPACK_CT_MAP_KEY (n - 1))"
proof -
  have "n \<noteq> 0 \<Longrightarrow> 0 < unat n \<and> unat (n - 1) = unat n - 1"
    by (simp add: unat_minus_one word_neq_0_conv word_less_nat_alt)
  then show "n \<noteq> 0 \<Longrightarrow> left MSGPACK_CT_ARRAY_ITEM n = Suc (left MSGPACK_CT_ARRAY_ITEM (n - 1))"
    "n \<noteq> 0 \<Longrightarrow> left MSGPACK_CT_MAP_KEY n = Suc (left MSGPACK_CT_MAP_VALUE n)"
    "n \<noteq> 0 \<Longrightarrow> left MSGPACK_CT_MAP_VALUE n = Suc (left MSGPACK_CT_MAP_KEY (n - 1))"
    by (simp only: left.simps; linarith)+
qed

lemma unpack_env_alloc [simp]: "co_alloc (unpack_env al fp f limit) = allocate_align al" "co_fpu (unpack_env al fp f limit) = fp"
    "co_limit (unpack_env al fp f limit) = limit"
  by (simp_all add: unpack_env_def)

text \<open>The visitor builds its object under the protocol of the parser.\<close>

lemma null_calls [simp]:
  "start_array null_visitor n w = (VTrue, w)" "start_array_item null_visitor w = (VTrue, w)"
  "end_array_item null_visitor w = (VTrue, w)" "end_array null_visitor w = (VTrue, w)"
  "start_map null_visitor n w = (VTrue, w)" "start_map_key null_visitor w = (VTrue, w)"
  "end_map_key null_visitor w = (VTrue, w)" "start_map_value null_visitor w = (VTrue, w)"
  "end_map_value null_visitor w = (VTrue, w)" "end_map null_visitor w = (VTrue, w)"
  "parse_error null_visitor i j w = (None, w)"
  by (simp_all add: null_visitor_def)

lemma create_errors [simp]:
  "parse_error (create_object_visitor e) i j v = (Some parse_error_exn, v)"
  "insufficient_bytes (create_object_visitor e) i j v = (Some insufficient_bytes_exn, v)"
  by (simp_all add: create_object_visitor_def null_visitor_def Let_def)

interpretation created: visitor_protocol "create_object_visitor (unpack_env al fp f limit)" "null_visitor :: unit visitor"
    "\<lambda>st v w. pool.builds al st v" "\<lambda>r v w. r \<noteq> VFalse \<and> pool.kept al v" "\<lambda>p v. p = THROWN parse_error_exn \<and> pool.kept al v"
  for al fp f limit
proof unfold_locales
  fix st v and w :: unit and n :: "32 word" and k
  assume b: "pool.builds al st v" and sl: "slot st"
  show "is_scalar k \<Longrightarrow> follows (\<lambda>r v w. r \<noteq> VFalse \<and> pool.kept al v) (\<lambda>v w. pool.builds al st v)
      (call (create_object_visitor (unpack_env al fp f limit)) k v) (call null_visitor k w)"
    using pool.value_follows [OF _ b sl, of "unpack_env al fp f limit" k w] by (simp add: pool.null_call)
  show "follows (\<lambda>r v w. r \<noteq> VFalse \<and> pool.kept al v) (\<lambda>v w. pool.builds al ((MSGPACK_CT_ARRAY_ITEM, n) # st) v)
      (start_array (create_object_visitor (unpack_env al fp f limit)) n v) (start_array null_visitor n w)"
    using pool.start_follows [OF _ b sl, of "unpack_env al fp f limit" 1 MSGPACK_CT_ARRAY_ITEM n]
    by (simp add: pool.create_callbacks)
  show "follows (\<lambda>r v w. r \<noteq> VFalse \<and> pool.kept al v) (\<lambda>v w. pool.builds al ((MSGPACK_CT_MAP_KEY, n) # st) v)
      (start_map (create_object_visitor (unpack_env al fp f limit)) n v) (start_map null_visitor n w)"
    using pool.start_follows [OF _ b sl, of "unpack_env al fp f limit" 2 MSGPACK_CT_MAP_KEY n]
    by (simp add: pool.create_callbacks)
next
  fix st v i j
  show "pool.builds al st v \<Longrightarrow> error_ret (fst (parse_error (create_object_visitor (unpack_env al fp f limit)) i j v)) =
      THROWN parse_error_exn \<and> pool.kept al (snd (parse_error (create_object_visitor (unpack_env al fp f limit)) i j v))"
    by (auto simp: error_ret_def pool.builds_def pool.kept_def)
qed (auto simp: pool.create_callbacks pool.null_call simp del: left.simps
  intro: pool.skip_follows pool.pop_follows pool.advance_follows [OF _ left_Suc(1)] pool.advance_follows [OF _ left_Suc(2)]
    pool.advance_follows [OF _ left_Suc(3)])

lemma ret_of_throws: "r \<noteq> VFalse \<Longrightarrow> r \<noteq> VTrue \<Longrightarrow> \<exists>x. ret_of r = THROWN x"
  by (cases r) (simp_all add: ret_of_def)

text \<open>Unpacking returns and has touched only memory of the zone; it ends with an object or an exception.\<close>

lemma unpack_imp_safe:
  assumes "malloc_ok al" and "zone_ok al z" and "dom m \<subseteq> used_memory z" and "dom b \<subseteq> used_memory z" and "len \<le> length data"
  shows "\<exists>ret off' s. unpack_imp (unpack_env al fp f limit) data len off z m b = Some (ret, off', s) \<and> pool.co_ok al s \<and>
     (ret \<in> {PARSE_SUCCESS, PARSE_EXTRA_BYTES} \<and> off \<le> off' \<and> off' \<le> len \<or> (\<exists>x. ret = THROWN x))"
proof -
  let ?V = "create_object_visitor (unpack_env al fp f limit)" and ?s0 = "create_object_visitor_new z m b"
  have ok: "pool.co_ok al ?s0" by (rule pool.new_visitor_ok(1)) (use assms in simp_all)
  then have b: "pool.builds al [] (Some ?s0)" by (simp add: pool.builds_def create_object_visitor_new_def)
  show ?thesis
  proof (cases "len \<le> off")
    case True
    then show ?thesis using ok by (simp add: unpack_imp_def parse_imp_def)
  next
    case False
    obtain r c r' c' where e: "execute ?V data len off (context_new (Some ?s0)) = Some (r, c)"
        "created.in_step al (Some r, False, c) (Some r', False, c')"
      using False assms(5) b
      by (rule_tac created.execute_in_step [where off = off and len = len and data = data and c = "context_new (Some ?s0)" and w = "()"
        and al = al and fp = fp and f = f and limit = limit])
        (simp_all add: context_new_def ctx_ok_def slot_def)
    have total: "\<exists>r off' v'. parse_imp ?V data len off (Some ?s0) = Some (r, off', v') \<and> off \<le> off' \<and> (off \<le> len \<longrightarrow> off' \<le> len)"
      by (rule parse_imp_total [OF assms(5)])
    have bk: "pool.builds al st v \<Longrightarrow> pool.kept al v" for st v by (auto simp: pool.builds_def pool.kept_def)
    have "pool.kept al (m_visitor c)" using e(2) by (auto simp: created.in_step_def intro: bk)
    then have kept: "\<exists>s. m_visitor c = Some s \<and> pool.co_ok al s" by (simp add: pool.kept_def)
    have r: "r = PARSE_CONTINUE \<or> r = PARSE_SUCCESS \<or> (\<exists>x. r = THROWN x)"
      using e(2) ret_of_throws by (auto simp: created.in_step_def)
    show ?thesis using r e(1) kept total False
      by (auto simp: unpack_imp_def parse_imp_def Let_def split: if_splits)
  qed
qed

subsection \<open>\<open>unpack\<close> as a whole\<close>

lemma new_zone_ok:
  assumes "malloc_ok al" and "al calls 56 \<noteq> None" and "al (calls + 1) 8200 \<noteq> None"
  shows "\<exists>z :: 'f zone. new_zone al calls = Some (Inr z) \<and> zone_ok al z \<and> used_memory z = {} \<and> z_free z = 8192"
proof -
  obtain z :: "'f zone" where z: "zone_new al (calls + 1) 8192 = Some z" "z_free z = 8192"
    using assms(3) by (auto simp: zone_new_def)
  then show ?thesis using zone_new_ok [OF assms(1) _ z(1)] assms(2) by (auto simp: new_zone_def simp del: One_nat_def add_Suc_right)
qed

text \<open>The outcome for the packed bytes of a value.\<close>

definition unpacks :: "fpu \<Rightarrow> unpack_limit \<Rightarrow> mobj \<Rightarrow> nat \<Rightarrow> mp_exn + 'f object_handle \<times> nat \<times> bool \<Rightarrow> bool" where
  "unpacks fp limit ob endpos res \<longleftrightarrow>
     (case res of
        Inr (h, off, referenced) \<Rightarrow>
          off = endpos \<and> limit_error limit 1 ob = None \<and> holds fp (oh_mem h) (oh_bytes h) ob (oh_obj h)
      | Inl x \<Rightarrow> limit_error limit 1 ob = Some x \<or> x = bad_alloc \<and> MSGPACK_ZONE_CHUNK_SIZE < mem_need ob)"

lemma unpack_document:
  assumes "malloc_ok al" and "al calls 56 \<noteq> None" and "al (calls + 1) 8200 \<noteq> None" and "mobj_ok ob"
  shows "\<exists>res :: mp_exn + 'f object_handle \<times> nat \<times> bool. unpack al calls fp (pre @ enc_value fp ob @ post) (length (pre @ enc_value fp ob @ post)) (length pre) f limit = Some res \<and>
     unpacks fp limit ob (length (pre @ enc_value fp ob)) res"
proof -
  obtain z :: "'f zone" where z: "new_zone al calls = Some (Inr z)" "zone_ok al z" "used_memory z = {}" "z_free z = 8192"
    using new_zone_ok [OF assms(1-3)] by blast
  have ok: "malloc_ok al \<and> zone_ok al z" "dom (Map.empty :: nat \<rightharpoonup> mem_obj) \<subseteq> used_memory z" "dom (Map.empty :: nat \<rightharpoonup> byte) \<subseteq> used_memory z"
    using assms(1) z(2) by simp_all
  let ?data = "pre @ enc_value fp ob @ post"
  obtain ret off s where u: "unpack_imp (unpack_env al fp f limit) ?data (length ?data) (length pre) z Map.empty Map.empty = Some (ret, off, s)"
      "ret = (if post = [] then PARSE_SUCCESS else PARSE_EXTRA_BYTES) \<and> off = length (pre @ enc_value fp ob) \<and>
         limit_error limit 1 ob = None \<and> holds fp (co_mem s) (co_bytes s) ob (co_obj s) \<or>
       (\<exists>x. ret = THROWN x \<and> (limit_error limit 1 ob = Some x \<or> x = bad_alloc \<and> z_free z < mem_need ob))"
    using pool.unpack_imp_document [OF unpack_env_alloc(1,2) assms(4) ok, of fp f limit pre post] unfolding unpack_env_alloc by blast
  show ?thesis
    using u(2) by (elim disjE exE conjE) (use z(1,4) u(1) in \<open>simp_all add: unpack_def unpacks_def handle_of_def\<close>)
qed

end
