(* ===== verification/Mp_Types.thy ===== *)
theory Mp_Types
  imports Mp_Unpack
begin

text \<open>
  The tags of unpacked objects: whatever the bytes are, in an object that comes out of \<open>unpack_imp\<close>, and
  in every object of the zone, the member of the union that was written is the one the tag names.
\<close>

text \<open>A negative integer is below zero, and a \<^verbatim>\<open>nil\<close> has no member.\<close>

definition via_fits :: "mem_obj \<Rightarrow> bool" where
  "via_fits c \<longleftrightarrow>
     ob_type c = T_NIL \<or>
     (case ob_via c of
        V_none \<Rightarrow> False | V_size _ \<Rightarrow> False
      | V_boolean _ \<Rightarrow> ob_type c = T_BOOLEAN
      | V_u64 _ \<Rightarrow> ob_type c = T_POSITIVE_INTEGER
      | V_i64 i \<Rightarrow> ob_type c = T_NEGATIVE_INTEGER \<and> sint i < 0
      | V_f64 _ \<Rightarrow> ob_type c = T_FLOAT32 \<or> ob_type c = T_FLOAT64
      | V_array _ _ \<Rightarrow> ob_type c = T_ARRAY | V_map _ _ \<Rightarrow> ob_type c = T_MAP
      | V_str _ _ \<Rightarrow> ob_type c = T_STR | V_bin _ _ \<Rightarrow> ob_type c = T_BIN | V_ext _ _ \<Rightarrow> ob_type c = T_EXT)"

definition typed_but :: "obj_ptr set \<Rightarrow> 'z co_state \<Rightarrow> bool" where
  "typed_but X s \<longleftrightarrow> (\<forall>p c. p \<notin> X \<longrightarrow> obj_at s p = Some c \<longrightarrow> via_fits c)"

abbreviation typed :: "'z co_state \<Rightarrow> bool" where
  "typed s \<equiv> typed_but {} s"

lemma typed_update [simp]:
  "typed_but X (s\<lparr>co_referenced := r\<rparr>) = typed_but X s" "typed_but X (s\<lparr>co_stack := st\<rparr>) = typed_but X s"
  "typed_but X (s\<lparr>co_zone := z\<rparr>) = typed_but X s" "typed_but X (s\<lparr>co_bytes := b\<rparr>) = typed_but X s"
  by (simp_all add: typed_but_def)

lemma typed_mono: "typed_but X s \<Longrightarrow> X \<subseteq> Y \<Longrightarrow> typed_but Y s"
  by (auto simp: typed_but_def)

lemma set_obj_at: "obj_at (set_obj p c s) q = (if q = p \<and> p \<noteq> P_NULL then Some c else obj_at s q)"
  by (cases p; cases q) (auto simp: set_obj_def obj_at_def)

text \<open>What a write through the top of the stack leaves.\<close>

lemma with_obj_typed:
  assumes "with_obj f s = Some s'" and "typed_but {hd (co_stack s)} s"
  shows "co_stack s' = co_stack s" and "typed_but {hd (co_stack s)} s'"
    and "via_fits (f (the (obj_at s (hd (co_stack s))))) \<Longrightarrow> typed s'"
    and "obj_at s' (hd (co_stack s)) = Some (f (the (obj_at s (hd (co_stack s)))))"
proof -
  obtain p ps c where p: "co_stack s = p # ps" "obj_at s p = Some c" "s' = set_obj p (f c) s"
    using assms(1) by (auto simp: with_obj_def split: list.splits option.splits)
  have "p \<noteq> P_NULL" using p(2) by (auto simp: obj_at_def)
  then show "co_stack s' = co_stack s" "typed_but {hd (co_stack s)} s'"
    "via_fits (f (the (obj_at s (hd (co_stack s))))) \<Longrightarrow> typed s'"
    "obj_at s' (hd (co_stack s)) = Some (f (the (obj_at s (hd (co_stack s)))))"
    using assms(2) p by (auto simp: typed_but_def set_obj_at split: if_splits)
qed

text \<open>A callback that answers true leaves a state where every tag is right.\<close>

definition types :: "vres \<times> 'z co_state option \<Rightarrow> bool" where
  "types rv \<longleftrightarrow> (\<forall>s. rv = (VTrue, Some s) \<longrightarrow> typed s)"

lemma value_types:
  assumes "\<And>s. v = Some s \<Longrightarrow> typed s" and "via_fits \<lparr>ob_type = ty, ob_via = via\<rparr>"
  shows "types (co_value ty via v)"
proof -
  have "typed s'" if "v = Some s" "with_obj (\<lambda>ob. \<lparr>ob_type = ty, ob_via = via\<rparr>) s = Some s'" for s s'
    using with_obj_typed(3) [OF that(2)] assms typed_mono [of "{}" s "{hd (co_stack s)}"] that(1) by simp
  then show ?thesis by (auto simp: types_def co_value_def bind_eq_Some_conv)
qed

lemma tag_then_via:
  assumes "typed s" and "with_obj (\<lambda>ob. ob\<lparr>ob_type := ty\<rparr>) s = Some s1"
    and "with_obj (\<lambda>ob. ob\<lparr>ob_via := via\<rparr>) s2 = Some s3" and "via_fits \<lparr>ob_type = ty, ob_via = via\<rparr>"
    and "\<And>p. obj_at s2 p = obj_at s1 p" "co_stack s2 = co_stack s1"
  shows "typed s3"
proof -
  let ?p = "hd (co_stack s)"
  note t1 = with_obj_typed [OF assms(2) typed_mono [OF assms(1)]]
  have "typed_but {?p} s2" using t1(2) assms(5) by (simp add: typed_but_def)
  note t2 = with_obj_typed(3) [OF assms(3)]
  have e: "obj_at s2 ?p = Some ((the (obj_at s ?p))\<lparr>ob_type := ty\<rparr>)" using t1(4) assms(5) by simp
  have "the (obj_at s2 ?p)\<lparr>ob_via := via\<rparr> = \<lparr>ob_type = ty, ob_via = via\<rparr>"
    unfolding e by (cases "the (obj_at s ?p)") simp
  then show ?thesis using t2 \<open>typed_but {?p} s2\<close> t1(1) assms(4,6) by simp
qed

lemma body_types:
  assumes "\<And>s. v = Some s \<Longrightarrow> typed s" and "\<And>ch. via_fits \<lparr>ob_type = ty, ob_via = via ch\<rparr>"
  shows "types (co_body e limit x ty via bs v)"
  unfolding types_def
proof (intro allI impI)
  fix s3 assume r: "co_body e limit x ty via bs v = (VTrue, Some s3)"
  then obtain s s1 where s: "v = Some s" "with_obj (\<lambda>ob. ob\<lparr>ob_type := ty\<rparr>) s = Some s1"
    by (auto simp: co_body_def Let_def bind_eq_Some_conv split: if_splits option.splits sum.splits prod.splits)
  obtain s2 ch where s2: "with_obj (\<lambda>ob. ob\<lparr>ob_via := via ch\<rparr>) s2 = Some s3"
      "\<And>p. obj_at s2 p = obj_at s1 p" "co_stack s2 = co_stack s1"
  proof (cases "case co_func e of None \<Rightarrow> False | Some f \<Rightarrow> f ty (length bs)")
    case True
    then show ?thesis using r s that [of "Referenced bs" "s1\<lparr>co_referenced := True\<rparr>"]
      by (auto simp: co_body_def Let_def split: if_splits)
  next
    case False
    then obtain p z where "co_alloc e (length bs) 1 (co_zone s1) = (Inr p, z)"
        "with_obj (\<lambda>ob. ob\<lparr>ob_via := via (Copied p)\<rparr>) (s1\<lparr>co_zone := z, co_bytes := copy_bytes p bs (co_bytes s1)\<rparr>) = Some s3"
      using r s by (auto simp: co_body_def Let_def split: if_splits sum.splits prod.splits)
    then show ?thesis using that [of "Copied p" "s1\<lparr>co_zone := z, co_bytes := copy_bytes p bs (co_bytes s1)\<rparr>"] by simp
  qed
  show "typed s3" by (rule tag_then_via [OF assms(1) [OF s(1)] s(2) s2(1) assms(2) s2(2,3)])
qed

lemma place_objects_typed: "typed_but X s \<Longrightarrow> typed_but X (s\<lparr>co_mem := place_objects p n (co_mem s)\<rparr>)"
  by (auto simp: typed_but_def obj_at_def place_objects_def object_new_def via_fits_def split: obj_ptr.splits if_splits)

text \<open>The size is written first, then the pointer.\<close>

lemma start_types:
  assumes "\<And>s. v = Some s \<Longrightarrow> typed s" and "\<And>n q. via_fits \<lparr>ob_type = ty, ob_via = via n q\<rparr>"
  shows "types (co_start e limit x ty via k num v)"
  unfolding types_def
proof (intro allI impI)
  fix s3 assume r: "co_start e limit x ty via k num v = (VTrue, Some s3)"
  let ?n = "unat num"
  obtain s s1 where s: "v = Some s" "with_obj (\<lambda>_. \<lparr>ob_type = ty, ob_via = V_size ?n\<rparr>) s = Some s1"
    using r by (auto simp: co_start_def Let_def split: if_splits option.splits)
  let ?p = "hd (co_stack s)"
  note t1 = with_obj_typed [OF s(2) typed_mono [OF assms(1) [OF s(1)]], simplified]
  have last: "typed s4" if w: "with_obj (\<lambda>ob. ob\<lparr>ob_via := via ?n q\<rparr>) s2 = Some s4" and "typed_but {?p} s2" "co_stack s2 = co_stack s1"
      "obj_at s2 ?p = obj_at s1 ?p" for q s2 s4
    using with_obj_typed(3) [OF w] that(2-4) t1(1,4) assms(2) by simp
  show "typed s3"
  proof (cases "?n = 0")
    case True
    then obtain s4 where "with_obj (\<lambda>ob. ob\<lparr>ob_via := via ?n P_NULL\<rparr>) s1 = Some s4" "s3 = s4\<lparr>co_stack := P_NULL # co_stack s4\<rparr>"
      using r s by (auto simp: co_start_def Let_def split: if_splits)
    then show ?thesis using last [of P_NULL s1 s4] t1(1,2) by simp
  next
    case False
    obtain p z s4 where a: "co_alloc e (u64 (?n * (k * 24))) 8 (co_zone s1) = (Inr p, z)"
        "with_obj (\<lambda>ob. ob\<lparr>ob_via := via ?n (P_AT p)\<rparr>) (s1\<lparr>co_zone := z, co_mem := place_objects p (?n * k) (co_mem s1)\<rparr>) = Some s4"
        "s3 = s4\<lparr>co_stack := P_AT p # co_stack s4\<rparr>"
      using r s False by (auto simp: co_start_def Let_def split: if_splits sum.splits prod.splits)
    define s2 where "s2 = s1\<lparr>co_zone := z, co_mem := place_objects p (?n * k) (co_mem s1)\<rparr>"
    have "typed_but {?p} s2" using place_objects_typed [of "{?p}" "s1\<lparr>co_zone := z\<rparr>"] t1(2) by (simp add: s2_def)
    have w: "with_obj (\<lambda>ob. ob\<lparr>ob_via := via ?n (P_AT p)\<rparr>) s2 = Some s4" using a(2) by (simp add: s2_def)
    show ?thesis
    proof (cases "obj_at s2 ?p = obj_at s1 ?p")
      case True
      then show ?thesis using last [OF w \<open>typed_but {?p} s2\<close>] a(3) by (simp add: s2_def)
    next
      case False
      then have "obj_at s2 ?p = Some object_new" by (auto simp: s2_def obj_at_def place_objects_def split: obj_ptr.splits if_splits)
      then show ?thesis
        using with_obj_typed(3) [OF w] \<open>typed_but {?p} s2\<close> t1(1) a(3) by (simp add: s2_def via_fits_def object_new_def)
    qed
  qed
qed

definition typed_opt :: "'z co_state option \<Rightarrow> bool" where
  "typed_opt v \<longleftrightarrow> (\<forall>s. v = Some s \<longrightarrow> typed s)"

lemma types_follows: "types rv \<Longrightarrow> follows (\<lambda>_ _ _. True) (\<lambda>v w. typed_opt v) rv (VTrue, w)"
  by (cases rv) (auto simp: follows_def types_def typed_opt_def)

lemma move_types:
  "typed_opt v \<Longrightarrow> types (co_advance v)" "typed_opt v \<Longrightarrow> types (co_pop v)" "typed_opt v \<Longrightarrow> types (VTrue, v)"
  by (cases v; auto simp: types_def typed_opt_def co_advance_def co_pop_def split: list.splits obj_ptr.splits)+

lemma call_types:
  assumes "typed_opt v"
  shows "types (call (create_object_visitor e) k v)"
proof -
  have v: "v = Some s \<Longrightarrow> typed s" for s using assms by (simp add: typed_opt_def)
  have nil: "types (visit_nil (create_object_visitor e) v)"
  proof -
    have "typed s'" if "v = Some s" "with_obj (\<lambda>ob. ob\<lparr>ob_type := T_NIL\<rparr>) s = Some s'" for s s'
      using with_obj_typed(3) [OF that(2) typed_mono [OF v [OF that(1)]]] by (simp add: via_fits_def)
    then show ?thesis by (auto simp: types_def create_object_visitor_def null_visitor_def Let_def bind_eq_Some_conv)
  qed
  show ?thesis
    using nil assms by (cases k) (auto simp: pool.create_callbacks(2-) via_fits_def intro!: value_types body_types start_types move_types v)
qed

lemma call_follows:
  "typed_opt v \<Longrightarrow> follows (\<lambda>_ _ _. True) (\<lambda>v w. typed_opt v) (call (create_object_visitor e) k v) (VTrue, w)"
  by (rule types_follows [OF call_types])

lemmas calls_follow = call_follows [where k = "C_start_array n" for n, unfolded call.simps] call_follows [where k = C_start_array_item, unfolded call.simps]
  call_follows [where k = C_end_array_item, unfolded call.simps] call_follows [where k = C_end_array, unfolded call.simps]
  call_follows [where k = "C_start_map n" for n, unfolded call.simps] call_follows [where k = C_start_map_key, unfolded call.simps]
  call_follows [where k = C_end_map_key, unfolded call.simps] call_follows [where k = C_start_map_value, unfolded call.simps]
  call_follows [where k = C_end_map_value, unfolded call.simps] call_follows [where k = C_end_map, unfolded call.simps]

interpretation typing: visitor_protocol "create_object_visitor e" "null_visitor :: unit visitor"
    "\<lambda>st v w. typed_opt v" "\<lambda>_ _ _. True" "\<lambda>p v. p = THROWN parse_error_exn"
  for e :: "'z co_env"
  by unfold_locales (simp_all add: pool.null_call call_follows calls_follow error_ret_def)

lemma new_visitor_typed: "(\<forall>a c. m a = Some c \<longrightarrow> via_fits c) \<Longrightarrow> typed (create_object_visitor_new z m b)"
  by (auto simp: typed_but_def obj_at_def create_object_visitor_new_def object_new_def via_fits_def split: obj_ptr.splits)

lemma ret_of_not: "ret_of q \<noteq> PARSE_EXTRA_BYTES" "PARSE_EXTRA_BYTES \<noteq> ret_of q" "ret_of q \<noteq> PARSE_SUCCESS" "PARSE_SUCCESS \<noteq> ret_of q"
  by (cases q; simp add: ret_of_def)+

lemma unpack_imp_typed:
  assumes "unpack_imp e data len off z m b = Some (ret, off', s)" and "ret \<in> {PARSE_SUCCESS, PARSE_EXTRA_BYTES}"
    and "\<forall>a c. m a = Some c \<longrightarrow> via_fits c" and "len \<le> length data"
  shows "via_fits (co_obj s) \<and> (\<forall>a c. co_mem s a = Some c \<longrightarrow> via_fits c)"
proof -
  let ?V = "create_object_visitor e" and ?s0 = "create_object_visitor_new z m b"
  have p: "parse_imp ?V data len off (Some ?s0) = Some (ret, off', Some s)"
    using assms(1) by (auto simp: unpack_imp_def bind_eq_Some_conv)
  then have off: "\<not> len \<le> off" using assms(2) by (auto simp: parse_imp_def)
  obtain r c r' c' where e: "execute ?V data len off (context_new (Some ?s0)) = Some (r, c)"
      "typing.in_step (Some r, False, c) (Some r', False, c')"
    by (rule typing.execute_in_step [where off = off and len = len and data = data and c = "context_new (Some ?s0)" and w = "()" and e = e])
      (use off assms(3,4) new_visitor_typed in \<open>auto simp: context_new_def ctx_ok_def slot_def typed_opt_def\<close>)
  have "r \<noteq> PARSE_EXTRA_BYTES" using e(2) by (auto simp: typing.in_step_def ret_of_not)
  then have rc: "r = PARSE_SUCCESS" "m_visitor c = Some s"
    using p e(1) off assms(2) by (auto simp: parse_imp_def Let_def split: parse_return.splits)
  then have "typed_opt (Some s)" using e(2) by (auto simp: typing.in_step_def ret_of_not)
  then have "typed s" by (simp add: typed_opt_def)
  then show ?thesis by (auto simp: typed_but_def obj_at_def split: obj_ptr.splits)
qed

end
