(* ===== verification/Mp_Resume.thy ===== *)
theory Mp_Resume
  imports Mp_Protocol Mp_Documents
begin

text \<open>
  The parser on a stream that arrives in pieces (\<^verbatim>\<open>context::execute\<close> in
  \<^verbatim>\<open>msgpack-c/include/msgpack/v2/parse.hpp\<close>): where the bytes lie in memory does not matter, and a run
  that ended because bytes were missing goes on, when more have arrived, to what a run over all the
  bytes at once does.
\<close>

subsection \<open>Where the bytes lie\<close>

text \<open>The same bytes, \<open>k\<close> places further on in a larger block.\<close>

definition shift :: "nat \<Rightarrow> 'v mp_context \<Rightarrow> 'v mp_context" where
  "shift k c = c\<lparr>m_current := m_current c + k\<rparr>"

definition shift_step :: "nat \<Rightarrow> 'v exec_step \<Rightarrow> 'v exec_step" where
  "shift_step k s = (case s of (ret, again, c) \<Rightarrow> (ret, again, shift k c))"

lemma shift_simps [simp]:
  "m_trail (shift k c) = m_trail c" "m_cs (shift k c) = m_cs c" "m_stack (shift k c) = m_stack c"
  "m_current (shift k c) = m_current c + k" "m_visitor (shift k c) = m_visitor c"
  "(shift k c)\<lparr>m_trail := t\<rparr> = shift k (c\<lparr>m_trail := t\<rparr>)" "(shift k c)\<lparr>m_cs := x\<rparr> = shift k (c\<lparr>m_cs := x\<rparr>)"
  "(shift k c)\<lparr>m_stack := st\<rparr> = shift k (c\<lparr>m_stack := st\<rparr>)" "(shift k c)\<lparr>m_visitor := v\<rparr> = shift k (c\<lparr>m_visitor := v\<rparr>)"
  "shift 0 c = c" "shift j (shift k c) = shift (j + k) c"
  by (simp_all add: shift_def)

lemma shift_current: "(shift k c)\<lparr>m_current := n + k\<rparr> = shift k (c\<lparr>m_current := n\<rparr>)"
  by (simp add: shift_def)

text \<open>Positions are given to the visitor only when a byte is refused.\<close>

definition same_place :: "'v visitor \<Rightarrow> nat \<Rightarrow> bool" where
  "same_place V k \<longleftrightarrow> k = 0 \<or> (\<forall>p q p' q'. parse_error V p q = parse_error V p' q')"

definition moved :: "nat \<Rightarrow> 'v exec_step option \<Rightarrow> 'v exec_step option \<Rightarrow> bool" where
  "moved k os os' \<longleftrightarrow> (\<forall>s. os = Some s \<longrightarrow> os' = Some (shift_step k s))"

lemma moved_Some [simp]: "moved k (Some s) os' \<longleftrightarrow> os' = Some (shift_step k s)"
  by (simp add: moved_def)

lemma moved_bind:
  assumes "\<And>x. m = Some x \<Longrightarrow> m' = Some x \<and> moved k (F x) (F' x)"
  shows "moved k (m \<bind> F) (m' \<bind> F')"
  using assms by (cases m) (auto simp: moved_def)

lemma moved_if: "(b \<Longrightarrow> moved k x x') \<Longrightarrow> (\<not> b \<Longrightarrow> moved k y y') \<Longrightarrow> moved k (if b then x else y) (if b then x' else y')"
  by simp

lemma mem_moved:
  "mem_at xs n = Some b \<Longrightarrow> mem_at (pre @ xs @ post) (n + length pre) = Some b"
  "mem_range xs n l = Some bs \<Longrightarrow> mem_range (pre @ xs @ post) (n + length pre) l = Some bs"
  by (auto simp: mem_at_eq_Some mem_range_eq_Some nth_append)

lemma loads_moved:
  "load_fix xs n = Some f \<Longrightarrow> load_fix (pre @ xs @ post) (n + length pre) = Some f"
  "load8 xs n = Some a \<Longrightarrow> load8 (pre @ xs @ post) (n + length pre) = Some a"
  "load16 xs n = Some b \<Longrightarrow> load16 (pre @ xs @ post) (n + length pre) = Some b"
  "load32 xs n = Some c \<Longrightarrow> load32 (pre @ xs @ post) (n + length pre) = Some c"
  "load64 xs n = Some d \<Longrightarrow> load64 (pre @ xs @ post) (n + length pre) = Some d"
  by (auto simp: load_fix_def load8_def load16_def load32_def load64_def bind_eq_Some_conv mem_moved)

lemma visited_moved: "visited V rv (shift k c) = shift_step k (visited V rv c)"
proof -
  have up: "(shift k c)\<lparr>m_visitor := v, m_current := m_current c + k + 1, m_stack := st\<rparr> =
      shift k (c\<lparr>m_visitor := v, m_current := m_current c + 1, m_stack := st\<rparr>)" for v st
    by (simp add: shift_def)
  have up': "(shift k c)\<lparr>m_visitor := v, m_current := m_current c + k + 1\<rparr> = shift k (c\<lparr>m_visitor := v, m_current := m_current c + 1\<rparr>)" for v
    by (simp add: shift_def)
  show ?thesis
    by (cases rv; cases "fst rv"; cases "stack_consume V (m_stack c) (snd rv)"; cases "fst (stack_consume V (m_stack c) (snd rv))")
      (simp_all add: visited_def after_visit_proc_def shift_step_def go_on_def Let_def up up' del: shift_simps(8,9))
qed

lemma agg_moved: "go_on (start_aggregate V sv ev ct num (shift k c)) = shift_step k (go_on (start_aggregate V sv ev ct num c))"
proof -
  have c1: "(shift k c)\<lparr>m_current := m_current c + k + 1\<rparr> = shift k (c\<lparr>m_current := m_current c + 1\<rparr>)" by (simp add: shift_def)
  show ?thesis
    by (simp add: start_aggregate_def c1 go_on_def shift_step_def Let_def split: prod.split)
qed

lemma fail_moved: "same_place V k \<Longrightarrow> fail_parse V (n + k) (shift k c) = shift_step k (fail_parse V n c)"
proof -
  assume "same_place V k"
  then have "parse_error V (pred_size (n + k)) (n + k) = parse_error V (pred_size n) n"
    unfolding same_place_def by auto
  then show ?thesis by (simp add: fail_parse_def shift_step_def split: prod.split option.split)
qed

lemma header_moved:
  assumes "same_place V (length pre)"
  shows "moved (length pre) (exec_header V xs c) (exec_header V (pre @ xs @ post) (shift (length pre) c))"
  unfolding exec_header_def Let_def
  by (rule moved_bind) (auto simp: mem_moved visited_moved start_array_agg_def start_map_agg_def agg_moved fail_moved [OF assms]
      shift_step_def bind_eq_Some_conv loads_moved moved_def)

lemma number_moved:
  "moved (length pre) (exec_number V xs n c) (exec_number V (pre @ xs @ post) (n + length pre) (shift (length pre) c))"
  unfolding exec_number_def Let_def shift_simps
  by (intro moved_if moved_bind; auto simp: loads_moved visited_moved)

lemma bytes_moved:
  "moved (length pre) (visit_bytes V f xs n l c) (visit_bytes V f (pre @ xs @ post) (n + length pre) l (shift (length pre) c))"
  unfolding visit_bytes_def shift_simps by (rule moved_bind) (auto simp: mem_moved visited_moved)

lemma expect_moved:
  "moved (length pre) (expect_body V f acs xs n t c) (expect_body V f acs (pre @ xs @ post) (n + length pre) t (shift (length pre) c))"
  using bytes_moved [of pre V f xs n 0 "c\<lparr>m_trail := 0\<rparr>" post] by (auto simp: expect_body_def shift_step_def Let_def)

lemma switch_moved:
  assumes "same_place V (length pre)"
  shows "moved (length pre) (exec_switch V xs n c) (exec_switch V (pre @ xs @ post) (n + length pre) (shift (length pre) c))"
proof -
  have agg: "go_on (start_array_agg V x (shift k c)) = shift_step k (go_on (start_array_agg V x c))"
      "go_on (start_map_agg V x (shift k c)) = shift_step k (go_on (start_map_agg V x c))" for x k
    by (simp_all add: start_array_agg_def start_map_agg_def agg_moved)
  show ?thesis
    unfolding exec_switch_def exec_fixext_def exec_length_def exec_body_def exec_aggregate_def shift_simps
    by (intro moved_if number_moved bytes_moved; (rule moved_bind)?; auto simp: loads_moved agg fail_moved [OF assms] intro: expect_moved)
qed

lemma trail_moved:
  assumes "same_place V (length pre)" and "1 \<le> m_trail c"
  shows "moved (length pre) (exec_trail V xs pe again c) (exec_trail V (pre @ xs @ post) (pe + length pre) again (shift (length pre) c))"
proof -
  let ?k = "length pre"
  define c1 where "c1 = (if again then c\<lparr>m_current := m_current c + 1\<rparr> else c)"
  have c1: "(if again then (shift ?k c)\<lparr>m_current := m_current (shift ?k c) + 1\<rparr> else shift ?k c) = shift ?k c1"
    by (simp add: c1_def shift_def)
  have t: "m_trail c1 = m_trail c" by (simp add: c1_def)
  have c2: "(shift ?k c1)\<lparr>m_current := m_current c1 + ?k + m_trail c1 - 1\<rparr> = shift ?k (c1\<lparr>m_current := m_current c1 + m_trail c1 - 1\<rparr>)"
    using assms(2) by (simp add: shift_def t)
  have e: "exec_trail V ys q again c = (if q - m_current c1 < m_trail c1 then Some (Some PARSE_CONTINUE, False, c1)
      else exec_switch V ys (m_current c1) (c1\<lparr>m_current := m_current c1 + m_trail c1 - 1\<rparr>))" for ys q
    by (simp only: exec_trail_def Let_def c1_def)
  have e': "exec_trail V ys q again (shift ?k c) = (if q - (m_current c1 + ?k) < m_trail c1 then Some (Some PARSE_CONTINUE, False, shift ?k c1)
      else exec_switch V ys (m_current c1 + ?k) (shift ?k (c1\<lparr>m_current := m_current c1 + m_trail c1 - 1\<rparr>)))" for ys q
    unfolding exec_trail_def c1 by (simp only: Let_def shift_simps c2)
  show ?thesis unfolding e e' using switch_moved [OF assms(1)] by (auto simp: shift_step_def)
qed

text \<open>The loop.\<close>

lemma trail_of_state: "ctx_ok c \<Longrightarrow> m_cs c \<noteq> MSGPACK_CS_HEADER \<Longrightarrow> 1 \<le> m_trail c"
proof -
  have "\<forall>i < 28. 1 \<le> trail_table ! i" by (simp add: trail_table_def All_less_Suc numeral_eq_Suc)
  then show "ctx_ok c \<Longrightarrow> m_cs c \<noteq> MSGPACK_CS_HEADER \<Longrightarrow> 1 \<le> m_trail c" by (auto simp: ctx_ok_def)
qed

lemma iter_moved:
  assumes "same_place V (length pre)" and "m_current c < pe" and "pe \<le> length xs" and "ctx_ok c"
  shows "moved (length pre) (exec_iter V xs pe again c) (exec_iter V (pre @ xs @ post) (pe + length pre) again (shift (length pre) c))"
proof (cases "m_cs c = MSGPACK_CS_HEADER")
  case False
  then show ?thesis using trail_moved [OF assms(1) trail_of_state [OF assms(4) False]] by (simp add: exec_iter_def)
next
  case True
  obtain ret ag c1 where h: "exec_header V xs c = Some (ret, ag, c1)" "headed c (ret, ag, c1)"
    using exec_header_ok [of c xs V] assms(2,3) by (auto simp: safe_head_def)
  then have h': "exec_header V (pre @ xs @ post) (shift (length pre) c) = Some (ret, ag, shift (length pre) c1)"
    using header_moved [OF assms(1), of xs c post] by (simp add: shift_step_def)
  show ?thesis
  proof (cases "ret = None \<and> (m_cs c1 \<noteq> MSGPACK_CS_HEADER \<or> ag)")
    case go: True
    then have "1 \<le> m_trail c1" using h(2) trail_of_state [of c1] by (auto simp: headed_def consumed_def)
    then show ?thesis using True h h' go trail_moved [OF assms(1)] by (simp add: exec_iter_def)
  next
    case False
    then show ?thesis using True h h' by (auto simp: exec_iter_def shift_step_def)
  qed
qed

lemma loop_moved:
  assumes "same_place V (length pre)" and "pe \<le> length xs"
    and "m_current c < pe" and "ctx_ok c" and "again \<longrightarrow> m_cs c \<noteq> MSGPACK_CS_HEADER"
    and "exec_loop V xs pe again c = Some (r, c1)"
  shows "exec_loop V (pre @ xs @ post) (pe + length pre) again (shift (length pre) c) = Some (r, shift (length pre) c1)"
  using assms(3-5)
proof (induction rule: loop_induct [OF assms(6)])
  case (1 again c ret again' c' r c1)
  have m: "exec_iter V (pre @ xs @ post) (pe + length pre) again (shift (length pre) c) = Some (ret, again', shift (length pre) c')"
    using iter_moved [OF assms(1) 1(3) assms(2) 1(4), of again post] 1(1) by (simp add: shift_step_def)
  have t: "turn_ok pe (progress pe again c) (ret, again', c')"
    using exec_iter_ok [OF 1(3) assms(2) 1(4,5), of V] 1(1) by simp
  show ?case
    using 1(2) m t by (subst exec_loop.simps) (auto simp: turn_ok_def split: option.splits if_splits)
qed

lemma execute_moved:
  assumes "same_place V (length pre)" and "off \<le> len" and "len \<le> length xs" and "ctx_ok c"
    and "execute V xs len off c = Some (r, c1)"
  shows "execute V (pre @ xs @ post) (len + length pre) (off + length pre) c = Some (r, shift (length pre) c1)"
proof (cases "off = len")
  case True
  then show ?thesis using assms(5) by (auto simp: execute_def shift_def)
next
  case False
  show ?thesis
    using loop_moved [OF assms(1,3), of "c\<lparr>m_current := off\<rparr>" False r c1 post] assms(2,4,5) False
    by (simp add: execute_def ctx_ok_def shift_def)
qed

subsection \<open>Going on after more bytes\<close>

definition calm :: "'v exec_step option \<Rightarrow> bool" where
  "calm os \<longleftrightarrow> (\<forall>s. os = Some s \<longrightarrow> fst s \<noteq> Some PARSE_CONTINUE)"

lemma calm_intros:
  "(\<And>x. m = Some x \<Longrightarrow> calm (F x)) \<Longrightarrow> calm (m \<bind> F)" "(b \<Longrightarrow> calm x) \<Longrightarrow> (\<not> b \<Longrightarrow> calm y) \<Longrightarrow> calm (if b then x else y)"
  "calm (Some (go_on rc))" "calm (Some (visited V rv c))" "calm (Some (fail_parse V n c))" "calm (Some (None, again, c))"
  by (auto simp: calm_def go_on_def visited_def fail_parse_def bind_eq_Some_conv split: prod.splits option.splits)

lemma switch_calm: "calm (exec_switch V xs n c)"
  unfolding exec_switch_def exec_number_def exec_fixext_def exec_length_def exec_body_def exec_aggregate_def expect_body_def
    visit_bytes_def Let_def
  by (intro calm_intros)

text \<open>A turn of the loop with a later end: the same, unless bytes were missing; then the turn ended before the
  trailing bytes were looked at.\<close>

lemma trail_longer:
  assumes "pe \<le> pe'" and "exec_trail V xs pe again c = Some (ret, again', c')" and "m_cs c \<noteq> MSGPACK_CS_HEADER"
  shows "ret \<noteq> Some PARSE_CONTINUE \<and> exec_trail V xs pe' again c = Some (ret, again', c') \<or>
     ret = Some PARSE_CONTINUE \<and> m_cs c' \<noteq> MSGPACK_CS_HEADER \<and> exec_trail V xs pe' again c = exec_trail V xs pe' False c'"
proof -
  define c1 where "c1 = (if again then c\<lparr>m_current := m_current c + 1\<rparr> else c)"
  have e: "exec_trail V xs q again c = (if q - m_current c1 < m_trail c1 then Some (Some PARSE_CONTINUE, False, c1)
      else exec_switch V xs (m_current c1) (c1\<lparr>m_current := m_current c1 + m_trail c1 - 1\<rparr>))" for q
    by (simp only: exec_trail_def Let_def c1_def)
  have e1: "exec_trail V xs q False c1 = exec_trail V xs q again c" for q
    unfolding e by (simp add: exec_trail_def Let_def)
  have cs: "m_cs c1 \<noteq> MSGPACK_CS_HEADER" using assms(3) by (simp add: c1_def)
  show ?thesis
  proof (cases "pe - m_current c1 < m_trail c1")
    case True
    then have "c' = c1" "ret = Some PARSE_CONTINUE" using assms(2) unfolding e by simp_all
    then show ?thesis using e1 cs by simp
  next
    case False
    then show ?thesis using assms(1,2) switch_calm [of V xs "m_current c1" "c1\<lparr>m_current := m_current c1 + m_trail c1 - 1\<rparr>"]
      unfolding e by (simp add: calm_def)
  qed
qed

lemma iter_longer:
  assumes "pe \<le> pe'" and "m_current c < pe" and "pe \<le> length xs" and "ctx_ok c"
    and "exec_iter V xs pe again c = Some (ret, again', c')"
  shows "ret \<noteq> Some PARSE_CONTINUE \<and> exec_iter V xs pe' again c = Some (ret, again', c') \<or>
     ret = Some PARSE_CONTINUE \<and> m_cs c' \<noteq> MSGPACK_CS_HEADER \<and> exec_iter V xs pe' again c = exec_trail V xs pe' False c'"
proof (cases "m_cs c = MSGPACK_CS_HEADER")
  case False
  then show ?thesis using trail_longer [OF assms(1) _ False] assms(5) by (simp add: exec_iter_def)
next
  case True
  obtain ret1 ag c1 where h: "exec_header V xs c = Some (ret1, ag, c1)" "headed c (ret1, ag, c1)"
    using exec_header_ok [of c xs V] assms(2,3) by (auto simp: safe_head_def)
  show ?thesis
  proof (cases "ret1 = None \<and> (m_cs c1 \<noteq> MSGPACK_CS_HEADER \<or> ag)")
    case go: True
    then have "m_cs c1 \<noteq> MSGPACK_CS_HEADER" using h(2) by (auto simp: headed_def consumed_def)
    then show ?thesis using True h go assms(5) trail_longer [OF assms(1)] by (simp add: exec_iter_def)
  next
    case False
    then show ?thesis using True h assms(5) by (auto simp: exec_iter_def headed_def consumed_def)
  qed
qed

text \<open>Only a turn that found bytes missing answers that it does.\<close>

lemma exec_loop_trail:
  "m_cs c \<noteq> MSGPACK_CS_HEADER \<Longrightarrow> exec_iter V xs pe False c = exec_trail V xs pe False c"
  by (simp add: exec_iter_def)

lemma loop_same_iter: "exec_iter V xs pe again c = exec_iter V xs pe again' d \<Longrightarrow> exec_loop V xs pe again c = exec_loop V xs pe again' d"
  by (subst (1 2) exec_loop.simps) simp

lemma loop_longer:
  assumes "pe < pe'" and "pe' \<le> length xs"
    and "m_current c < pe" and "ctx_ok c" and "again \<longrightarrow> m_cs c \<noteq> MSGPACK_CS_HEADER"
    and "exec_loop V xs pe again c = Some (r, c1)"
  shows "exec_loop V xs pe' again c = (if r = PARSE_CONTINUE then exec_loop V xs pe' False c1 else Some (r, c1))"
  using assms(3-5)
proof (induction rule: loop_induct [OF assms(6)])
  case (1 again c ret again' c' r c1)
  have le: "pe \<le> pe'" "pe \<le> length xs" using assms(1,2) by simp_all
  have t: "turn_ok pe (progress pe again c) (ret, again', c')"
    using exec_iter_ok [OF 1(3) le(2) 1(4,5), of V] 1(1) by simp
  from iter_longer [OF le(1) 1(3) le(2) 1(4,1)] show ?case
  proof (elim disjE conjE)
    assume same: "ret \<noteq> Some PARSE_CONTINUE" "exec_iter V xs pe' again c = Some (ret, again', c')"
    show ?thesis
      using 1(2) same t assms(1) by (subst exec_loop.simps) (auto simp: turn_ok_def split: option.splits if_splits)
  next
    assume "ret = Some PARSE_CONTINUE" "m_cs c' \<noteq> MSGPACK_CS_HEADER" "exec_iter V xs pe' again c = exec_trail V xs pe' False c'"
    then show ?thesis using 1(2) loop_same_iter [of V xs pe' again c False c'] exec_loop_trail [of c'] by simp
  qed
qed

lemma execute_longer:
  assumes "len < len'" and "len' \<le> length xs" and "off \<le> len" and "ctx_ok c"
    and "execute V xs len off c = Some (r, c1)"
  shows "execute V xs len' off c = (if r = PARSE_CONTINUE then execute V xs len' (m_current c1) c1 else Some (r, c1))"
proof (cases "off = len")
  case True
  then show ?thesis using assms(5) by (auto simp: execute_def)
next
  case False
  have "m_current c1 \<le> len" using execute_total [OF assms(3) _ assms(4), of xs V] assms(1,2,5) by auto
  moreover have "c1\<lparr>m_current := m_current c1\<rparr> = c1" by simp
  ultimately show ?thesis
    using loop_longer [OF assms(1,2), of "c\<lparr>m_current := off\<rparr>" False V r c1] assms(1,3-5) False
    by (simp add: execute_def ctx_ok_def)
qed

subsection \<open>Bytes\<close>

text \<open>The parser on a list of bytes, from its start; the current position is the number of bytes taken.\<close>

definition exec_bytes :: "'v visitor \<Rightarrow> byte list \<Rightarrow> 'v mp_context \<Rightarrow> (parse_return \<times> 'v mp_context) option" where
  "exec_bytes V bs c = execute V bs (length bs) 0 c"

text \<open>In a block of memory only the bytes between the offset and the end count.\<close>

lemma execute_bytes:
  assumes "same_place V off" and "off \<le> len" and "len \<le> length xs" and "ctx_ok c"
    and "exec_bytes V (take (len - off) (drop off xs)) c = Some (r, c1)"
  shows "execute V xs len off c = Some (r, shift off c1)"
proof -
  have xs: "take off xs @ take (len - off) (drop off xs) @ drop len xs = xs"
    using assms(2,3) by (metis append_assoc append_take_drop_id drop_drop le_add_diff_inverse2 take_add le_add_diff_inverse)
  have "length (take off xs) = off" "length (take (len - off) (drop off xs)) = len - off" using assms(2,3) by simp_all
  then show ?thesis
    using execute_moved [of V "take off xs" 0 "len - off" "take (len - off) (drop off xs)" c r c1 "drop len xs"] assms
    unfolding xs by (simp add: exec_bytes_def)
qed

lemma exec_bytes_total:
  assumes "ctx_ok c"
  shows "\<exists>r c1. exec_bytes V bs c = Some (r, c1) \<and> m_current c1 \<le> length bs \<and> (r = PARSE_CONTINUE \<longrightarrow> ctx_ok c1) \<and>
     (r = PARSE_SUCCESS \<longrightarrow> 0 < m_current c1)"
  using execute_total [OF _ _ assms, of 0 "length bs" bs V] by (auto simp: exec_bytes_def)

text \<open>Bytes in two pieces: the second run gets what the first one left and the new bytes.\<close>

lemma exec_bytes_append:
  assumes "ctx_ok c" and "\<forall>k. same_place V k" and "ys \<noteq> []" and "exec_bytes V xs c = Some (PARSE_CONTINUE, c1)"
    and "exec_bytes V (drop (m_current c1) xs @ ys) c1 = Some (r, c2)"
  shows "exec_bytes V (xs @ ys) c = Some (r, shift (m_current c1) c2)"
proof -
  have z: "m_current c1 \<le> length xs" "ctx_ok c1" using exec_bytes_total [OF assms(1), of V xs] assms(4) by auto
  have m: "execute V (xs @ ys) (length xs) 0 c = Some (PARSE_CONTINUE, c1)"
    using execute_moved [of V "[]" 0 "length xs" xs c PARSE_CONTINUE c1 ys] assms(1,4) by (simp add: exec_bytes_def same_place_def)
  have "execute V (xs @ ys) (length (xs @ ys)) 0 c = execute V (xs @ ys) (length (xs @ ys)) (m_current c1) c1"
    using execute_longer [OF _ _ _ assms(1) m, of "length (xs @ ys)"] assms(3) by simp
  moreover have "execute V (xs @ ys) (length (xs @ ys)) (m_current c1) c1 = Some (r, shift (m_current c1) c2)"
    using execute_bytes [of V "m_current c1" "length (xs @ ys)" "xs @ ys" c1 r c2] assms(2,5) z by simp
  ultimately show ?thesis by (simp add: exec_bytes_def)
qed

end
