(* ===== verification/Mp_Stream.thy ===== *)
theory Mp_Stream
  imports Mp_Resume Mp_Zone
begin

text \<open>
  The class \<^verbatim>\<open>parser\<close> of \<^verbatim>\<open>msgpack-c/include/msgpack/v2/parse.hpp\<close>: a buffer that the caller fills, which
  starts with a reference counter (\<^verbatim>\<open>init_count\<close>, \<^verbatim>\<open>decr_count\<close>, \<^verbatim>\<open>incr_count\<close> in \<^verbatim>\<open>v1/unpack.hpp\<close>), and a
  parser context that goes on where the bytes ended. Buffers are numbered; a number is never used again.
  \<^const>\<open>None\<close> is an access to a buffer that was freed, or outside of one.
\<close>

subsection \<open>Counted buffers\<close>

abbreviation (input) COUNTER_SIZE :: nat where "COUNTER_SIZE \<equiv> 4"

text \<open>The first four bytes of a block are the counter, which is kept apart.\<close>

record rc_buffer =
  rc_count :: "32 word"
  rc_bytes :: "byte list"

type_synonym rc_heap = "nat \<rightharpoonup> rc_buffer"

definition init_count :: "byte list \<Rightarrow> rc_buffer" where
  "init_count d = \<lparr>rc_count = 1, rc_bytes = d\<rparr>"

definition decr_count :: "nat \<Rightarrow> rc_heap \<Rightarrow> rc_heap option" where
  "decr_count p H = do {
     b \<leftarrow> H p;
     Some (if rc_count b - 1 = 0 then H(p := None) else H(p \<mapsto> b\<lparr>rc_count := rc_count b - 1\<rparr>)) }"

definition incr_count :: "nat \<Rightarrow> rc_heap \<Rightarrow> rc_heap option" where
  "incr_count p H = do { b \<leftarrow> H p; Some (H(p \<mapsto> b\<lparr>rc_count := rc_count b + 1\<rparr>)) }"

definition get_count :: "nat \<Rightarrow> rc_heap \<Rightarrow> 32 word option" where
  "get_count p H = map_option rc_count (H p)"

subsection \<open>\<^verbatim>\<open>parser\<close>\<close>

text \<open>What the class expects of its visitor holder, with the hook that is called for a buffer that the
  visitor refers to and the parser gives up.\<close>

record 'v holder =
  ho_visitor :: "'v visitor"
  ho_referenced :: "'v \<Rightarrow> bool"
  ho_set_referenced :: "bool \<Rightarrow> 'v \<Rightarrow> 'v"
  ho_hook :: "nat \<Rightarrow> 'v \<Rightarrow> mp_exn option \<times> 'v"

record 'v parser =
  m_buffer :: nat
  m_used :: nat
  m_free :: nat
  m_off :: nat
  m_parsed :: nat
  m_initial_buffer_size :: nat
  px_context :: "'v mp_context"
  px_heap :: rc_heap
  px_next :: nat

definition px_visitor :: "'v parser \<Rightarrow> 'v" where
  "px_visitor p = m_visitor (px_context p)"

definition px_set_visitor :: "'v \<Rightarrow> 'v parser \<Rightarrow> 'v parser" where
  "px_set_visitor v p = p\<lparr>px_context := (px_context p)\<lparr>m_visitor := v\<rparr>\<rparr>"

definition parser_new :: "heap_env \<Rightarrow> nat \<Rightarrow> 'v \<Rightarrow> mp_exn + 'v parser" where
  "parser_new h initial_buffer_size v =
     (let sz = (if initial_buffer_size < COUNTER_SIZE then COUNTER_SIZE else initial_buffer_size) in
      case malloc h (of_nat sz) of
        None \<Rightarrow> Inl bad_alloc
      | Some d \<Rightarrow> Inr
          \<lparr>m_buffer = 1, m_used = COUNTER_SIZE, m_free = sz - COUNTER_SIZE, m_off = COUNTER_SIZE, m_parsed = 0,
           m_initial_buffer_size = sz, px_context = context_new v, px_heap = [1 \<mapsto> init_count d], px_next = 2\<rparr>)"

definition parser_delete :: "'v parser \<Rightarrow> rc_heap option" where
  "parser_delete p = (if m_buffer p = 0 then Some (px_heap p) else decr_count (m_buffer p) (px_heap p))"

text \<open>The move constructor: the new parser and what is left of the other one.\<close>

definition parser_move :: "'v parser \<Rightarrow> 'v parser \<times> 'v parser" where
  "parser_move p = (p, p\<lparr>m_buffer := 0, m_used := 0, m_free := 0, m_off := 0, m_parsed := 0\<rparr>)"

text \<open>The three parts of \<^verbatim>\<open>expand_buffer\<close>: rewinding, a larger block for the same bytes, and a new block for
  the bytes that are not parsed. The doubling loop is that of the zone.\<close>

definition can_rewind :: "'v holder \<Rightarrow> rc_buffer \<Rightarrow> 'v parser \<Rightarrow> bool" where
  "can_rewind ho b p \<longleftrightarrow> m_used p = m_off p \<and> rc_count b = 1 \<and> \<not> ho_referenced ho (px_visitor p)"

definition rewind :: "'v parser \<Rightarrow> 'v parser" where
  "rewind p = p\<lparr>m_free := u64 (m_free p + (m_used p - COUNTER_SIZE)), m_used := COUNTER_SIZE, m_off := COUNTER_SIZE\<rparr>"

definition grow_buffer :: "heap_env \<Rightarrow> nat \<Rightarrow> rc_buffer \<Rightarrow> 'v parser \<Rightarrow> mp_exn option \<times> 'v parser" where
  "grow_buffer h sz b p =
     (let next_size = expand_size (u64 ((m_used p + m_free p) * 2)) (u64 (sz + m_used p)) in
      case realloc h (rc_bytes b) (of_nat next_size) of
        None \<Rightarrow> (Some bad_alloc, p)
      | Some d \<Rightarrow> (None, p\<lparr>px_heap := (px_heap p)(m_buffer p := None, px_next p \<mapsto> b\<lparr>rc_bytes := d\<rparr>),
          m_buffer := px_next p, px_next := px_next p + 1, m_free := u64 (next_size + (2 ^ 64 - m_used p))\<rparr>))"

definition new_buffer :: "nat \<Rightarrow> nat \<Rightarrow> byte list \<Rightarrow> rc_heap \<Rightarrow> 'v parser \<Rightarrow> 'v parser" where
  "new_buffer next_size not_parsed d H p =
     p\<lparr>px_heap := H(px_next p \<mapsto> init_count d), m_buffer := px_next p, px_next := px_next p + 1,
       m_used := not_parsed + COUNTER_SIZE, m_free := u64 (next_size + (2 ^ 64 - (not_parsed + COUNTER_SIZE))),
       m_off := COUNTER_SIZE\<rparr>"

definition change_buffer :: "'v holder \<Rightarrow> heap_env \<Rightarrow> nat \<Rightarrow> rc_buffer \<Rightarrow> 'v parser \<Rightarrow> (mp_exn option \<times> 'v parser) option" where
  "change_buffer ho h sz b p =
     (let not_parsed = m_used p - m_off p;
          next_size = expand_size (m_initial_buffer_size p) (u64 (sz + not_parsed + COUNTER_SIZE)) in
      case malloc h (of_nat next_size) of
        None \<Rightarrow> Some (Some bad_alloc, p)
      | Some d \<Rightarrow> do {
          src \<leftarrow> mem_range (rc_bytes b) (m_off p) not_parsed;
          d \<leftarrow> mem_write d COUNTER_SIZE src;
          if ho_referenced ho (px_visitor p)
          then case ho_hook ho (m_buffer p) (px_visitor p) of
              (Some x, v) \<Rightarrow> Some (Some x, px_set_visitor v p)
            | (None, v) \<Rightarrow>
                Some (None, new_buffer next_size not_parsed d (px_heap p) (px_set_visitor (ho_set_referenced ho False v) p))
          else do {
            H \<leftarrow> decr_count (m_buffer p) (px_heap p);
            Some (None, new_buffer next_size not_parsed d H p) } })"

definition parser_expand_buffer :: "'v holder \<Rightarrow> heap_env \<Rightarrow> nat \<Rightarrow> 'v parser \<Rightarrow> (mp_exn option \<times> 'v parser) option" where
  "parser_expand_buffer ho h sz p = do {
     b \<leftarrow> px_heap p (m_buffer p);
     let p = (if can_rewind ho b p then rewind p else p);
     if can_rewind ho b p \<and> sz \<le> m_free p then Some (None, p)
     else if m_off p = COUNTER_SIZE then Some (grow_buffer h sz b p)
     else change_buffer ho h sz b p }"

definition reserve_buffer :: "'v holder \<Rightarrow> heap_env \<Rightarrow> nat \<Rightarrow> 'v parser \<Rightarrow> (mp_exn option \<times> 'v parser) option" where
  "reserve_buffer ho h sz p = (if sz \<le> m_free p then Some (None, p) else parser_expand_buffer ho h sz p)"

text \<open>The caller copies bytes to \<^verbatim>\<open>buffer()\<close>.\<close>

definition copy_to_buffer :: "byte list \<Rightarrow> 'v parser \<Rightarrow> 'v parser option" where
  "copy_to_buffer bs p = do {
     b \<leftarrow> px_heap p (m_buffer p);
     d \<leftarrow> mem_write (rc_bytes b) (m_used p) bs;
     Some (p\<lparr>px_heap := (px_heap p)(m_buffer p \<mapsto> b\<lparr>rc_bytes := d\<rparr>)\<rparr>) }"

definition buffer_consumed :: "nat \<Rightarrow> 'v parser \<Rightarrow> 'v parser" where
  "buffer_consumed sz p = p\<lparr>m_used := u64 (m_used p + sz), m_free := u64 (m_free p + (2 ^ 64 - sz))\<rparr>"

definition execute_imp :: "'v holder \<Rightarrow> 'v parser \<Rightarrow> (parse_return \<times> 'v parser) option" where
  "execute_imp ho p = do {
     b \<leftarrow> px_heap p (m_buffer p);
     (ret, c) \<leftarrow> execute (ho_visitor ho) (rc_bytes b) (m_used p) (m_off p) (px_context p);
     let off = (case ret of THROWN x \<Rightarrow> m_off p | _ \<Rightarrow> m_current c);
     let parsed = (case ret of THROWN x \<Rightarrow> m_parsed p | _ \<Rightarrow> if m_off p < off then m_parsed p + (off - m_off p) else m_parsed p);
     Some (ret, p\<lparr>px_context := c, m_off := off, m_parsed := parsed\<rparr>) }"

definition parser_next :: "'v holder \<Rightarrow> 'v parser \<Rightarrow> ((mp_exn + bool) \<times> 'v parser) option" where
  "parser_next ho p = do {
     (ret, p) \<leftarrow> execute_imp ho p;
     Some (case ret of THROWN x \<Rightarrow> Inl x | _ \<Rightarrow> Inr (ret = PARSE_SUCCESS), p) }"

definition parser_reset :: "'v holder \<Rightarrow> 'v parser \<Rightarrow> 'v parser" where
  "parser_reset ho p = p\<lparr>px_context := context_init (ho_visitor ho) (px_context p), m_parsed := 0\<rparr>"

definition message_size :: "'v parser \<Rightarrow> nat" where
  "message_size p = u64 (m_parsed p + (2 ^ 64 - m_off p) + m_used p)"

definition parsed_size :: "'v parser \<Rightarrow> nat" where
  "parsed_size p = m_parsed p"

definition nonparsed_size :: "'v parser \<Rightarrow> nat" where
  "nonparsed_size p = u64 (m_used p + (2 ^ 64 - m_off p))"

definition nonparsed_buffer :: "'v parser \<Rightarrow> byte list option" where
  "nonparsed_buffer p = do { b \<leftarrow> px_heap p (m_buffer p); mem_range (rc_bytes b) (m_off p) (nonparsed_size p) }"

definition skip_nonparsed_buffer :: "nat \<Rightarrow> 'v parser \<Rightarrow> 'v parser" where
  "skip_nonparsed_buffer sz p = p\<lparr>m_off := u64 (m_off p + sz)\<rparr>"

definition remove_nonparsed_buffer :: "'v parser \<Rightarrow> 'v parser" where
  "remove_nonparsed_buffer p = p\<lparr>m_used := m_off p\<rparr>"

text \<open>How a caller feeds a piece of the stream: reserve, copy, notify, parse.\<close>

definition parser_feed :: "'v holder \<Rightarrow> heap_env \<Rightarrow> byte list \<Rightarrow> 'v parser \<Rightarrow> ((mp_exn + bool) \<times> 'v parser) option" where
  "parser_feed ho h bs p = do {
     (x, p) \<leftarrow> reserve_buffer ho h (length bs) p;
     case x of
       Some x \<Rightarrow> Some (Inl x, p)
     | None \<Rightarrow> do {
         p \<leftarrow> copy_to_buffer bs p;
         parser_next ho (buffer_consumed (length bs) p) } }"

fun parser_feeds :: "'v holder \<Rightarrow> heap_env \<Rightarrow> byte list list \<Rightarrow> 'v parser \<Rightarrow> ((mp_exn + bool) list \<times> 'v parser) option" where
  "parser_feeds ho h [] p = Some ([], p)"
| "parser_feeds ho h (bs # css) p = do {
     (r, p) \<leftarrow> parser_feed ho h bs p;
     (rs, p) \<leftarrow> parser_feeds ho h css p;
     Some (r # rs, p) }"

subsection \<open>The buffer as a queue of bytes\<close>

definition unread :: "'v parser \<Rightarrow> byte list" where
  "unread p = (case px_heap p (m_buffer p) of Some b \<Rightarrow> take (m_used p - m_off p) (drop (m_off p) (rc_bytes b)) | None \<Rightarrow> [])"

definition parser_ok :: "'v parser \<Rightarrow> bool" where
  "parser_ok p \<longleftrightarrow>
     (\<exists>b. px_heap p (m_buffer p) = Some b \<and> m_used p + m_free p = length (rc_bytes b) \<and> length (rc_bytes b) < 2 ^ 64) \<and>
     COUNTER_SIZE \<le> m_off p \<and> m_off p \<le> m_used p \<and> m_initial_buffer_size p < 2 ^ 64 \<and> (\<forall>q \<ge> px_next p. px_heap p q = None)"

lemma parser_okE:
  assumes "parser_ok p"
  obtains b where "px_heap p (m_buffer p) = Some b" "m_used p + m_free p = length (rc_bytes b)" "length (rc_bytes b) < 2 ^ 64"
    "4 \<le> m_off p" "m_off p \<le> m_used p" "m_initial_buffer_size p < 2 ^ 64" "\<forall>q \<ge> px_next p. px_heap p q = None"
  using assms by (auto simp: parser_ok_def)

lemma parser_new_ok:
  assumes "parser_new h n v = Inr p" and "n < 2 ^ 64"
  shows "parser_ok p \<and> unread p = [] \<and> m_used p = 4 \<and> m_parsed p = 0 \<and> px_context p = context_new v"
proof -
  define sz where "sz = (if n < 4 then 4 else n)"
  have sz: "sz < 2 ^ 64" "4 \<le> sz" "unat (of_nat sz :: 64 word) = sz" using assms(2) by (auto simp: sz_def unat_of_nat)
  then show ?thesis using assms(1) malloc_length [of h "of_nat sz"]
    unfolding parser_new_def sz_def [symmetric] Let_def
    by (auto simp: parser_ok_def unread_def init_count_def split: option.splits)
qed

lemma u64_sub: "n \<le> m \<Longrightarrow> m < 2 ^ 64 \<Longrightarrow> u64 (m + (2 ^ 64 - n)) = m - n"
proof -
  assume a: "n \<le> m" "m < 2 ^ 64"
  then have "m + (2 ^ 64 - n) = (m - n) + 2 ^ 64" by simp
  then have "u64 (m + (2 ^ 64 - n)) = u64 ((m - n) + 2 ^ 64)" by simp
  also have "\<dots> = m - n" unfolding u64_def by (subst mod_add_self2) (use a in simp)
  finally show ?thesis .
qed

lemma expand_size_fits: "sz < 2 ^ 64 \<Longrightarrow> num < 2 ^ 64 \<Longrightarrow> num \<le> expand_size sz num \<and> expand_size sz num < 2 ^ 64"
proof (induction sz num rule: expand_size.induct)
  case (1 sz num)
  have "u64 (sz * 2) < 2 ^ 64" by (simp add: u64_def)
  then show ?case using 1 by (subst (1 2) expand_size.simps) (auto simp: Let_def)
qed

lemma realloc_keeps:
  assumes "realloc h old n = Some d" and "k \<le> unat n" and "k \<le> length old"
  shows "length d = unat n" and "take k d = take k old"
  using assms malloc_length [of h n] by (auto simp: realloc_def min_def split: option.splits)

lemma nonparsed_size_unread: "parser_ok p \<Longrightarrow> nonparsed_size p = length (unread p)"
proof -
  assume "parser_ok p"
  then obtain b where "px_heap p (m_buffer p) = Some b" "m_used p + m_free p = length (rc_bytes b)" "length (rc_bytes b) < 2 ^ 64"
      "m_off p \<le> m_used p" by (rule parser_okE)
  then show ?thesis using u64_sub [of "m_off p" "m_used p"] by (simp add: nonparsed_size_def unread_def)
qed

text \<open>What \<open>reserve_buffer\<close> leaves.\<close>

definition same_stream :: "'v parser \<Rightarrow> 'v parser \<Rightarrow> bool" where
  "same_stream p p' \<longleftrightarrow>
     parser_ok p' \<and> unread p' = unread p \<and> m_parsed p' = m_parsed p \<and> m_used p' \<le> m_used p \<and>
     (\<exists>v. px_context p' = (px_context p)\<lparr>m_visitor := v\<rparr>)"

lemma same_visitor: "px_context p' = px_context p \<Longrightarrow> \<exists>v. px_context p' = (px_context p)\<lparr>m_visitor := v\<rparr>"
  by (intro exI [of _ "m_visitor (px_context p)"]) simp

lemma same_stream_refl: "parser_ok p \<Longrightarrow> same_stream p p"
  by (simp add: same_stream_def same_visitor)

lemma same_stream_trans: "same_stream p q \<Longrightarrow> same_stream q r \<Longrightarrow> same_stream p r"
  by (auto simp: same_stream_def)

lemma same_stream_visitor: "parser_ok p \<Longrightarrow> same_stream p (px_set_visitor v p)"
  by (auto simp: same_stream_def px_set_visitor_def parser_ok_def unread_def)

text \<open>What becomes of the buffer: it stays; the hook refuses it; \<^verbatim>\<open>realloc\<close> moves it, and nothing was parsed from it
  or nobody else has it; it is given up, to the hook when the visitor refers to it.\<close>

inductive turnover :: "'v holder \<Rightarrow> rc_buffer \<Rightarrow> 'v parser \<Rightarrow> 'v parser \<Rightarrow> bool" for ho b p where
  kept: "m_buffer p' = m_buffer p \<Longrightarrow> px_heap p' = px_heap p \<Longrightarrow> px_context p' = px_context p \<Longrightarrow>
    m_off p' = m_off p \<or> can_rewind ho b p \<Longrightarrow> turnover ho b p p'"
| refused: "ho_referenced ho (px_visitor p) \<Longrightarrow> ho_hook ho (m_buffer p) (px_visitor p) = (Some x, v) \<Longrightarrow>
    turnover ho b p (px_set_visitor v p)"
| grown: "m_off p = 4 \<or> can_rewind ho b p \<Longrightarrow> m_buffer p' = px_next p \<Longrightarrow> px_context p' = px_context p \<Longrightarrow> m_off p' = 4 \<Longrightarrow>
    px_heap p' = (px_heap p)(m_buffer p := None, px_next p \<mapsto> b\<lparr>rc_bytes := d\<rparr>) \<Longrightarrow> turnover ho b p p'"
| released: "\<not> ho_referenced ho (px_visitor p) \<Longrightarrow> m_off p \<noteq> 4 \<Longrightarrow> m_buffer p' = px_next p \<Longrightarrow> px_context p' = px_context p \<Longrightarrow>
    m_off p' = 4 \<Longrightarrow> decr_count (m_buffer p) (px_heap p) = Some H \<Longrightarrow> px_heap p' = H(px_next p \<mapsto> init_count d) \<Longrightarrow> turnover ho b p p'"
| handed: "ho_referenced ho (px_visitor p) \<Longrightarrow> m_off p \<noteq> 4 \<Longrightarrow> ho_hook ho (m_buffer p) (px_visitor p) = (None, v) \<Longrightarrow>
    m_buffer p' = px_next p \<Longrightarrow> px_context p' = (px_context p)\<lparr>m_visitor := ho_set_referenced ho False v\<rparr> \<Longrightarrow>
    m_off p' = 4 \<Longrightarrow> px_heap p' = (px_heap p)(px_next p \<mapsto> init_count d) \<Longrightarrow> turnover ho b p p'"

lemma turnover_context: "turnover ho b p p' \<Longrightarrow> \<not> ho_referenced ho (px_visitor p) \<Longrightarrow> px_context p' = px_context p"
  by (cases rule: turnover.cases) auto

lemma rewind_ok:
  assumes "parser_ok p" and "px_heap p (m_buffer p) = Some b" and "can_rewind ho b p"
  shows "same_stream p (rewind p) \<and> m_off (rewind p) = 4 \<and> m_used (rewind p) = 4 \<and> px_heap (rewind p) = px_heap p \<and>
    m_buffer (rewind p) = m_buffer p \<and> px_context (rewind p) = px_context p \<and> px_next (rewind p) = px_next p"
proof -
  have "px_context (rewind p) = px_context p" by (simp add: rewind_def)
  then show ?thesis
    using assms same_visitor [of "rewind p" p]
    by (elim parser_okE) (simp add: same_stream_def, auto simp: parser_ok_def rewind_def can_rewind_def unread_def)
qed

lemma unat_small: "n < 2 ^ 64 \<Longrightarrow> unat (of_nat n :: 64 word) = n"
  by (simp add: unat_of_nat)

lemma grow_ok:
  assumes "parser_ok p" and "px_heap p (m_buffer p) = Some b" and "m_off p = 4" and "sz + m_used p < 2 ^ 64"
    and "grow_buffer h sz b p = (x, p')"
  shows "same_stream p p' \<and> turnover ho b p p' \<and> (x = None \<and> sz \<le> m_free p' \<or> x = Some bad_alloc \<and> p' = p \<and> (\<exists>n. \<not> grants h n))"
proof -
  define n where "n = expand_size (u64 ((m_used p + m_free p) * 2)) (u64 (sz + m_used p))"
  have e: "grow_buffer h sz b p = (case realloc h (rc_bytes b) (of_nat n) of
        None \<Rightarrow> (Some bad_alloc, p)
      | Some d \<Rightarrow> (None, p\<lparr>px_heap := (px_heap p)(m_buffer p := None, px_next p \<mapsto> b\<lparr>rc_bytes := d\<rparr>),
          m_buffer := px_next p, px_next := px_next p + 1, m_free := u64 (n + (2 ^ 64 - m_used p))\<rparr>))"
    unfolding grow_buffer_def Let_def n_def by (rule refl)
  have "u64 ((m_used p + m_free p) * 2) < 2 ^ 64" by (simp add: u64_def)
  then have n: "sz + m_used p \<le> n" "n < 2 ^ 64"
    using expand_size_fits [of "u64 ((m_used p + m_free p) * 2)" "u64 (sz + m_used p)"] assms(4) by (simp_all add: n_def)
  show ?thesis
  proof (cases "realloc h (rc_bytes b) (of_nat n)")
    case None
    then have "\<not> grants h (of_nat n)" by (auto simp: realloc_def malloc_def split: option.splits if_splits)
    then show ?thesis using None assms(1,5) unfolding e by (auto simp: same_stream_refl intro: turnover.kept)
  next
    case (Some d)
    have b: "m_used p + m_free p = length (rc_bytes b)" using assms(1,2) by (auto elim: parser_okE)
    have d: "length d = n" "take (m_used p) d = take (m_used p) (rc_bytes b)"
      using realloc_keeps [OF Some, of "m_used p"] n b unat_small [OF n(2)] by simp_all
    have x: "x = None" "p' = p\<lparr>px_heap := (px_heap p)(m_buffer p := None, px_next p \<mapsto> b\<lparr>rc_bytes := d\<rparr>),
          m_buffer := px_next p, px_next := px_next p + 1, m_free := n - m_used p\<rparr>"
      using Some assms(5) n u64_sub [of "m_used p" n] unfolding e by simp_all
    have "take (m_used p - m_off p) (drop (m_off p) d) = take (m_used p - m_off p) (drop (m_off p) (rc_bytes b))"
      using d(2) by (metis drop_take)
    then have "same_stream p p'" using assms(1,2) n d(1) same_visitor [of p' p]
      by (elim parser_okE) (auto simp: same_stream_def parser_ok_def unread_def x)
    moreover have "turnover ho b p p'" by (rule turnover.grown [where d = d]) (simp_all add: x assms(3))
    ultimately show ?thesis using n by (simp add: x)
  qed
qed

lemma change_ok:
  assumes "parser_ok p" and "px_heap p (m_buffer p) = Some b" and "m_off p \<noteq> 4" and "sz + m_used p < 2 ^ 64"
  shows "\<exists>x p'. change_buffer ho h sz b p = Some (x, p') \<and> same_stream p p' \<and> turnover ho b p p' \<and>
     (x = None \<longrightarrow> sz \<le> m_free p') \<and> (\<not> ho_referenced ho (px_visitor p) \<and> x \<noteq> None \<longrightarrow> x = Some bad_alloc \<and> (\<exists>n. \<not> grants h n))"
proof -
  define np where "np = m_used p - m_off p"
  define n where "n = expand_size (m_initial_buffer_size p) (u64 (sz + np + 4))"
  have p: "4 \<le> m_off p" "m_off p \<le> m_used p" "m_used p + m_free p = length (rc_bytes b)" "\<forall>q \<ge> px_next p. px_heap p q = None"
      "m_initial_buffer_size p < 2 ^ 64"
    using assms(1,2) by (auto elim: parser_okE)
  have le: "sz + np + 4 \<le> sz + m_used p" using p by (simp add: np_def)
  then have n: "sz + np + 4 \<le> n" "n < 2 ^ 64"
    using expand_size_fits [of "m_initial_buffer_size p" "u64 (sz + np + 4)"] assms(4) p(5) by (simp_all add: n_def)
  show ?thesis
  proof (cases "malloc h (of_nat n)")
    case None
    then have "\<not> grants h (of_nat n)" by (simp add: malloc_def split: if_splits)
    then show ?thesis using None assms(1)
      unfolding change_buffer_def np_def [symmetric] Let_def n_def [symmetric] by (auto simp: same_stream_refl intro: turnover.kept)
  next
    case (Some d)
    have d: "length d = n" using malloc_length [OF Some] unat_small [OF n(2)] by simp
    define src where "src = take np (drop (m_off p) (rc_bytes b))"
    have src: "mem_range (rc_bytes b) (m_off p) np = Some src" "length src = np" using p by (simp_all add: np_def src_def)
    define d' where "d' = take 4 d @ src @ drop (4 + np) d"
    have d': "mem_write d 4 src = Some d'" "length d' = n" "take np (drop 4 d') = src" using n d src(2) by (simp_all add: d'_def)
    have f: "u64 (n + (2 ^ 64 - (np + 4))) = n - (np + 4)" using n u64_sub [of "np + 4" n] by simp
    have sel: "m_free (new_buffer n np d' H q) = n - (np + 4)" "m_used (new_buffer n np d' H q) = np + 4" "m_off (new_buffer n np d' H q) = 4"
        "m_buffer (new_buffer n np d' H q) = px_next q" "px_next (new_buffer n np d' H q) = px_next q + 1"
        "px_heap (new_buffer n np d' H q) = H(px_next q \<mapsto> init_count d')" "m_parsed (new_buffer n np d' H q) = m_parsed q"
        "m_initial_buffer_size (new_buffer n np d' H q) = m_initial_buffer_size q" "px_context (new_buffer n np d' H q) = px_context q" for H q
      unfolding new_buffer_def f by simp_all
    have sv: "px_next (px_set_visitor v p) = px_next p" "m_parsed (px_set_visitor v p) = m_parsed p"
        "m_initial_buffer_size (px_set_visitor v p) = m_initial_buffer_size p"
        "px_context (px_set_visitor v p) = (px_context p)\<lparr>m_visitor := v\<rparr>" for v
      by (simp_all add: px_set_visitor_def)
    have "m_buffer p < px_next p" using p(4) assms(2) by (metis not_le option.distinct(1))
    moreover have "unread p = src" using assms(2) by (simp add: unread_def src_def np_def)
    moreover have "np + 4 \<le> m_used p" using p(1,2) by (simp add: np_def)
    ultimately have new: "same_stream p (new_buffer n np d' H q)"
      if "\<forall>r \<ge> px_next p. H r = None" "q = p \<or> q = px_set_visitor v p" for H q v
      using that n d' p(5) by (auto simp: same_stream_def parser_ok_def unread_def sel sv init_count_def same_visitor)
    have room: "sz \<le> m_free (new_buffer n np d' H q)" for H q using n(1) by (simp add: sel)
    have c: "change_buffer ho h sz b p =
       (if ho_referenced ho (px_visitor p)
        then case ho_hook ho (m_buffer p) (px_visitor p) of
            (Some x, v) \<Rightarrow> Some (Some x, px_set_visitor v p)
          | (None, v) \<Rightarrow> Some (None, new_buffer n np d' (px_heap p) (px_set_visitor (ho_set_referenced ho False v) p))
        else do { H \<leftarrow> decr_count (m_buffer p) (px_heap p); Some (None, new_buffer n np d' H p) })"
      using Some src(1) d'(1) unfolding change_buffer_def np_def [symmetric] Let_def n_def [symmetric] by simp
    show ?thesis
    proof (cases "ho_referenced ho (px_visitor p)")
      case False
      obtain H where H: "decr_count (m_buffer p) (px_heap p) = Some H" using assms(2) by (simp add: decr_count_def)
      then have "\<forall>r \<ge> px_next p. H r = None" using p(4) \<open>m_buffer p < px_next p\<close> assms(2) by (auto simp: decr_count_def split: if_splits)
      moreover have "turnover ho b p (new_buffer n np d' H p)"
        by (rule turnover.released [OF False assms(3) _ _ _ H]) (simp_all add: sel)
      ultimately show ?thesis using H False new room by (simp add: c)
    next
      case True
      obtain x v where hk: "ho_hook ho (m_buffer p) (px_visitor p) = (x, v)" by force
      show ?thesis
      proof (cases x)
        case None
        let ?p = "new_buffer n np d' (px_heap p) (px_set_visitor (ho_set_referenced ho False v) p)"
        have "turnover ho b p ?p"
          by (rule turnover.handed [OF True assms(3) hk [unfolded None]]) (simp_all add: sel sv)
        moreover have "same_stream p ?p" by (rule new [OF p(4) disjI2]) (rule refl)
        ultimately show ?thesis using True hk None room by (simp add: c)
      next
        case (Some x')
        then show ?thesis using True hk assms(1) turnover.refused [OF True, of x' v b] by (simp add: c same_stream_visitor)
      qed
    qed
  qed
qed

lemma turnover_rewound:
  assumes "parser_ok p" and "px_heap p (m_buffer p) = Some b" and "can_rewind ho b p" and "turnover ho b (rewind p) p'" and "m_off p' = 4"
  shows "turnover ho b p p'"
proof -
  have r: "m_buffer (rewind p) = m_buffer p" "px_heap (rewind p) = px_heap p" "px_context (rewind p) = px_context p" "px_next (rewind p) = px_next p"
      "px_visitor (rewind p) = px_visitor p" "m_off (rewind p) = 4"
    using rewind_ok [OF assms(1-3)] by (simp_all add: px_visitor_def)
  have "\<not> ho_referenced ho (px_visitor p)" using assms(3) by (simp add: can_rewind_def)
  with assms(4) show ?thesis using assms(3) r
    by (cases rule: turnover.cases) (auto intro: turnover.kept turnover.grown)
qed

lemma reserve_ok:
  assumes "parser_ok p" and "px_heap p (m_buffer p) = Some b" and "sz + m_used p < 2 ^ 64"
  shows "\<exists>x p'. reserve_buffer ho h sz p = Some (x, p') \<and> same_stream p p' \<and> turnover ho b p p' \<and>
     (x = None \<longrightarrow> sz \<le> m_free p') \<and> (\<not> ho_referenced ho (px_visitor p) \<and> x \<noteq> None \<longrightarrow> x = Some bad_alloc \<and> (\<exists>n. \<not> grants h n))"
proof (cases "sz \<le> m_free p")
  case True
  then show ?thesis using assms(1) by (auto simp: reserve_buffer_def same_stream_refl intro: turnover.kept)
next
  case small: False
  show ?thesis
  proof (cases "can_rewind ho b p")
    case True
    let ?q = "rewind p"
    have q: "same_stream p ?q" "m_off ?q = 4" "px_heap ?q (m_buffer ?q) = Some b" "parser_ok ?q" "sz + m_used ?q < 2 ^ 64"
        "m_buffer ?q = m_buffer p" "px_heap ?q = px_heap p" "px_context ?q = px_context p"
      using rewind_ok [OF assms(1,2) True] assms(2,3) by (auto simp: same_stream_def)
    have e: "reserve_buffer ho h sz p = (if sz \<le> m_free ?q \<and> can_rewind ho b ?q then Some (None, ?q) else Some (grow_buffer h sz b ?q))"
      using small assms(2) True q(2) by (simp add: reserve_buffer_def parser_expand_buffer_def Let_def)
    obtain x p' where g: "grow_buffer h sz b ?q = (x, p')" by force
    note grown = grow_ok [OF q(4,3,2,5) g, of ho]
    have "m_off p' = 4" using g q(2) by (auto simp: grow_buffer_def Let_def split: option.splits)
    then have "turnover ho b p p'" using turnover_rewound [OF assms(1,2) True] grown by blast
    moreover have "turnover ho b p ?q" by (rule turnover.kept) (use q(6-8) True in simp_all)
    ultimately show ?thesis using grown g q(1) same_stream_trans [OF q(1)] by (auto simp: e)
  next
    case False
    have e: "reserve_buffer ho h sz p = (if m_off p = 4 then Some (grow_buffer h sz b p) else change_buffer ho h sz b p)"
      using small assms(2) False by (simp add: reserve_buffer_def parser_expand_buffer_def Let_def)
    show ?thesis
    proof (cases "m_off p = 4")
      case True
      obtain x p' where g: "grow_buffer h sz b p = (x, p')" by force
      show ?thesis using grow_ok [OF assms(1,2) True assms(3) g, of ho] True g by (auto simp: e)
    next
      case False
      then show ?thesis using change_ok [OF assms(1,2) False assms(3), of ho h] by (simp add: e)
    qed
  qed
qed

subsection \<open>Feeding\<close>

text \<open>The bytes that the caller adds.\<close>

lemma copy_ok:
  assumes "parser_ok p" and "length bs \<le> m_free p"
  shows "\<exists>p'. copy_to_buffer bs p = Some p' \<and> parser_ok (buffer_consumed (length bs) p') \<and>
     unread (buffer_consumed (length bs) p') = unread p @ bs \<and>
     m_used (buffer_consumed (length bs) p') = m_used p + length bs \<and>
     m_parsed (buffer_consumed (length bs) p') = m_parsed p \<and> px_context (buffer_consumed (length bs) p') = px_context p \<and>
     m_buffer (buffer_consumed (length bs) p') = m_buffer p \<and> m_off (buffer_consumed (length bs) p') = m_off p \<and>
     (\<forall>b. px_heap p (m_buffer p) = Some b \<longrightarrow>
       (\<exists>d. px_heap (buffer_consumed (length bs) p') = (px_heap p)(m_buffer p \<mapsto> b\<lparr>rc_bytes := d\<rparr>) \<and>
         take (m_off p) d = take (m_off p) (rc_bytes b)))"
proof -
  obtain b where b: "px_heap p (m_buffer p) = Some b" "m_used p + m_free p = length (rc_bytes b)" "length (rc_bytes b) < 2 ^ 64"
      "4 \<le> m_off p" "m_off p \<le> m_used p" "m_initial_buffer_size p < 2 ^ 64" "\<forall>q \<ge> px_next p. px_heap p q = None"
    using assms(1) by (rule parser_okE)
  define d where "d = take (m_used p) (rc_bytes b) @ bs @ drop (m_used p + length bs) (rc_bytes b)"
  define p1 where "p1 = p\<lparr>px_heap := (px_heap p)(m_buffer p \<mapsto> b\<lparr>rc_bytes := d\<rparr>)\<rparr>"
  define p2 where "p2 = p1\<lparr>m_used := m_used p + length bs, m_free := m_free p - length bs\<rparr>"
  have c: "copy_to_buffer bs p = Some p1" using b(1,2) assms(2) by (simp add: copy_to_buffer_def p1_def d_def)
  have w: "u64 (m_used p + length bs) = m_used p + length bs" unfolding u64_def by (rule mod_less) (use b(2,3) assms(2) in linarith)
  have f: "u64 (m_free p + (2 ^ 64 - length bs)) = m_free p - length bs" using u64_sub [OF assms(2)] b(2,3) by simp
  have e: "buffer_consumed (length bs) p1 = p2" unfolding buffer_consumed_def p2_def by (simp add: p1_def w f [simplified])
  have d: "length d = length (rc_bytes b)" using b(2) assms(2) by (simp add: d_def)
  have "take (m_used p + length bs - m_off p) (drop (m_off p) d) =
      take (m_used p - m_off p) (drop (m_off p) (rc_bytes b)) @ bs"
    using b(2,5) assms(2) by (simp add: d_def drop_take)
  then have "unread p2 = unread p @ bs" using b(1) by (simp add: unread_def p2_def p1_def)
  moreover have "parser_ok p2" using b d assms(2) by (auto simp: parser_ok_def p2_def p1_def)
  moreover have "take (m_off p) d = take (m_off p) (rc_bytes b)" using b(2,5) by (simp add: d_def)
  moreover have "px_heap p2 = (px_heap p)(m_buffer p \<mapsto> b\<lparr>rc_bytes := d\<rparr>)" by (simp add: p2_def p1_def)
  ultimately show ?thesis using c b(1) by (simp add: e) (auto simp: p2_def p1_def)
qed

definition next_answer :: "parse_return \<Rightarrow> mp_exn + bool" where
  "next_answer r = (case r of THROWN x \<Rightarrow> Inl x | _ \<Rightarrow> Inr (r = PARSE_SUCCESS))"

lemma exec_bytes_shift [simp]: "exec_bytes V bs (shift k c) = exec_bytes V bs c" "exec_bytes V bs (c\<lparr>m_current := k\<rparr>) = exec_bytes V bs c"
  by (simp_all add: exec_bytes_def execute_def shift_def)

text \<open>What \<open>next\<close> does with the bytes that are not parsed.\<close>

lemma next_ok:
  assumes "parser_ok p" and "ctx_ok (px_context p)" and "\<forall>k. same_place (ho_visitor ho) k"
    and "exec_bytes (ho_visitor ho) (unread p) (px_context p) = Some (r, c)"
  shows "\<exists>p' k. parser_next ho p = Some (next_answer r, p') \<and> parser_ok p' \<and> px_context p' = c\<lparr>m_current := k\<rparr> \<and>
     m_used p' = m_used p \<and> m_buffer p' = m_buffer p \<and> px_heap p' = px_heap p \<and>
     m_off p \<le> m_off p' \<and> (r = PARSE_SUCCESS \<longrightarrow> m_off p < m_off p') \<and>
     ((\<forall>x. r \<noteq> THROWN x) \<longrightarrow> unread p' = drop (m_current c) (unread p) \<and> m_parsed p' = m_parsed p + m_current c)"
proof -
  obtain b where b: "px_heap p (m_buffer p) = Some b" "m_used p + m_free p = length (rc_bytes b)" "length (rc_bytes b) < 2 ^ 64"
      "4 \<le> m_off p" "m_off p \<le> m_used p" "m_initial_buffer_size p < 2 ^ 64" "\<forall>q \<ge> px_next p. px_heap p q = None"
    using assms(1) by (rule parser_okE)
  have u: "unread p = take (m_used p - m_off p) (drop (m_off p) (rc_bytes b))" using b(1) by (simp add: unread_def)
  have l: "m_current c \<le> m_used p - m_off p" "r = PARSE_SUCCESS \<longrightarrow> 0 < m_current c"
    using exec_bytes_total [OF assms(2), of "ho_visitor ho" "unread p"] assms(4) b(2) by (auto simp: u)
  have ex: "execute (ho_visitor ho) (rc_bytes b) (m_used p) (m_off p) (px_context p) = Some (r, shift (m_off p) c)"
    using execute_bytes [of "ho_visitor ho" "m_off p" "m_used p" "rc_bytes b" "px_context p" r c] assms(2-4) b(2,5) by (simp add: u)
  define p' where "p' = p\<lparr>px_context := shift (m_off p) c,
      m_off := (case r of THROWN x \<Rightarrow> m_off p | _ \<Rightarrow> m_off p + m_current c),
      m_parsed := (case r of THROWN x \<Rightarrow> m_parsed p | _ \<Rightarrow> m_parsed p + m_current c)\<rparr>"
  have n: "parser_next ho p = Some (next_answer r, p')"
    using b(1) ex by (cases r) (auto simp: parser_next_def execute_imp_def next_answer_def p'_def Let_def add.commute)
  have ok: "parser_ok p'" using b l(1) by (auto simp: parser_ok_def p'_def split: parse_return.split)
  have "m_off p' = m_off p + m_current c \<Longrightarrow> unread p' = drop (m_current c) (unread p)"
    using b(1) by (simp add: unread_def p'_def drop_take add.commute)
  then show ?thesis using n ok l(2)
    by (intro exI [of _ p'] exI [of _ "m_off p + m_current c"]) (auto simp: p'_def shift_def split: parse_return.splits)
qed

text \<open>A run that ends within the first bytes does not look at what follows.\<close>

lemma exec_bytes_longer:
  assumes "ctx_ok c" and "\<forall>k. same_place V k" and "ys \<noteq> []" and "exec_bytes V xs c = Some (r, c1)" and "r \<noteq> PARSE_CONTINUE"
  shows "exec_bytes V (xs @ ys) c = Some (r, c1)"
proof -
  have m: "execute V (xs @ ys) (length xs) 0 c = Some (r, c1)"
    using execute_moved [of V "[]" 0 "length xs" xs c r c1 ys] assms(1,4) by (simp add: exec_bytes_def same_place_def)
  show ?thesis using execute_longer [OF _ _ _ assms(1) m, of "length (xs @ ys)"] assms(3,5) by (simp add: exec_bytes_def)
qed

lemma drop_drop_append: "m \<le> length xs \<Longrightarrow> drop n (drop m xs @ ys) = drop (n + m) (xs @ ys)"
  by (simp flip: drop_drop)

text \<open>A holder whose visitor refers to no buffer, in the states \<open>I\<close> that a run which waits for bytes stays in.\<close>

locale plain_holder =
  fixes ho :: "'v holder" and I :: "'v mp_context \<Rightarrow> bool"
  assumes anywhere: "same_place (ho_visitor ho) k"
    and quiet: "I c \<Longrightarrow> ctx_ok c \<and> \<not> ho_referenced ho (m_visitor c)"
    and moved_on: "I c \<Longrightarrow> I (c\<lparr>m_current := k\<rparr>)"
    and waits: "I c \<Longrightarrow> exec_bytes (ho_visitor ho) bs c = Some (PARSE_CONTINUE, c') \<Longrightarrow> I c'"
begin

lemma feed_ok:
  assumes "parser_ok p" and "I (px_context p)" and "\<forall>n. grants h n" and "length bs + m_used p < 2 ^ 64"
    and "exec_bytes (ho_visitor ho) (unread p @ bs) (px_context p) = Some (r, c)"
  shows "\<exists>p' k. parser_feed ho h bs p = Some (next_answer r, p') \<and> parser_ok p' \<and> px_context p' = c\<lparr>m_current := k\<rparr> \<and>
     m_used p' \<le> m_used p + length bs \<and>
     ((\<forall>x. r \<noteq> THROWN x) \<longrightarrow> unread p' = drop (m_current c) (unread p @ bs) \<and> m_parsed p' = m_parsed p + m_current c)"
proof -
  have nr: "\<not> ho_referenced ho (px_visitor p)" "ctx_ok (px_context p)" using quiet [OF assms(2)] by (simp_all add: px_visitor_def)
  obtain b where b: "px_heap p (m_buffer p) = Some b" using assms(1) by (rule parser_okE)
  obtain p1 where p1: "reserve_buffer ho h (length bs) p = Some (None, p1)" "same_stream p p1" "length bs \<le> m_free p1"
      "px_context p1 = px_context p"
    using reserve_ok [OF assms(1) b assms(4), of ho h] turnover_context [OF _ nr(1)] nr(1) assms(3) by auto
  obtain p2 where p2: "copy_to_buffer bs p1 = Some p2" "parser_ok (buffer_consumed (length bs) p2)"
      "unread (buffer_consumed (length bs) p2) = unread p @ bs" "m_used (buffer_consumed (length bs) p2) \<le> m_used p + length bs"
      "m_parsed (buffer_consumed (length bs) p2) = m_parsed p" "px_context (buffer_consumed (length bs) p2) = px_context p"
    using copy_ok [of p1 bs] p1 by (auto simp: same_stream_def)
  have V: "\<forall>k. same_place (ho_visitor ho) k" using anywhere by blast
  have "ctx_ok (px_context (buffer_consumed (length bs) p2))"
      "exec_bytes (ho_visitor ho) (unread (buffer_consumed (length bs) p2)) (px_context (buffer_consumed (length bs) p2)) = Some (r, c)"
    using p2(3,6) nr(2) assms(5) by simp_all
  from next_ok [OF p2(2) this(1) V this(2)] show ?thesis
    using p1(1) p2(1,3-5) by (auto simp: parser_feed_def)
qed

text \<open>The pieces of a stream: every piece but the last asks for more, and the last one ends where a run over
  all the bytes ends.\<close>

lemma feeds_ok:
  assumes "\<forall>n. grants h n" and "parser_ok p" and "I (px_context p)"
    and "css \<noteq> []" and "[] \<notin> set css" and "length (concat css) + m_used p < 2 ^ 64"
    and "exec_bytes (ho_visitor ho) (unread p @ concat css) (px_context p) = Some (r, c)"
    and "r = PARSE_CONTINUE \<or> length (unread p @ concat (butlast css)) < m_current c"
  shows "\<exists>p' k. parser_feeds ho h css p = Some (replicate (length css - 1) (Inr False) @ [next_answer r], p') \<and>
     parser_ok p' \<and> px_context p' = c\<lparr>m_current := k\<rparr> \<and>
     ((\<forall>x. r \<noteq> THROWN x) \<longrightarrow> unread p' = drop (m_current c) (unread p @ concat css) \<and> m_parsed p' = m_parsed p + m_current c)"
  using assms(2-8)
proof (induction css arbitrary: p c)
  case (Cons bs css)
  let ?V = "ho_visitor ho" and ?xs = "unread p @ bs"
  have V: "\<forall>k. same_place ?V k" using anywhere by blast
  have ctx: "ctx_ok (px_context p)" using quiet [OF Cons.prems(2)] by blast
  obtain r0 c0 where e0: "exec_bytes ?V ?xs (px_context p) = Some (r0, c0)" "m_current c0 \<le> length ?xs"
      "r0 = PARSE_CONTINUE \<Longrightarrow> ctx_ok c0"
    using exec_bytes_total [OF ctx, of ?V ?xs] by auto
  have "length bs + m_used p < 2 ^ 64" using Cons.prems(5) by simp
  from feed_ok [OF Cons.prems(1,2) assms(1) this e0(1)]
  obtain p1 k1 where p1: "parser_feed ho h bs p = Some (next_answer r0, p1)" "parser_ok p1" "px_context p1 = c0\<lparr>m_current := k1\<rparr>"
      "m_used p1 \<le> m_used p + length bs"
      "(\<forall>x. r0 \<noteq> THROWN x) \<Longrightarrow> unread p1 = drop (m_current c0) ?xs \<and> m_parsed p1 = m_parsed p + m_current c0"
    by blast
  show ?case
  proof (cases "css = []")
    case True
    then show ?thesis using p1 e0(1) Cons.prems(6) by auto
  next
    case False
    then have ne: "concat css \<noteq> []" using Cons.prems(4) by (cases css) auto
    have r0: "r0 = PARSE_CONTINUE"
    proof (rule ccontr)
      assume r0: "r0 \<noteq> PARSE_CONTINUE"
      have "r = r0 \<and> c = c0" using exec_bytes_longer [OF ctx V ne e0(1) r0] Cons.prems(6) by (simp add: append_assoc)
      then show False using Cons.prems(7) e0(2) r0 False by simp
    qed
    then have I: "I (px_context p1)" using waits [OF Cons.prems(2)] moved_on e0(1) p1(3) by simp
    then have ctx1: "ctx_ok (px_context p1)" using quiet by blast
    have u1: "unread p1 = drop (m_current c0) ?xs" "m_parsed p1 = m_parsed p + m_current c0" using p1(5) r0 by simp_all
    obtain r2 c2 where e2: "exec_bytes ?V (unread p1 @ concat css) (px_context p1) = Some (r2, c2)"
      using exec_bytes_total [OF ctx1, of ?V "unread p1 @ concat css"] by auto
    then have rc: "r2 = r" "c = shift (m_current c0) c2"
      using exec_bytes_append [OF ctx V ne e0(1) [unfolded r0], of r2 c2] Cons.prems(6) by (auto simp: u1 p1(3) append_assoc)
    have "\<exists>p' k. parser_feeds ho h css p1 = Some (replicate (length css - 1) (Inr False) @ [next_answer r], p') \<and>
        parser_ok p' \<and> px_context p' = c2\<lparr>m_current := k\<rparr> \<and>
        ((\<forall>x. r \<noteq> THROWN x) \<longrightarrow> unread p' = drop (m_current c2) (unread p1 @ concat css) \<and> m_parsed p' = m_parsed p1 + m_current c2)"
    proof (rule Cons.IH [OF p1(2) I False])
      show "[] \<notin> set css" using Cons.prems(4) by simp
      show "length (concat css) + m_used p1 < 2 ^ 64" using Cons.prems(5) p1(4) by simp
      show "exec_bytes ?V (unread p1 @ concat css) (px_context p1) = Some (r, c2)" using e2 rc(1) by simp
      show "r = PARSE_CONTINUE \<or> length (unread p1 @ concat (butlast css)) < m_current c2"
        using Cons.prems(7) False e0(2) by (auto simp: u1 rc)
    qed
    then obtain p' k where p': "parser_feeds ho h css p1 = Some (replicate (length css - 1) (Inr False) @ [next_answer r], p')"
        "parser_ok p'" "px_context p' = c2\<lparr>m_current := k\<rparr>"
        "(\<forall>x. r \<noteq> THROWN x) \<Longrightarrow> unread p' = drop (m_current c2) (unread p1 @ concat css) \<and> m_parsed p' = m_parsed p1 + m_current c2"
      by blast
    have "replicate (length css) (Inr False) = next_answer r0 # replicate (length css - 1) (Inr False)"
      using False by (cases css) (simp_all add: r0 next_answer_def)
    then have "parser_feeds ho h (bs # css) p = Some (replicate (length (bs # css) - 1) (Inr False) @ [next_answer r], p')"
      using p1(1) p'(1) by simp
    moreover have "px_context p' = c\<lparr>m_current := k\<rparr>" using p'(3) by (simp add: rc shift_def)
    moreover have "drop (m_current c2) (unread p1 @ concat css) = drop (m_current c) (unread p @ concat (bs # css))"
      using drop_drop_append [OF e0(2), of "m_current c2" "concat css"] by (simp add: u1 rc)
    then have "(\<forall>x. r \<noteq> THROWN x) \<longrightarrow>
        unread p' = drop (m_current c) (unread p @ concat (bs # css)) \<and> m_parsed p' = m_parsed p + m_current c"
      using p'(4) by (simp only: u1(2)) (simp add: rc)
    ultimately show ?thesis using p'(2) by blast
  qed
qed simp

text \<open>A value, cut anywhere.\<close>

lemma stream_ok:
  assumes "I (px_context p)" and "\<forall>n. grants h n" and "parser_ok p" and "m_cs (px_context p) = MSGPACK_CS_HEADER"
    and "m_stack (px_context p) = []" and "unread p = []" and "mobj_ok ob"
    and "visit_obj fp (ho_visitor ho) ob (px_visitor p) = Some v"
    and "[] \<notin> set css" and "concat css = enc_value fp ob" and "length (enc_value fp ob) + m_used p < 2 ^ 64"
  shows "\<exists>p'. parser_feeds ho h css p = Some (replicate (length css - 1) (Inr False) @ [Inr True], p') \<and>
     parser_ok p' \<and> px_visitor p' = v \<and> m_stack (px_context p') = [] \<and> unread p' = [] \<and>
     m_parsed p' = m_parsed p + length (enc_value fp ob)"
proof -
  have ne: "css \<noteq> []" using assms(10) enc_value_nonempty [of fp ob] by auto
  obtain c where c: "exec_bytes (ho_visitor ho) (concat css) (px_context p) = Some (PARSE_SUCCESS, c)"
      "m_current c = length (concat css)" "m_visitor c = v" "m_stack c = []"
    using execute_document [OF assms(7,4,5), of "concat css" 0 fp "length (concat css)" "ho_visitor ho" v] assms(8,10)
    by (auto simp: exec_bytes_def px_visitor_def at_bytes_whole [of "[]" _ "[]", simplified])
  have "length (concat (butlast css)) < length (concat css)"
    using ne assms(9) by (induction css rule: rev_induct) auto
  then show ?thesis
    using feeds_ok [OF assms(2,3,1) ne assms(9), of PARSE_SUCCESS c] c assms(6,10,11)
    by (auto simp: px_visitor_def next_answer_def)
qed

end

end
