(* ===== verification/Mp_Vrefbuffer.thy ===== *)
theory Mp_Vrefbuffer
  imports Mp_Sbuffer Mp_Stream
begin

text \<open>
  The buffer that refers to long pieces instead of copying them
  (\<^verbatim>\<open>msgpack-c/include/msgpack/v1/vrefbuffer.hpp\<close>): a vector of \<^verbatim>\<open>iovec\<close>s, of which short ones lie in
  chunks of its own. Pointers into chunks are pairs of a chunk and an offset; the vector is the list of its
  elements up to \<^verbatim>\<open>m_tail\<close>, in a block of \<^verbatim>\<open>malloc\<close> whose address matters for \<^verbatim>\<open>migrate\<close> only. A result
  \<^const>\<open>None\<close> is an access outside of a block; an exception comes with the state it leaves.
\<close>

subsection \<open>State\<close>

datatype iov_base = USER "byte list" | INNER "nat \<times> nat"

record iovec =
  iov_ptr :: iov_base
  iov_len :: nat

text \<open>Chunks without the link at their start; arrays by the number of elements that fit into the block.\<close>

record vmem =
  chunks :: "nat \<rightharpoonup> byte list"
  arrays :: "nat \<rightharpoonup> nat"
  serial :: nat

record vref_env = heap_env +
  array_at :: "nat \<Rightarrow> nat"

record vrefbuffer =
  vr_vec :: "iovec list"
  vr_array :: nat
  vr_cap :: nat
  vr_ref_size :: nat
  vr_chunk_size :: nat
  ib_free :: nat
  ib_ptr :: "nat \<times> nat"
  ib_head :: "nat list"

subsection \<open>Memory\<close>

text \<open>\<^verbatim>\<open>::malloc(sizeof(chunk) + sz)\<close>, with the store of the link; \<^verbatim>\<open>::malloc\<close> and \<^verbatim>\<open>::realloc\<close> of
  \<^verbatim>\<open>sizeof(iovec) * n\<close>; \<^verbatim>\<open>::free\<close> of a chunk.\<close>

definition malloc_chunk :: "vref_env \<Rightarrow> nat \<Rightarrow> vmem \<Rightarrow> (nat option \<times> vmem) option" where
  "malloc_chunk e sz M =
     (let n = u64 (8 + sz) in
      if \<not> grants e (of_nat n) then Some (None, M)
      else if n < 8 then None
      else Some (Some (serial M), M\<lparr>chunks := (chunks M)(serial M \<mapsto> map (junk e) [0..<n - 8]), serial := Suc (serial M)\<rparr>))"

definition malloc_array :: "vref_env \<Rightarrow> nat \<Rightarrow> vmem \<Rightarrow> nat option \<times> vmem" where
  "malloc_array e n M =
     (let b = u64 (16 * n) in
      if \<not> grants e (of_nat b) then (None, M)
      else (Some (serial M), M\<lparr>arrays := (arrays M)(serial M \<mapsto> b div 16), serial := Suc (serial M)\<rparr>))"

definition realloc_array :: "vref_env \<Rightarrow> nat \<Rightarrow> nat \<Rightarrow> vmem \<Rightarrow> (nat option \<times> vmem) option" where
  "realloc_array e old n M =
     (if arrays M old = None then None
      else case malloc_array e n M of
        (None, M) \<Rightarrow> Some (None, M)
      | (Some a, M) \<Rightarrow> Some (Some a, M\<lparr>arrays := (arrays M)(old := None)\<rparr>))"

definition free_chunk :: "nat \<Rightarrow> vmem \<Rightarrow> vmem option" where
  "free_chunk c M = (if chunks M c = None then None else Some (M\<lparr>chunks := (chunks M)(c := None)\<rparr>))"

primrec free_chunks :: "nat list \<Rightarrow> vmem \<Rightarrow> vmem option" where
  "free_chunks [] M = Some M"
| "free_chunks (c # cs) M = do { M \<leftarrow> free_chunk c M; free_chunks cs M }"

subsection \<open>Operations\<close>

definition MSGPACK_VREFBUFFER_REF_SIZE :: nat where "MSGPACK_VREFBUFFER_REF_SIZE = 32"

definition MSGPACK_VREFBUFFER_CHUNK_SIZE :: nat where "MSGPACK_VREFBUFFER_CHUNK_SIZE = 8192"

definition packer_max_buffer_size :: nat where "packer_max_buffer_size = 9"

text \<open>The constructor; an \<^verbatim>\<open>iovec\<close> has 16 bytes, so that there are four at first.\<close>

definition vrefbuffer_new :: "vref_env \<Rightarrow> nat \<Rightarrow> nat \<Rightarrow> vmem \<Rightarrow> ((mp_exn + vrefbuffer) \<times> vmem) option" where
  "vrefbuffer_new e ref_size chunk_size M =
     (let nfirst = 72 div 16 in
      case malloc_array e nfirst M of
        (None, M) \<Rightarrow> Some (Inl bad_alloc, M)
      | (Some a, M) \<Rightarrow> do {
          (c, M) \<leftarrow> malloc_chunk e chunk_size M;
          case c of
            None \<Rightarrow> Some (Inl bad_alloc, M\<lparr>arrays := (arrays M)(a := None)\<rparr>)
          | Some c \<Rightarrow> Some (Inr \<lparr>vr_vec = [], vr_array = a, vr_cap = nfirst,
              vr_ref_size = max ref_size (packer_max_buffer_size + 1), vr_chunk_size = chunk_size,
              ib_free = chunk_size, ib_ptr = (c, 0), ib_head = [c]\<rparr>, M) })"

definition vrefbuffer_delete :: "vrefbuffer \<Rightarrow> vmem \<Rightarrow> vmem option" where
  "vrefbuffer_delete v M = do {
     M \<leftarrow> free_chunks (ib_head v) M;
     if arrays M (vr_array v) = None then None
     else Some (M\<lparr>arrays := (arrays M)(vr_array v := None)\<rparr>) }"

text \<open>The store through \<^verbatim>\<open>m_tail\<close>.\<close>

definition vr_store :: "iov_base \<Rightarrow> nat \<Rightarrow> vrefbuffer \<Rightarrow> vmem \<Rightarrow> (mp_exn option \<times> vrefbuffer \<times> vmem) option" where
  "vr_store p len v M = do {
     n \<leftarrow> arrays M (vr_array v);
     if length (vr_vec v) < n
     then Some (None, v\<lparr>vr_vec := vr_vec v @ [\<lparr>iov_ptr = p, iov_len = len\<rparr>]\<rparr>, M)
     else None }"

definition append_ref :: "vref_env \<Rightarrow> iov_base \<Rightarrow> nat \<Rightarrow> vrefbuffer \<Rightarrow> vmem \<Rightarrow>
    (mp_exn option \<times> vrefbuffer \<times> vmem) option" where
  "append_ref e p len v M =
     (if length (vr_vec v) = vr_cap v
      then let nnext = u64 (length (vr_vec v) * 2) in do {
        (a, M) \<leftarrow> realloc_array e (vr_array v) nnext M;
        case a of
          None \<Rightarrow> Some (Some bad_alloc, v, M)
        | Some a \<Rightarrow> vr_store p len (v\<lparr>vr_array := a, vr_cap := nnext\<rparr>) M }
      else vr_store p len v M)"

text \<open>Room for a piece in the newest chunk.\<close>

definition ib_reserve :: "vref_env \<Rightarrow> nat \<Rightarrow> vrefbuffer \<Rightarrow> vmem \<Rightarrow> (mp_exn option \<times> vrefbuffer \<times> vmem) option" where
  "ib_reserve e len v M =
     (if ib_free v < len
      then let sz = (if vr_chunk_size v < len then len else vr_chunk_size v) in do {
        (c, M) \<leftarrow> malloc_chunk e sz M;
        case c of
          None \<Rightarrow> Some (Some bad_alloc, v, M)
        | Some c \<Rightarrow> Some (None, v\<lparr>ib_head := c # ib_head v, ib_free := sz, ib_ptr := (c, 0)\<rparr>, M) }
      else Some (None, v, M))"

text \<open>The address behind the last element, when it lies in a chunk; memory of the caller is not adjacent
  to a chunk.\<close>

definition iov_end :: "iovec \<Rightarrow> (nat \<times> nat) option" where
  "iov_end i = (case iov_ptr i of USER bs \<Rightarrow> None | INNER (c, j) \<Rightarrow> Some (c, j + iov_len i))"

definition append_copy :: "vref_env \<Rightarrow> byte list \<Rightarrow> vrefbuffer \<Rightarrow> vmem \<Rightarrow>
    (mp_exn option \<times> vrefbuffer \<times> vmem) option" where
  "append_copy e src v M = do {
     let len = length src;
     (x, v, M) \<leftarrow> ib_reserve e len v M;
     if x \<noteq> None then Some (x, v, M)
     else do {
       let m = ib_ptr v;
       blk \<leftarrow> chunks M (fst m);
       blk \<leftarrow> mem_write blk (snd m) src;
       let M = M\<lparr>chunks := (chunks M)(fst m \<mapsto> blk)\<rparr>;
       let v = v\<lparr>ib_free := ib_free v - len, ib_ptr := (fst m, snd m + len)\<rparr>;
       if vr_vec v \<noteq> [] \<and> iov_end (last (vr_vec v)) = Some m
       then let i = last (vr_vec v) in
         Some (None, v\<lparr>vr_vec := butlast (vr_vec v) @ [i\<lparr>iov_len := iov_len i + len\<rparr>]\<rparr>, M)
       else append_ref e (INNER m) len v M } }"

definition vrefbuffer_write :: "vref_env \<Rightarrow> byte list \<Rightarrow> vrefbuffer \<Rightarrow> vmem \<Rightarrow>
    (mp_exn option \<times> vrefbuffer \<times> vmem) option" where
  "vrefbuffer_write e src v M =
     (if length src < vr_ref_size v then append_copy e src v M
      else append_ref e (USER src) (length src) v M)"

definition vector_size :: "vrefbuffer \<Rightarrow> nat" where
  "vector_size v = length (vr_vec v)"

definition vrefbuffer_clear :: "vrefbuffer \<Rightarrow> vmem \<Rightarrow> (vrefbuffer \<times> vmem) option" where
  "vrefbuffer_clear v M =
     (case ib_head v of
        [] \<Rightarrow> None
      | c # cs \<Rightarrow> do {
          M \<leftarrow> free_chunks cs M;
          Some (v\<lparr>ib_head := [c], ib_free := vr_chunk_size v, ib_ptr := (c, 0), vr_vec := []\<rparr>, M) })"

text \<open>The comparison at the start of \<^verbatim>\<open>migrate\<close>: \<^verbatim>\<open>to->m_tail + nused < m_end\<close>.\<close>

definition tail_below_end :: "vref_env \<Rightarrow> vrefbuffer \<Rightarrow> vrefbuffer \<Rightarrow> bool" where
  "tail_below_end e v t \<longleftrightarrow>
     array_at e (vr_array t) + 16 * (length (vr_vec t) + length (vr_vec v)) < array_at e (vr_array v) + 16 * vr_cap v"

text \<open>The growth of the vector of the other buffer; the flag is false when \<^verbatim>\<open>realloc\<close> fails.\<close>

definition grow_vector :: "vref_env \<Rightarrow> nat \<Rightarrow> vrefbuffer \<Rightarrow> vmem \<Rightarrow> (bool \<times> vrefbuffer \<times> vmem) option" where
  "grow_vector e nused t M =
     (let reqsize = nused + length (vr_vec t);
          nnext = unat (grow_size (of_nat reqsize) (of_nat (vr_cap t * 2))) in do {
        (a, M) \<leftarrow> realloc_array e (vr_array t) nnext M;
        case a of
          None \<Rightarrow> Some (False, t, M)
        | Some a \<Rightarrow> Some (True, t\<lparr>vr_array := a, vr_cap := nnext\<rparr>, M) })"

text \<open>The move of the elements and the chunks; \<open>c\<close> is the chunk that this buffer goes on with.\<close>

definition move_all :: "nat \<Rightarrow> vrefbuffer \<Rightarrow> vrefbuffer \<Rightarrow> vmem \<Rightarrow>
    (mp_exn option \<times> vrefbuffer \<times> vrefbuffer \<times> vmem) option" where
  "move_all c v t M = do {
     n \<leftarrow> arrays M (vr_array t);
     if n < length (vr_vec t) + length (vr_vec v) then None
     else do {
       let t = t\<lparr>vr_vec := vr_vec t @ vr_vec v, ib_head := ib_head v @ ib_head t\<rparr>;
       let t = (if ib_free t < ib_free v then t\<lparr>ib_free := ib_free v, ib_ptr := ib_ptr v\<rparr> else t);
       Some (None, v\<lparr>vr_vec := [], ib_head := [c], ib_free := vr_chunk_size v, ib_ptr := (c, 0)\<rparr>, t, M) } }"

definition migrate_into :: "vref_env \<Rightarrow> nat \<Rightarrow> vrefbuffer \<Rightarrow> vrefbuffer \<Rightarrow> vmem \<Rightarrow>
    (mp_exn option \<times> vrefbuffer \<times> vrefbuffer \<times> vmem) option" where
  "migrate_into e c v t M = do {
     (ok, t, M) \<leftarrow> (if tail_below_end e v t then grow_vector e (length (vr_vec v)) t M else Some (True, t, M));
     if \<not> ok then do { M \<leftarrow> free_chunk c M; Some (Some bad_alloc, v, t, M) }
     else move_all c v t M }"

definition vrefbuffer_migrate :: "vref_env \<Rightarrow> vrefbuffer \<Rightarrow> vrefbuffer \<Rightarrow> vmem \<Rightarrow>
    (mp_exn option \<times> vrefbuffer \<times> vrefbuffer \<times> vmem) option" where
  "vrefbuffer_migrate e v t M = do {
     (c, M) \<leftarrow> malloc_chunk e (vr_chunk_size v) M;
     case c of
       None \<Rightarrow> Some (Some bad_alloc, v, t, M)
     | Some c \<Rightarrow> migrate_into e c v t M }"

subsection \<open>Invariant and contents\<close>

definition blk :: "vmem \<Rightarrow> nat \<Rightarrow> byte list" where
  "blk M c = (case chunks M c of None \<Rightarrow> [] | Some m \<Rightarrow> m)"

definition iov_bytes :: "vmem \<Rightarrow> iovec \<Rightarrow> byte list" where
  "iov_bytes M i = (case iov_ptr i of USER bs \<Rightarrow> take (iov_len i) bs | INNER (c, j) \<Rightarrow> take (iov_len i) (drop j (blk M c)))"

definition vref_contents :: "vmem \<Rightarrow> vrefbuffer \<Rightarrow> byte list" where
  "vref_contents M v = concat (map (iov_bytes M) (vr_vec v))"

text \<open>An element lies in a chunk of the buffer, before the place where the next piece goes.\<close>

definition iov_ok :: "vmem \<Rightarrow> vrefbuffer \<Rightarrow> iovec \<Rightarrow> bool" where
  "iov_ok M v i \<longleftrightarrow>
     (case iov_ptr i of
        USER bs \<Rightarrow> iov_len i = length bs
      | INNER (c, j) \<Rightarrow> c \<in> set (ib_head v) \<and> j + iov_len i \<le> length (blk M c) \<and>
          (c = fst (ib_ptr v) \<longrightarrow> j + iov_len i \<le> snd (ib_ptr v)))"

definition chunks_ok :: "vmem \<Rightarrow> vrefbuffer \<Rightarrow> bool" where
  "chunks_ok M v \<longleftrightarrow>
     ib_head v \<noteq> [] \<and> distinct (ib_head v) \<and> set (ib_head v) \<subseteq> dom (chunks M) \<and>
     fst (ib_ptr v) \<in> set (ib_head v) \<and> snd (ib_ptr v) + ib_free v \<le> length (blk M (fst (ib_ptr v))) \<and>
     vr_chunk_size v \<le> length (blk M (hd (ib_head v))) \<and> vr_chunk_size v + 8 < 2 ^ 64"

definition vector_ok :: "vmem \<Rightarrow> vrefbuffer \<Rightarrow> bool" where
  "vector_ok M v \<longleftrightarrow>
     arrays M (vr_array v) = Some (vr_cap v) \<and> length (vr_vec v) \<le> vr_cap v \<and> 0 < vr_cap v \<and>
     16 * vr_cap v < 2 ^ 62"

definition serial_ok :: "vmem \<Rightarrow> bool" where
  "serial_ok M \<longleftrightarrow> (\<forall>c. c \<in> dom (chunks M) \<or> c \<in> dom (arrays M) \<longrightarrow> c < serial M)"

definition vref_ok :: "vmem \<Rightarrow> vrefbuffer \<Rightarrow> bool" where
  "vref_ok M v \<longleftrightarrow> chunks_ok M v \<and> vector_ok M v \<and> serial_ok M \<and> (\<forall>i \<in> set (vr_vec v). iov_ok M v i)"

text \<open>No system grants more than a part of the address space.\<close>

definition bounded :: "vref_env \<Rightarrow> bool" where
  "bounded e \<longleftrightarrow> (\<forall>n. grants e n \<longrightarrow> unat n < 2 ^ 62)"

text \<open>A request of at most \<open>k\<close> bytes was not granted.\<close>

definition refused :: "vref_env \<Rightarrow> nat \<Rightarrow> bool" where
  "refused e k \<longleftrightarrow> (\<exists>n. unat n \<le> k \<and> \<not> grants e n)"

lemma refusedI: "\<not> grants e (of_nat n) \<Longrightarrow> n \<le> k \<Longrightarrow> refused e k"
  unfolding refused_def unat_of_nat by (intro exI [of _ "of_nat n"]) (simp add: unat_of_nat mod_less_eq_dividend [THEN order_trans])

lemma refused_mono: "refused e j \<Longrightarrow> j \<le> k \<Longrightarrow> refused e k"
  using order_trans unfolding refused_def by blast

lemma blk_Some: "chunks M c = Some m \<Longrightarrow> blk M c = m"
  by (simp add: blk_def)

lemma iov_bytes_length: "iov_ok M v i \<Longrightarrow> length (iov_bytes M i) = iov_len i"
  by (auto simp: iov_ok_def iov_bytes_def split: iov_base.splits prod.splits)

text \<open>The parts of the state that the pieces depend on.\<close>

lemma iov_cong:
  assumes "chunks M' = chunks M" and "ib_head v' = ib_head v" and "ib_ptr v' = ib_ptr v"
  shows "iov_ok M' v' i = iov_ok M v i" and "iov_bytes M' i = iov_bytes M i" and "blk M' = blk M"
  using assms by (auto simp: iov_ok_def iov_bytes_def blk_def fun_eq_iff split: iov_base.splits)

subsection \<open>Elements of the vector\<close>

lemma store_ok:
  assumes "vref_ok M v" and "length (vr_vec v) < vr_cap v" and "iov_ok M v \<lparr>iov_ptr = p, iov_len = len\<rparr>"
  shows "\<exists>v'. vr_store p len v M = Some (None, v', M) \<and> vref_ok M v' \<and>
     vref_contents M v' = vref_contents M v @ iov_bytes M \<lparr>iov_ptr = p, iov_len = len\<rparr>"
proof -
  let ?i = "\<lparr>iov_ptr = p, iov_len = len\<rparr>"
  let ?v = "v\<lparr>vr_vec := vr_vec v @ [?i]\<rparr>"
  have "iov_ok M ?v i = iov_ok M v i" for i by (rule iov_cong) simp_all
  then have "vref_ok M ?v"
    using assms by (auto simp: vref_ok_def chunks_ok_def vector_ok_def)
  moreover have "vr_store p len v M = Some (None, ?v, M)"
    using assms(1,2) by (simp add: vr_store_def vref_ok_def vector_ok_def)
  ultimately show ?thesis by (simp add: vref_contents_def)
qed

lemma vector_grown:
  assumes "vref_ok M v" and "bounded e" and "vr_cap v \<le> n" and "16 * n < 2 ^ 64"
  shows "realloc_array e (vr_array v) n M = Some (None, M) \<and> refused e (16 * n) \<or>
     (\<exists>a M'. realloc_array e (vr_array v) n M = Some (Some a, M') \<and> vref_ok M' (v\<lparr>vr_array := a, vr_cap := n\<rparr>) \<and>
        chunks M' = chunks M \<and> (\<forall>q. q < serial M \<and> q \<noteq> vr_array v \<longrightarrow> arrays M' q = arrays M q))"
proof (cases "grants e (of_nat (16 * n))")
  case False
  then show ?thesis using assms refusedI [OF False order_refl]
    by (simp add: realloc_array_def malloc_array_def vref_ok_def vector_ok_def)
next
  case True
  let ?v = "v\<lparr>vr_array := serial M, vr_cap := n\<rparr>"
  let ?M = "M\<lparr>arrays := ((arrays M)(serial M \<mapsto> n))(vr_array v := None), serial := Suc (serial M)\<rparr>"
  have s: "serial_ok M" "arrays M (vr_array v) = Some (vr_cap v)" using assms(1) by (simp_all add: vref_ok_def vector_ok_def)
  then have ne: "vr_array v \<noteq> serial M" by (fastforce simp: serial_ok_def dom_def)
  have "realloc_array e (vr_array v) n M = Some (Some (serial M), ?M)"
    using True s assms(4) by (simp add: realloc_array_def malloc_array_def)
  moreover have "unat (of_nat (16 * n) :: 64 word) = 16 * n" unfolding unat_of_nat using assms(4) by simp
  then have "16 * n < 2 ^ 62" using True assms(2) by (auto simp: bounded_def)
  moreover have "iov_ok ?M ?v i = iov_ok M v i" "blk ?M = blk M" for i by (rule iov_cong; simp)+
  ultimately show ?thesis
    using assms(1,3) ne
    by (auto simp: vref_ok_def chunks_ok_def vector_ok_def serial_ok_def less_Suc_eq)
qed

lemma append_ref_ok:
  assumes "vref_ok M v" and "bounded e" and "iov_ok M v \<lparr>iov_ptr = p, iov_len = len\<rparr>"
  shows "\<exists>x v' M'. append_ref e p len v M = Some (x, v', M') \<and> vref_ok M' v' \<and>
     (x = None \<or> x = Some bad_alloc \<and> refused e (32 * vr_cap v)) \<and>
     vref_contents M' v' = vref_contents M v @ (if x = None then iov_bytes M \<lparr>iov_ptr = p, iov_len = len\<rparr> else [])"
proof (cases "length (vr_vec v) = vr_cap v")
  case False
  then have "length (vr_vec v) < vr_cap v" using assms(1) by (simp add: vref_ok_def vector_ok_def)
  from store_ok [OF assms(1) this assms(3)] False show ?thesis by (auto simp: append_ref_def)
next
  case True
  have cap: "0 < vr_cap v" "16 * vr_cap v < 2 ^ 62" using assms(1) by (simp_all add: vref_ok_def vector_ok_def)
  then have n: "u64 (length (vr_vec v) * 2) = vr_cap v * 2" using True by (intro u64_small [THEN trans]) simp_all
  consider "realloc_array e (vr_array v) (vr_cap v * 2) M = Some (None, M)" "refused e (32 * vr_cap v)"
    | a M1 where "realloc_array e (vr_array v) (vr_cap v * 2) M = Some (Some a, M1)"
        "vref_ok M1 (v\<lparr>vr_array := a, vr_cap := vr_cap v * 2\<rparr>)" "chunks M1 = chunks M"
    using vector_grown [OF assms(1,2), of "vr_cap v * 2"] cap by (fastforce simp: mult.commute)
  then show ?thesis
  proof cases
    case 1
    then show ?thesis using True n assms(1) by (simp add: append_ref_def)
  next
    case 2
    let ?v = "v\<lparr>vr_array := a, vr_cap := vr_cap v * 2\<rparr>"
    note c = iov_cong [OF 2(3), of ?v v, simplified]
    have "length (vr_vec ?v) < vr_cap ?v" using True cap by simp
    from store_ok [OF 2(2) this, of p len] obtain v' where v': "vr_store p len ?v M1 = Some (None, v', M1)" "vref_ok M1 v'"
        "vref_contents M1 v' = vref_contents M1 ?v @ iov_bytes M1 \<lparr>iov_ptr = p, iov_len = len\<rparr>"
      using assms(3) by (auto simp: c(1))
    moreover have "vref_contents M1 ?v = vref_contents M v" by (simp add: vref_contents_def c(2) cong: map_cong)
    ultimately show ?thesis using True n 2(1) by (auto simp: append_ref_def c(2))
  qed
qed

subsection \<open>Pieces in chunks\<close>

text \<open>Room for a piece: the contents stay, and the piece fits behind the place where it goes.\<close>

lemma malloc_chunk_result:
  assumes "sz + 8 < 2 ^ 64"
  obtains "malloc_chunk e sz M = Some (None, M)" | c M' where "malloc_chunk e sz M = Some (Some c, M')"
  using assms by (cases "grants e (of_nat (8 + sz))") (auto simp: malloc_chunk_def Let_def add.commute)

lemma fresh_chunk:
  assumes "malloc_chunk e sz M = Some (Some c, M')" and "sz + 8 < 2 ^ 64"
  shows "c = serial M" and "arrays M' = arrays M" and "serial M' = Suc (serial M)"
    and "\<exists>m. chunks M' = (chunks M)(c \<mapsto> m) \<and> length m = sz"
  using assms by (auto simp: malloc_chunk_def Let_def add.commute split: if_splits)

lemma chunk_entered:
  assumes "vref_ok M v" and "malloc_chunk e sz M = Some (Some c, M')" and "sz + 8 < 2 ^ 64" and "vr_chunk_size v \<le> sz"
  shows "vref_ok M' (v\<lparr>ib_head := c # ib_head v, ib_free := sz, ib_ptr := (c, 0)\<rparr>) \<and>
     vref_contents M' (v\<lparr>ib_head := c # ib_head v, ib_free := sz, ib_ptr := (c, 0)\<rparr>) = vref_contents M v"
proof -
  let ?v = "v\<lparr>ib_head := c # ib_head v, ib_free := sz, ib_ptr := (c, 0)\<rparr>"
  note f = fresh_chunk [OF assms(2,3)]
  obtain m where m: "chunks M' = (chunks M)(c \<mapsto> m)" "length m = sz" using f(4) by blast
  have ok: "chunks_ok M v" "vector_ok M v" "serial_ok M" "\<forall>i \<in> set (vr_vec v). iov_ok M v i"
    using assms(1) by (simp_all add: vref_ok_def)
  have new: "c \<notin> dom (chunks M)" using f(1) ok(3) by (auto simp: serial_ok_def)
  then have nh: "c \<notin> set (ib_head v)" using ok(1) by (auto simp: chunks_ok_def)
  have b: "blk M' c = m" "blk M' q = blk M q" if "q \<noteq> c" for q using that by (simp_all add: blk_def m(1))
  have iov: "iov_ok M' ?v i \<and> iov_bytes M' i = iov_bytes M i" if "i \<in> set (vr_vec v)" for i
  proof -
    have "iov_ok M v i" using ok(4) that by simp
    then show ?thesis using nh b
      by (auto simp: iov_ok_def iov_bytes_def blk_def m(1) split: iov_base.splits)
  qed
  have "chunks_ok M' ?v"
    using ok(1) nh m assms(3,4) by (auto simp: chunks_ok_def blk_def)
  moreover have "serial_ok M'" using ok(3) f(1-3) m(1) by (auto simp: serial_ok_def less_Suc_eq)
  ultimately have "vref_ok M' ?v" using ok(2) f(2) iov by (simp add: vref_ok_def vector_ok_def)
  moreover have "vref_contents M' ?v = vref_contents M v"
    using iov by (simp add: vref_contents_def cong: map_cong)
  ultimately show ?thesis ..
qed

lemma chunk_reserve_ok:
  assumes "vref_ok M v" and "len + 8 < 2 ^ 64"
  shows "\<exists>x v' M'. ib_reserve e len v M = Some (x, v', M') \<and> vref_ok M' v' \<and> vref_contents M' v' = vref_contents M v \<and>
     vr_cap v' = vr_cap v \<and> (x = None \<or> x = Some bad_alloc \<and> refused e (8 + max (vr_chunk_size v) len)) \<and> (x = None \<longrightarrow> len \<le> ib_free v')"
proof (cases "ib_free v < len")
  case False
  then show ?thesis using assms(1) by (simp add: ib_reserve_def)
next
  case True
  define sz where "sz = (if vr_chunk_size v < len then len else vr_chunk_size v)"
  have sz: "len \<le> sz" "vr_chunk_size v \<le> sz" "sz + 8 < 2 ^ 64"
    using assms by (simp_all add: sz_def vref_ok_def chunks_ok_def)
  show ?thesis
  proof (cases rule: malloc_chunk_result [OF sz(3), of e M])
    case 1
    have "sz = max (vr_chunk_size v) len" by (simp add: sz_def)
    with 1 have "refused e (8 + max (vr_chunk_size v) len)"
      using refusedI [of e "u64 (8 + sz)" "8 + sz"] sz(3) by (auto simp: malloc_chunk_def Let_def add.commute split: if_splits)
    with 1 show ?thesis using True assms(1) by (simp add: ib_reserve_def sz_def)
  next
    case (2 c M')
    from chunk_entered [OF assms(1) 2 sz(3,2)] show ?thesis
      using 2 True sz(1) by (simp add: ib_reserve_def Let_def sz_def)
  qed
qed

text \<open>The copy of a piece behind all others leaves the others as they are.\<close>

lemma piece_copied:
  assumes ok: "vref_ok M v" and len: "length src \<le> ib_free v"
  shows "\<exists>m m'. chunks M (fst (ib_ptr v)) = Some m \<and> mem_write m (snd (ib_ptr v)) src = Some m' \<and>
     (let M' = M\<lparr>chunks := (chunks M)(fst (ib_ptr v) \<mapsto> m')\<rparr>;
          v' = v\<lparr>ib_free := ib_free v - length src, ib_ptr := (fst (ib_ptr v), snd (ib_ptr v) + length src)\<rparr> in
      vref_ok M' v' \<and> vref_contents M' v' = vref_contents M v \<and>
      take (length src) (drop (snd (ib_ptr v)) (blk M' (fst (ib_ptr v)))) = src \<and>
      iov_ok M' v' \<lparr>iov_ptr = INNER (ib_ptr v), iov_len = length src\<rparr>)"
proof -
  obtain c j where p: "ib_ptr v = (c, j)" by force
  have co: "chunks_ok M v" using ok by (simp add: vref_ok_def)
  then obtain m where m: "chunks M c = Some m" "c \<in> set (ib_head v)" using p by (auto simp: chunks_ok_def)
  then have room: "j + ib_free v \<le> length m" using co p by (simp add: chunks_ok_def blk_Some)
  let ?m = "take j m @ src @ drop (j + length src) m"
  let ?M = "M\<lparr>chunks := (chunks M)(c \<mapsto> ?m)\<rparr>"
  let ?v = "v\<lparr>ib_free := ib_free v - length src, ib_ptr := (c, j + length src)\<rparr>"
  have lm: "length ?m = length m" using room len by simp
  have b: "blk ?M c = ?m" "blk M c = m" by (simp_all add: blk_def m(1))
  have bo: "blk ?M q = blk M q" if "q \<noteq> c" for q using that by (simp add: blk_def)
  have bl: "length (blk ?M q) = length (blk M q)" for q using lm b bo by (cases "q = c") simp_all
  have iov: "iov_ok ?M ?v i \<and> iov_bytes ?M i = iov_bytes M i" if "i \<in> set (vr_vec v)" for i
  proof -
    have i: "iov_ok M v i" using ok that by (simp add: vref_ok_def)
    show ?thesis
    proof (cases "iov_ptr i")
      case (USER bs)
      then show ?thesis using i by (simp add: iov_ok_def iov_bytes_def)
    next
      case (INNER cj)
      obtain q k where q: "cj = (q, k)" by force
      show ?thesis
      proof (cases "q = c")
        case False
        then show ?thesis using i INNER q p bo by (auto simp: iov_ok_def iov_bytes_def)
      next
        case True
        then have "k + iov_len i \<le> j" using i INNER q p by (simp add: iov_ok_def)
        then have "take (iov_len i) (drop k ?m) = take (iov_len i) (drop k m)"
          using room len by (auto simp: drop_take min_def)
        then show ?thesis using i INNER q p True b lm by (simp add: iov_ok_def iov_bytes_def)
      qed
    qed
  qed
  have "chunks_ok ?M ?v"
    using co p m room len bl by (auto simp: chunks_ok_def)
  moreover have "serial_ok ?M" using ok m(1) by (auto simp: vref_ok_def serial_ok_def)
  ultimately have "vref_ok ?M ?v" using ok iov by (simp add: vref_ok_def vector_ok_def)
  moreover have "vref_contents ?M ?v = vref_contents M v"
    using iov by (simp add: vref_contents_def cong: map_cong)
  moreover have "take (length src) (drop j ?m) = src" using room len by simp
  moreover have "iov_ok ?M ?v \<lparr>iov_ptr = INNER (c, j), iov_len = length src\<rparr>"
    using m(2) b(1) lm room len by (simp add: iov_ok_def)
  ultimately show ?thesis using m(1) room len b(1) by (simp add: p)
qed

lemma joined_piece:
  assumes "vref_ok M v" and "vr_vec v = js @ [i]" and "iov_end i = Some p"
    and "iov_ok M v \<lparr>iov_ptr = INNER p, iov_len = length src\<rparr>"
    and "iov_bytes M \<lparr>iov_ptr = INNER p, iov_len = length src\<rparr> = src"
  shows "vref_ok M (v\<lparr>vr_vec := js @ [i\<lparr>iov_len := iov_len i + length src\<rparr>]\<rparr>) \<and>
     vref_contents M (v\<lparr>vr_vec := js @ [i\<lparr>iov_len := iov_len i + length src\<rparr>]\<rparr>) = vref_contents M v @ src"
proof -
  let ?i = "i\<lparr>iov_len := iov_len i + length src\<rparr>"
  let ?v = "v\<lparr>vr_vec := js @ [?i]\<rparr>"
  obtain c j where i: "iov_ptr i = INNER (c, j)" "p = (c, j + iov_len i)"
    using assms(3) by (auto simp: iov_end_def split: iov_base.splits)
  have "take (length src) (drop (j + iov_len i) (blk M c)) = src"
    using assms(5) i(2) by (simp add: iov_bytes_def)
  then have "iov_bytes M ?i = iov_bytes M i @ src"
    using i(1) by (simp add: iov_bytes_def take_add add.commute)
  moreover have "iov_ok M v ?i" using assms(4) i by (auto simp: iov_ok_def)
  moreover have "iov_ok M ?v k = iov_ok M v k" for k by (rule iov_cong) simp_all
  ultimately show ?thesis
    using assms(1,2) by (auto simp: vref_ok_def chunks_ok_def vector_ok_def vref_contents_def)
qed

lemma append_copy_ok:
  assumes "vref_ok M v" and "bounded e" and "length src + 8 < 2 ^ 64"
  shows "\<exists>x v' M'. append_copy e src v M = Some (x, v', M') \<and> vref_ok M' v' \<and>
     (x = None \<or> x = Some bad_alloc \<and> refused e (max (32 * vr_cap v) (8 + max (vr_chunk_size v) (length src)))) \<and>
     vref_contents M' v' = vref_contents M v @ (if x = None then src else [])"
proof -
  obtain x v1 M1 where r: "ib_reserve e (length src) v M = Some (x, v1, M1)" "vref_ok M1 v1"
      "vref_contents M1 v1 = vref_contents M v" "vr_cap v1 = vr_cap v"
      "x = None \<or> x = Some bad_alloc \<and> refused e (8 + max (vr_chunk_size v) (length src))" "x = None \<longrightarrow> length src \<le> ib_free v1"
    using chunk_reserve_ok [OF assms(1,3)] by blast
  show ?thesis
  proof (cases x)
    case (Some y)
    have "refused e (max (32 * vr_cap v) (8 + max (vr_chunk_size v) (length src)))"
      using Some r(5) refused_mono [of e "8 + max (vr_chunk_size v) (length src)"] by auto
    then show ?thesis using r Some by (simp add: append_copy_def)
  next
    case None
    then obtain m m' where m: "chunks M1 (fst (ib_ptr v1)) = Some m" "mem_write m (snd (ib_ptr v1)) src = Some m'"
      and c: "let M' = M1\<lparr>chunks := (chunks M1)(fst (ib_ptr v1) \<mapsto> m')\<rparr>;
          v' = v1\<lparr>ib_free := ib_free v1 - length src, ib_ptr := (fst (ib_ptr v1), snd (ib_ptr v1) + length src)\<rparr> in
      vref_ok M' v' \<and> vref_contents M' v' = vref_contents M1 v1 \<and>
      take (length src) (drop (snd (ib_ptr v1)) (blk M' (fst (ib_ptr v1)))) = src \<and>
      iov_ok M' v' \<lparr>iov_ptr = INNER (ib_ptr v1), iov_len = length src\<rparr>"
      using piece_copied [OF r(2), of src] r(6) by blast
    define M2 where "M2 = M1\<lparr>chunks := (chunks M1)(fst (ib_ptr v1) \<mapsto> m')\<rparr>"
    define v2 where "v2 = v1\<lparr>ib_free := ib_free v1 - length src, ib_ptr := (fst (ib_ptr v1), snd (ib_ptr v1) + length src)\<rparr>"
    have c2: "vref_ok M2 v2" "vref_contents M2 v2 = vref_contents M v"
        "take (length src) (drop (snd (ib_ptr v1)) (blk M2 (fst (ib_ptr v1)))) = src"
        "iov_ok M2 v2 \<lparr>iov_ptr = INNER (ib_ptr v1), iov_len = length src\<rparr>"
      using c r(3) by (simp_all add: M2_def v2_def Let_def)
    have eq: "append_copy e src v M =
      (if vr_vec v2 \<noteq> [] \<and> iov_end (last (vr_vec v2)) = Some (ib_ptr v1)
       then Some (None, v2\<lparr>vr_vec := butlast (vr_vec v2) @
          [(last (vr_vec v2))\<lparr>iov_len := iov_len (last (vr_vec v2)) + length src\<rparr>]\<rparr>, M2)
       else append_ref e (INNER (ib_ptr v1)) (length src) v2 M2)"
      using r(1) None m by (simp add: append_copy_def M2_def v2_def Let_def)
    have new: "iov_bytes M2 \<lparr>iov_ptr = INNER (ib_ptr v1), iov_len = length src\<rparr> = src"
      using c2(3) by (cases "ib_ptr v1") (simp add: iov_bytes_def)
    show ?thesis
    proof (cases "vr_vec v2 \<noteq> [] \<and> iov_end (last (vr_vec v2)) = Some (ib_ptr v1)")
      case False
      have "vr_cap v2 = vr_cap v" using r(4) by (simp add: v2_def)
      with append_ref_ok [OF c2(1) assms(2) c2(4), unfolded new c2(2)] show ?thesis
        unfolding eq if_not_P [OF False] using refused_mono [of e "32 * vr_cap v"] by (metis max.cobounded1)
    next
      case True
      then obtain js i where v: "vr_vec v2 = js @ [i]" "iov_end i = Some (ib_ptr v1)"
        by (metis append_butlast_last_id last_snoc)
      let ?v = "v2\<lparr>vr_vec := js @ [i\<lparr>iov_len := iov_len i + length src\<rparr>]\<rparr>"
      from joined_piece [OF c2(1) v c2(4) new] have "vref_ok M2 ?v"
        "vref_contents M2 ?v = vref_contents M2 v2 @ src" by simp_all
      moreover have "append_copy e src v M = Some (None, ?v, M2)" using eq True v(1) by simp
      ultimately show ?thesis using c2(2) by simp
    qed
  qed
qed

lemma vrefbuffer_write_ok:
  assumes "vref_ok M v" and "bounded e" and "length src + 8 < 2 ^ 64"
  shows "\<exists>x v' M'. vrefbuffer_write e src v M = Some (x, v', M') \<and> vref_ok M' v' \<and>
     (x = None \<or> x = Some bad_alloc \<and> refused e (max (32 * vr_cap v) (8 + max (vr_chunk_size v) (length src)))) \<and>
     vref_contents M' v' = vref_contents M v @ (if x = None then src else [])"
proof (cases "length src < vr_ref_size v")
  case True
  then show ?thesis using append_copy_ok [OF assms] by (simp add: vrefbuffer_write_def)
next
  case False
  have "iov_ok M v \<lparr>iov_ptr = USER src, iov_len = length src\<rparr>" by (simp add: iov_ok_def)
  moreover have "iov_bytes M \<lparr>iov_ptr = USER src, iov_len = length src\<rparr> = src" by (simp add: iov_bytes_def)
  moreover have "vrefbuffer_write e src v M = append_ref e (USER src) (length src) v M"
    using False by (simp add: vrefbuffer_write_def)
  ultimately show ?thesis using append_ref_ok [OF assms(1,2)] refused_mono [of e "32 * vr_cap v"] by (metis max.cobounded1)
qed

subsection \<open>The buffer as a stream\<close>

definition vref_stream :: "vref_env \<Rightarrow> (vrefbuffer \<times> vmem) stream_write" where
  "vref_stream e src s =
     (case vrefbuffer_write e src (fst s) (snd s) of Some (None, v, M) \<Rightarrow> Some (v, M) | _ \<Rightarrow> None)"

definition bound :: "vref_env \<Rightarrow> vref_env" where
  "bound e = e\<lparr>grants := \<lambda>n. grants e n \<and> unat n < 2 ^ 62\<rparr>"

lemma bounded_bound: "bounded (bound e)" "bounded e \<Longrightarrow> bound e = e"
  by (auto simp: bounded_def bound_def intro!: vref_env.equality ext)

interpretation vref: byte_stream "vref_stream (bound e)" "\<lambda>(v, M). vref_ok M v" "\<lambda>(v, M). vref_contents M v" "2 ^ 63" for e
proof
  fix s s' :: "vrefbuffer \<times> vmem" and src :: "byte list"
  obtain v M where s: "s = (v, M)" by force
  assume a: "case s of (v, M) \<Rightarrow> vref_ok M v" "length (case s of (v, M) \<Rightarrow> vref_contents M v) + length src < 2 ^ 63"
    "vref_stream (bound e) src s = Some s'"
  then have "length src + 8 < 2 ^ 64" by simp
  then show "(case s' of (v, M) \<Rightarrow> vref_ok M v) \<and>
      (case s' of (v, M) \<Rightarrow> vref_contents M v) = (case s of (v, M) \<Rightarrow> vref_contents M v) @ src"
    using vrefbuffer_write_ok [of M v "bound e" src] a bounded_bound(1) [of e]
    by (auto simp: s vref_stream_def)
qed

text \<open>Packing into it gives the same bytes as packing into the buffer that copies.\<close>

lemma vrefbuffer_packs:
  assumes "vref_ok M v" and "bounded e" and "length (vref_contents M v) + length (enc_value fp ob) < 2 ^ 63"
    and "pack_value fp (vref_stream e) ob (v, M) = Some (v', M')"
  shows "vref_ok M' v' \<and> vref_contents M' v' = vref_contents M v @ enc_value fp ob"
  using vref.putsD [OF vref.packed_bytes(1) [of fp e ob], of "(v, M)" "(v', M')"] assms bounded_bound(2) by simp

subsection \<open>Construction, destruction, \<^verbatim>\<open>clear\<close>\<close>

lemma vrefbuffer_new_ok:
  assumes "serial_ok M" and "bounded e" and "chunk_size + 8 < 2 ^ 64"
  shows "\<exists>r M'. vrefbuffer_new e ref_size chunk_size M = Some (r, M') \<and>
     (case r of Inl x \<Rightarrow> x = bad_alloc \<and> chunks M' = chunks M \<and> (\<forall>a. a < serial M \<longrightarrow> arrays M' a = arrays M a)
      | Inr v \<Rightarrow> vref_ok M' v \<and> vref_contents M' v = [])"
proof (cases "grants e 64")
  case False
  then show ?thesis by (simp add: vrefbuffer_new_def malloc_array_def)
next
  case True
  define M1 where "M1 = M\<lparr>arrays := (arrays M)(serial M \<mapsto> 4), serial := Suc (serial M)\<rparr>"
  have a: "malloc_array e 4 M = (Some (serial M), M1)" using True by (simp add: malloc_array_def M1_def)
  show ?thesis
  proof (cases rule: malloc_chunk_result [OF assms(3), of e M1])
    case 1
    then show ?thesis using a by (simp add: vrefbuffer_new_def M1_def)
  next
    case (2 q M2)
    note fr = fresh_chunk [OF 2 assms(3)]
    from fr(4) obtain m where m: "chunks M2 = (chunks M1)(q \<mapsto> m)" "length m = chunk_size" by blast
    show ?thesis using 2 a fr(1-3) m assms(1,3)
      by (auto simp: vrefbuffer_new_def vref_ok_def chunks_ok_def vector_ok_def serial_ok_def blk_def
          vref_contents_def M1_def less_Suc_eq)
  qed
qed

lemma free_chunks_ok:
  assumes "distinct cs" and "set cs \<subseteq> dom (chunks M)"
  shows "free_chunks cs M = Some (M\<lparr>chunks := (chunks M) |` (- set cs)\<rparr>)"
  using assms
proof (induction cs arbitrary: M)
  case Nil
  then show ?case by simp
next
  case (Cons c cs)
  let ?M = "M\<lparr>chunks := (chunks M)(c := None)\<rparr>"
  have f: "free_chunk c M = Some ?M" using Cons.prems(2) by (auto simp: free_chunk_def)
  have "set cs \<subseteq> dom (chunks ?M)" "distinct cs" using Cons.prems by auto
  from Cons.IH [OF this(2,1)] f
  have "free_chunks (c # cs) M = Some (?M\<lparr>chunks := chunks ?M |` (- set cs)\<rparr>)"
    by (simp only: free_chunks.simps bind.bind_lunit)
  moreover have "?M\<lparr>chunks := chunks ?M |` (- set cs)\<rparr> = M\<lparr>chunks := chunks M |` (- set (c # cs))\<rparr>"
    by (rule vmem.equality) (auto simp: restrict_map_def fun_eq_iff)
  ultimately show ?case by (simp only:)
qed

lemma vrefbuffer_delete_ok:
  assumes "vref_ok M v"
  shows "vrefbuffer_delete v M =
    Some (M\<lparr>chunks := chunks M |` (- set (ib_head v)), arrays := (arrays M)(vr_array v := None)\<rparr>)"
  using assms free_chunks_ok [of "ib_head v" M]
  by (simp add: vrefbuffer_delete_def vref_ok_def chunks_ok_def vector_ok_def)

lemma vrefbuffer_clear_ok:
  assumes "vref_ok M v"
  shows "\<exists>v' M'. vrefbuffer_clear v M = Some (v', M') \<and> vref_ok M' v' \<and> vref_contents M' v' = []"
proof -
  obtain c cs where h: "ib_head v = c # cs" using assms by (cases "ib_head v") (auto simp: vref_ok_def chunks_ok_def)
  have "distinct cs" "set cs \<subseteq> dom (chunks M)" "c \<notin> set cs" using assms h by (auto simp: vref_ok_def chunks_ok_def)
  from this(3) have b: "blk (M\<lparr>chunks := chunks M |` (- set cs)\<rparr>) c = blk M c" by (simp add: blk_def)
  let ?v = "v\<lparr>ib_head := [c], ib_free := vr_chunk_size v, ib_ptr := (c, 0), vr_vec := []\<rparr>"
  let ?M = "M\<lparr>chunks := chunks M |` (- set cs)\<rparr>"
  have "chunks_ok ?M ?v" using assms h b \<open>c \<notin> set cs\<close> by (auto simp: vref_ok_def chunks_ok_def)
  then have "vref_ok ?M ?v" using assms by (auto simp: vref_ok_def vector_ok_def serial_ok_def)
  moreover have "vrefbuffer_clear v M = Some (?v, ?M)"
    using free_chunks_ok [OF \<open>distinct cs\<close> \<open>set cs \<subseteq> dom (chunks M)\<close>] h by (simp add: vrefbuffer_clear_def)
  ultimately show ?thesis by (simp add: vref_contents_def)
qed

subsection \<open>\<^verbatim>\<open>migrate\<close>\<close>

lemma grow_size_bounds:
  "nsize \<le> grow_size need nsize" "unat (grow_size need nsize) \<le> max (unat nsize) (2 * unat need)"
proof (induction need nsize rule: grow_size.induct)
  case (1 need nsize)
  {
    case 1
    show ?case using "1.IH"(1) by (subst grow_size.simps) (auto simp: Let_def)
  next
    case 2
    have "unat (nsize * 2) \<le> 2 * unat nsize"
      using mod_less_eq_dividend [of "unat nsize * 2" "2 ^ 64"] by (simp add: unat_word_ariths)
    then show ?case using "1.IH"(2)
      by (subst grow_size.simps) (fastforce simp: Let_def word_less_nat_alt)
  }
qed

lemma chunk_kept:
  assumes "vref_ok M v" and "malloc_chunk e sz M = Some (Some c, M')" and "sz + 8 < 2 ^ 64"
  shows "vref_ok M' v" and "vref_contents M' v = vref_contents M v" and "c \<notin> set (ib_head v)"
proof -
  note f = fresh_chunk [OF assms(2,3)]
  obtain m where m: "chunks M' = (chunks M)(c \<mapsto> m)" using f(4) by blast
  have ok: "chunks_ok M v" "serial_ok M" using assms(1) by (simp_all add: vref_ok_def)
  have "c \<notin> dom (chunks M)" using f(1) ok(2) by (auto simp: serial_ok_def)
  then show nh: "c \<notin> set (ib_head v)" using ok(1) by (auto simp: chunks_ok_def)
  have b: "blk M' q = blk M q" if "q \<in> set (ib_head v)" for q using that nh by (auto simp: blk_def m)
  have iov: "iov_ok M' v i \<and> iov_bytes M' i = iov_bytes M i" if "i \<in> set (vr_vec v)" for i
  proof -
    have "iov_ok M v i" using assms(1) that by (simp add: vref_ok_def)
    then show ?thesis by (auto simp: iov_ok_def iov_bytes_def b split: iov_base.splits)
  qed
  have "chunks_ok M' v"
    using ok(1) by (auto simp: chunks_ok_def b m)
  moreover have "serial_ok M'" using ok(2) f(1-3) m by (auto simp: serial_ok_def less_Suc_eq)
  ultimately show "vref_ok M' v" using assms(1) f(2) iov by (simp add: vref_ok_def vector_ok_def)
  show "vref_contents M' v = vref_contents M v" using iov by (simp add: vref_contents_def cong: map_cong)
qed

text \<open>Changes outside of a buffer.\<close>

lemma vref_ok_frame:
  assumes "vref_ok M v" and "\<forall>q \<in> set (ib_head v). chunks M' q = chunks M q" and "arrays M' (vr_array v) = arrays M (vr_array v)"
    and "serial_ok M'"
  shows "vref_ok M' v" and "vref_contents M' v = vref_contents M v"
proof -
  have b: "blk M' q = blk M q" if "q \<in> set (ib_head v)" for q using that assms(2) by (simp add: blk_def)
  have iov: "iov_ok M' v i \<and> iov_bytes M' i = iov_bytes M i" if "i \<in> set (vr_vec v)" for i
  proof -
    have "iov_ok M v i" using assms(1) that by (simp add: vref_ok_def)
    then show ?thesis by (auto simp: iov_ok_def iov_bytes_def b split: iov_base.splits)
  qed
  have "chunks_ok M v" using assms(1) by (simp add: vref_ok_def)
  then have "chunks_ok M' v" using assms(2) by (fastforce simp: chunks_ok_def b)
  then show "vref_ok M' v" using assms(1,3,4) iov by (simp add: vref_ok_def vector_ok_def)
  show "vref_contents M' v = vref_contents M v" using iov by (simp add: vref_contents_def cong: map_cong)
qed

text \<open>The elements and the chunks of both buffers in one.\<close>

lemma chunks_joined:
  assumes "vref_ok M v" and "vref_ok M t" and "set (ib_head v) \<inter> set (ib_head t) = {}"
    and "vr_chunk_size t \<le> vr_chunk_size v" and "length (vr_vec t) + length (vr_vec v) \<le> vr_cap t"
    and "t1 = t\<lparr>vr_vec := vr_vec t @ vr_vec v, ib_head := ib_head v @ ib_head t\<rparr>"
    and "t' = (if ib_free t1 < ib_free v then t1\<lparr>ib_free := ib_free v, ib_ptr := ib_ptr v\<rparr> else t1)"
  shows "vref_ok M t' \<and> vref_contents M t' = vref_contents M t @ vref_contents M v"
proof -
  have c: "chunks_ok M v" "chunks_ok M t" using assms(1,2) by (simp_all add: vref_ok_def)
  have t': "vr_vec t' = vr_vec t @ vr_vec v" "ib_head t' = ib_head v @ ib_head t" "vr_array t' = vr_array t"
      "vr_cap t' = vr_cap t" "vr_chunk_size t' = vr_chunk_size t"
      "(ib_ptr t' = ib_ptr v \<and> ib_free t' = ib_free v) \<or> (ib_ptr t' = ib_ptr t \<and> ib_free t' = ib_free t)"
    using assms(6,7) by auto
  have p: "fst (ib_ptr v) \<in> set (ib_head v)" "fst (ib_ptr t) \<in> set (ib_head t)"
      "fst (ib_ptr v) \<notin> set (ib_head t)" "fst (ib_ptr t) \<notin> set (ib_head v)"
    using c assms(3) by (auto simp: chunks_ok_def)
  have "iov_ok M t' i" if i: "i \<in> set (vr_vec t')" for i
  proof -
    have "iov_ok M t i \<or> iov_ok M v i" using i t'(1) assms(1,2) by (auto simp: vref_ok_def)
    then show ?thesis
      using t'(6) p by (auto simp: iov_ok_def t'(2) split: iov_base.splits)
  qed
  moreover have "chunks_ok M t'"
    using c t'(2,5,6) assms(3,4) p by (auto simp: chunks_ok_def)
  ultimately have "vref_ok M t'" using assms(2,5) t'(1,3,4) by (simp add: vref_ok_def vector_ok_def)
  then show ?thesis by (simp add: vref_contents_def t'(1))
qed

text \<open>Two buffers of their own.\<close>

definition vrefs_ok :: "vmem \<Rightarrow> vrefbuffer \<Rightarrow> vrefbuffer \<Rightarrow> bool" where
  "vrefs_ok M v t \<longleftrightarrow> vref_ok M v \<and> vref_ok M t \<and> vr_array v \<noteq> vr_array t \<and> set (ib_head v) \<inter> set (ib_head t) = {}"

lemma grow_vector_ok:
  assumes "vrefs_ok M v t" and "bounded e"
  shows "\<exists>ok t' M'. grow_vector e (length (vr_vec v)) t M = Some (ok, t', M') \<and>
     (if ok then vrefs_ok M' v t' \<and> length (vr_vec t') + length (vr_vec v) \<le> vr_cap t' \<and> chunks M' = chunks M \<and>
        (\<exists>a n. t' = t\<lparr>vr_array := a, vr_cap := n\<rparr>)
      else t' = t \<and> M' = M)"
proof -
  have o: "vref_ok M v" "vref_ok M t" "vr_array v \<noteq> vr_array t" "set (ib_head v) \<inter> set (ib_head t) = {}"
    using assms(1) by (simp_all add: vrefs_ok_def)
  define req where "req = length (vr_vec v) + length (vr_vec t)"
  define n where "n = unat (grow_size (of_nat req) (of_nat (vr_cap t * 2)))"
  have l: "length (vr_vec v) \<le> vr_cap v" "16 * vr_cap v < 2 ^ 62" "length (vr_vec t) \<le> vr_cap t" "16 * vr_cap t < 2 ^ 62"
    using o(1,2) by (simp_all add: vref_ok_def vector_ok_def)
  have u: "unat (of_nat req :: 64 word) = req" "unat (of_nat (vr_cap t * 2) :: 64 word) = vr_cap t * 2"
    unfolding unat_of_nat using l by (simp_all add: req_def)
  have n: "req \<le> n" "vr_cap t * 2 \<le> n" "n \<le> max (vr_cap t * 2) (2 * req)"
    using grow_size_enough [of "of_nat req" "of_nat (vr_cap t * 2)"]
      grow_size_bounds [where nsize = "of_nat (vr_cap t * 2)" and need = "of_nat req"] u
    by (simp_all only: word_le_nat_alt n_def)
  then have "vr_cap t \<le> n" "16 * n < 2 ^ 64" using l by (simp_all add: req_def max_def split: if_splits)
  from vector_grown [OF o(2) assms(2) this] consider
      "realloc_array e (vr_array t) n M = Some (None, M)"
    | a M' where "realloc_array e (vr_array t) n M = Some (Some a, M')" "vref_ok M' (t\<lparr>vr_array := a, vr_cap := n\<rparr>)"
        "chunks M' = chunks M" "\<forall>q. q < serial M \<and> q \<noteq> vr_array t \<longrightarrow> arrays M' q = arrays M q" by blast
  then show ?thesis
  proof cases
    case 1
    then have "grow_vector e (length (vr_vec v)) t M = Some (False, t, M)"
      by (simp add: grow_vector_def Let_def n_def req_def)
    then show ?thesis by (intro exI [of _ False]) simp
  next
    case 2
    let ?t = "t\<lparr>vr_array := a, vr_cap := n\<rparr>"
    have "serial_ok M'" "arrays M' a = Some n" using 2(2) by (simp_all add: vref_ok_def vector_ok_def)
    have "vr_array v < serial M" using o(1) by (auto simp: vref_ok_def vector_ok_def serial_ok_def)
    then have va: "arrays M' (vr_array v) = arrays M (vr_array v)" using 2(4) o(3) by simp
    then have "vref_ok M' v" using vref_ok_frame(1) [OF o(1) _ va \<open>serial_ok M'\<close>] 2(3) by simp
    moreover have "vr_array v \<noteq> a" using 2(1) o(1) \<open>vr_array v < serial M\<close>
      by (auto simp: realloc_array_def malloc_array_def Let_def split: if_splits)
    ultimately have "vrefs_ok M' v ?t" using 2(2) o(4) by (simp add: vrefs_ok_def)
    moreover have "grow_vector e (length (vr_vec v)) t M = Some (True, ?t, M')"
      using 2(1) by (simp add: grow_vector_def Let_def n_def req_def)
    ultimately show ?thesis using n(1) 2(3) by (auto simp: req_def)
  qed
qed

text \<open>What \<^verbatim>\<open>migrate\<close> does when there is room: it moves everything or reports a failed allocation.\<close>

definition migrated :: "vmem \<Rightarrow> vrefbuffer \<Rightarrow> vrefbuffer \<Rightarrow> mp_exn option \<Rightarrow> vmem \<Rightarrow> vrefbuffer \<Rightarrow> vrefbuffer \<Rightarrow> bool" where
  "migrated M v t x M' v' t' \<longleftrightarrow>
     vrefs_ok M' v' t' \<and> x \<in> {None, Some bad_alloc} \<and>
     (if x = None then vref_contents M' t' = vref_contents M t @ vref_contents M v \<and> vref_contents M' v' = []
      else vref_contents M' t' = vref_contents M t \<and> vref_contents M' v' = vref_contents M v)"

lemma move_all_ok:
  assumes ok: "vrefs_ok M v t" and size: "vr_chunk_size t \<le> vr_chunk_size v"
    and room: "length (vr_vec t) + length (vr_vec v) \<le> vr_cap t"
    and c: "chunks M c = Some m" "length m = vr_chunk_size v" "c \<notin> set (ib_head v) \<union> set (ib_head t)"
  shows "\<exists>v' t'. move_all c v t M = Some (None, v', t', M) \<and> migrated M v t None M v' t'"
proof -
  have o: "vref_ok M v" "vref_ok M t" "vr_array v \<noteq> vr_array t" "set (ib_head v) \<inter> set (ib_head t) = {}"
    using ok by (simp_all add: vrefs_ok_def)
  define t1 where "t1 = t\<lparr>vr_vec := vr_vec t @ vr_vec v, ib_head := ib_head v @ ib_head t\<rparr>"
  define t' where "t' = (if ib_free t1 < ib_free v then t1\<lparr>ib_free := ib_free v, ib_ptr := ib_ptr v\<rparr> else t1)"
  define v' where "v' = v\<lparr>vr_vec := [], ib_head := [c], ib_free := vr_chunk_size v, ib_ptr := (c, 0)\<rparr>"
  note j = chunks_joined [OF o(1,2,4) size room t1_def t'_def]
  have "vref_ok M v'"
    using o(1) c(1,2) by (auto simp: v'_def vref_ok_def chunks_ok_def vector_ok_def blk_def)
  moreover have "vr_array t' = vr_array t" "ib_head t' = ib_head v @ ib_head t" by (simp_all add: t'_def t1_def)
  ultimately have "vrefs_ok M v' t'" using j o(3) c(3) by (simp add: vrefs_ok_def v'_def)
  then have "migrated M v t None M v' t'" using j by (simp add: migrated_def v'_def vref_contents_def)
  moreover have "arrays M (vr_array t) = Some (vr_cap t)" using o(2) by (simp add: vref_ok_def vector_ok_def)
  then have "move_all c v t M = Some (None, v', t', M)"
    using room by (simp add: move_all_def t'_def t1_def v'_def Let_def)
  ultimately show ?thesis by blast
qed

lemma chunk_returned:
  assumes "vrefs_ok M v t" and "chunks M c = Some m" and "c \<notin> set (ib_head v) \<union> set (ib_head t)"
  shows "\<exists>M'. free_chunk c M = Some M' \<and> migrated M v t (Some bad_alloc) M' v t"
proof -
  let ?M = "M\<lparr>chunks := (chunks M)(c := None)\<rparr>"
  have o: "vref_ok M v" "vref_ok M t" using assms(1) by (simp_all add: vrefs_ok_def)
  then have s: "serial_ok ?M" by (auto simp: vref_ok_def serial_ok_def)
  have "\<forall>p \<in> set (ib_head v). chunks ?M p = chunks M p" "\<forall>p \<in> set (ib_head t). chunks ?M p = chunks M p"
    using assms(3) by auto
  note f = vref_ok_frame [OF o(1) this(1) _ s] vref_ok_frame [OF o(2) this(2) _ s]
  have "free_chunk c M = Some ?M" using assms(2) by (simp add: free_chunk_def)
  moreover have "migrated M v t (Some bad_alloc) ?M v t" using assms(1) f by (simp add: migrated_def vrefs_ok_def)
  ultimately show ?thesis by blast
qed

lemma migrate_into_ok:
  assumes ok: "vrefs_ok M v t" and e: "bounded e" and size: "vr_chunk_size t \<le> vr_chunk_size v"
    and room: "tail_below_end e v t \<or> length (vr_vec t) + length (vr_vec v) \<le> vr_cap t"
    and c: "chunks M c = Some m" "length m = vr_chunk_size v" "c \<notin> set (ib_head v) \<union> set (ib_head t)"
  shows "\<exists>x v' t' M'. migrate_into e c v t M = Some (x, v', t', M') \<and> migrated M v t x M' v' t'"
proof (cases "tail_below_end e v t")
  case False
  then have "length (vr_vec t) + length (vr_vec v) \<le> vr_cap t" using room by simp
  from move_all_ok [OF ok size this c] False show ?thesis by (auto simp: migrate_into_def)
next
  case True
  obtain b t1 M2 where g: "grow_vector e (length (vr_vec v)) t M = Some (b, t1, M2)"
    "if b then vrefs_ok M2 v t1 \<and> length (vr_vec t1) + length (vr_vec v) \<le> vr_cap t1 \<and> chunks M2 = chunks M \<and>
       (\<exists>a n. t1 = t\<lparr>vr_array := a, vr_cap := n\<rparr>)
     else t1 = t \<and> M2 = M"
    using grow_vector_ok [OF ok e] by blast
  show ?thesis
  proof (cases b)
    case False
    with chunk_returned [OF ok c(1,3)] g \<open>tail_below_end e v t\<close> show ?thesis by (auto simp: migrate_into_def)
  next
    case True
    then have g2: "vrefs_ok M2 v t1" "length (vr_vec t1) + length (vr_vec v) \<le> vr_cap t1" "chunks M2 = chunks M"
      using g(2) by simp_all
    obtain a n where t1: "t1 = t\<lparr>vr_array := a, vr_cap := n\<rparr>" using g(2) True by auto
    have same: "vref_contents M2 t1 = vref_contents M t" "vref_contents M2 v = vref_contents M v"
      using iov_cong(2) [OF g2(3)] by (simp_all add: vref_contents_def t1 cong: map_cong)
    have "vr_chunk_size t1 \<le> vr_chunk_size v" "chunks M2 c = Some m" "c \<notin> set (ib_head v) \<union> set (ib_head t1)"
      using size c g2(3) by (simp_all add: t1)
    from move_all_ok [OF g2(1) this(1) g2(2) this(2) c(2) this(3)] g(1) True \<open>tail_below_end e v t\<close> same
    show ?thesis by (auto simp: migrate_into_def migrated_def)
  qed
qed

lemma vrefbuffer_migrate_ok:
  assumes ok: "vrefs_ok M v t" and e: "bounded e" and size: "vr_chunk_size t \<le> vr_chunk_size v"
    and room: "tail_below_end e v t \<or> length (vr_vec t) + length (vr_vec v) \<le> vr_cap t"
  shows "\<exists>x v' t' M'. vrefbuffer_migrate e v t M = Some (x, v', t', M') \<and> migrated M v t x M' v' t'"
proof -
  have o: "vref_ok M v" "vref_ok M t" "vr_array v \<noteq> vr_array t" "set (ib_head v) \<inter> set (ib_head t) = {}"
    using ok by (simp_all add: vrefs_ok_def)
  have sz: "vr_chunk_size v + 8 < 2 ^ 64" using o(1) by (simp add: vref_ok_def chunks_ok_def)
  show ?thesis
  proof (cases rule: malloc_chunk_result [OF sz, of e M])
    case 1
    then show ?thesis using ok by (simp add: vrefbuffer_migrate_def migrated_def)
  next
    case r: (2 q M1)
    note kv = chunk_kept [OF o(1) r sz] and kt = chunk_kept [OF o(2) r sz]
    obtain m where m: "chunks M1 = (chunks M)(q \<mapsto> m)" "length m = vr_chunk_size v" using fresh_chunk(4) [OF r sz] by blast
    have "vrefs_ok M1 v t" "chunks M1 q = Some m" "q \<notin> set (ib_head v) \<union> set (ib_head t)"
      using kv kt o(3,4) m(1) by (simp_all add: vrefs_ok_def)
    note mi = migrate_into_ok [OF this(1) e size room this(2) m(2) this(3), unfolded migrated_def kv(2) kt(2)]
    moreover have "vrefbuffer_migrate e v t M = migrate_into e q v t M1" using r by (simp add: vrefbuffer_migrate_def)
    ultimately show ?thesis by (simp only: migrated_def)
  qed
qed

text \<open>The test compares the wrong ends: when the vector of the other buffer lies above that of this one, it
  is never enlarged.\<close>

lemma vrefbuffer_migrate_overruns:
  assumes ok: "vrefs_ok M v t" and granted: "grants e (of_nat (8 + vr_chunk_size v))"
    and "\<not> tail_below_end e v t" and "vr_cap t < length (vr_vec t) + length (vr_vec v)"
  shows "vrefbuffer_migrate e v t M = None"
proof -
  have sz: "vr_chunk_size v + 8 < 2 ^ 64" and o: "vref_ok M t" using ok by (simp_all add: vrefs_ok_def vref_ok_def chunks_ok_def)
  then obtain q M1 where r: "malloc_chunk e (vr_chunk_size v) M = Some (Some q, M1)"
    using granted by (auto simp: malloc_chunk_def Let_def)
  from chunk_kept(1) [OF o r sz] have "arrays M1 (vr_array t) = Some (vr_cap t)" by (simp add: vref_ok_def vector_ok_def)
  then show ?thesis using r assms(3,4) by (simp add: vrefbuffer_migrate_def migrate_into_def move_all_def)
qed

end
