(* ===== verification/Mp_Fbuffer.thy ===== *)
theory Mp_Fbuffer
  imports Mp_Roundtrip
begin

text \<open>
  The stream that writes to a file of the C library (\<^verbatim>\<open>msgpack-c/include/msgpack/v1/fbuffer.hpp\<close>). The
  device behind the file takes a number of the bytes it is offered; \<^const>\<open>None\<close> is the exception.
\<close>

record file_env =
  device_takes :: "nat \<Rightarrow> nat"

text \<open>\<^verbatim>\<open>fwrite(buf, size, 1, file)\<close> for the bytes written so far: the number of elements written in full, which
  is zero when the size is zero.\<close>

definition fwrite :: "file_env \<Rightarrow> nat \<Rightarrow> byte list \<Rightarrow> byte list \<Rightarrow> nat \<times> byte list" where
  "fwrite d sz src f =
     (if sz = 0 then (0, f)
      else let n = min sz (device_takes d (length f)) in
        (if n = sz then 1 else 0, f @ take n src))"

text \<open>The length parameter of \<^verbatim>\<open>write\<close> is an \<^verbatim>\<open>unsigned int\<close>.\<close>

definition fbuffer_write :: "file_env \<Rightarrow> byte list stream_write" where
  "fbuffer_write d src f =
     (let len = unat (of_nat (length src) :: 32 word);
          (n, f) = fwrite d len src f in
      if 1 \<noteq> n then None else Some f)"

lemma fbuffer_write_appends:
  assumes "length src < 2 ^ 32" and "fbuffer_write d src f = Some f'"
  shows "f' = f @ src"
  using assms unat_of_nat_small [OF assms(1)]
  by (auto simp: fbuffer_write_def fwrite_def Let_def split: if_splits)

text \<open>Pieces that are not empty are written when the device takes them.\<close>

lemma fbuffer_write_total:
  assumes "src \<noteq> []" and "length src < 2 ^ 32" and "length src \<le> device_takes d (length f)"
  shows "fbuffer_write d src f = Some (f @ src)"
  using assms unat_of_nat_small [OF assms(2)] by (simp add: fbuffer_write_def fwrite_def Let_def min_absorb1)

text \<open>An empty piece is always reported as a failure: a value with an empty string cannot be packed.\<close>

lemma fbuffer_empty_throws: "fbuffer_write d [] f = None"
  by (simp add: fbuffer_write_def fwrite_def)

interpretation fbuf: byte_stream "fbuffer_write d" "\<lambda>_. True" "\<lambda>f. f" "2 ^ 32" for d
proof
  fix f f' and src :: "byte list"
  assume "length f + length src < 2 ^ 32" "fbuffer_write d src f = Some f'"
  then show "True \<and> f' = f @ src" using fbuffer_write_appends [of src d f f'] by simp
qed

lemma fbuffer_packs:
  assumes "length f + length (enc_value fp ob) < 2 ^ 32" and "pack_value fp (fbuffer_write d) ob f = Some f'"
  shows "f' = f @ enc_value fp ob"
  using fbuf.putsD [OF fbuf.packed_bytes(1) [of fp d ob], of f f'] assms by simp

lemma fbuffer_empty_string: "pack_value fp (fbuffer_write d) (STR_t []) f = None"
  by (cases "pack_str (fbuffer_write d) 0 f") (simp_all add: fbuffer_empty_throws pack_str_body_def)

end
