(* ===== verification/Mp_Unpacker.thy ===== *)
theory Mp_Unpacker
  imports Mp_Stream Mp_Unpack "HOL-Library.Multiset" "HOL-Library.Sublist"
begin

text \<open>
  The class \<^verbatim>\<open>unpacker\<close> of \<^verbatim>\<open>msgpack-c/include/msgpack/v2/unpack.hpp\<close>: a parser with a buffer and a visitor that
  builds objects in a zone. A string of an object may lie in the buffer; then the zone gets a finalizer that
  gives the buffer back, and the counter of the buffer is the number of zones and parsers that need it.
  A zone goes to the caller with the object; the memory of a zone goes with it.
\<close>

type_synonym unpacker = "nat zone co_state option parser"

subsection \<open>The visitor holder\<close>

text \<open>\<^verbatim>\<open>zone_push_finalizer\<close>, the hook of the parser. The finalizer is \<^verbatim>\<open>decr_count\<close> for the buffer it names.\<close>

definition zone_push_finalizer :: "allocator \<Rightarrow> nat \<Rightarrow> nat zone co_state option \<Rightarrow> mp_exn option \<times> nat zone co_state option" where
  "zone_push_finalizer al q st =
     (case st of
        None \<Rightarrow> (None, None)
      | Some s \<Rightarrow> (case push_finalizer al q (co_zone s) of (x, z) \<Rightarrow> (x, Some (s\<lparr>co_zone := z\<rparr>))))"

definition visitor_referenced :: "'z co_state option \<Rightarrow> bool" where
  "visitor_referenced st = (case st of None \<Rightarrow> False | Some s \<Rightarrow> co_referenced s)"

definition set_referenced :: "bool \<Rightarrow> 'z co_state option \<Rightarrow> 'z co_state option" where
  "set_referenced b = map_option (\<lambda>s. s\<lparr>co_referenced := b\<rparr>)"

definition unpacker_holder :: "allocator \<Rightarrow> fpu \<Rightarrow> reference_func \<Rightarrow> unpack_limit \<Rightarrow> nat zone co_state option holder" where
  "unpacker_holder al fp f limit =
     \<lparr>ho_visitor = create_object_visitor (unpack_env al fp f limit), ho_referenced = visitor_referenced,
      ho_set_referenced = set_referenced, ho_hook = zone_push_finalizer al\<rparr>"

subsection \<open>Finalizers\<close>

text \<open>The finalizers of a zone that is cleared or destroyed.\<close>

fun run_finalizers :: "nat list \<Rightarrow> rc_heap \<Rightarrow> rc_heap option" where
  "run_finalizers [] H = Some H"
| "run_finalizers (q # qs) H = do { H \<leftarrow> decr_count q H; run_finalizers qs H }"

text \<open>What a \<^verbatim>\<open>unique_ptr\<close> to a zone does with it.\<close>

definition drop_zone :: "nat zone option \<Rightarrow> rc_heap \<Rightarrow> rc_heap option" where
  "drop_zone z H = (case z of None \<Rightarrow> Some H | Some z \<Rightarrow> run_finalizers (fst (zone_destroy z)) H)"

subsection \<open>\<^verbatim>\<open>unpacker\<close>\<close>

text \<open>What ends an operation: an exception, or the end of the program when the constructor of a zone, which is
  \<^verbatim>\<open>noexcept\<close>, gets no memory.\<close>

datatype up_stop = Thrown mp_exn | Terminated

definition make_zone :: "allocator \<Rightarrow> nat \<Rightarrow> up_stop + nat zone" where
  "make_zone al calls =
     (case new_zone al calls of None \<Rightarrow> Inl Terminated | Some (Inl x) \<Rightarrow> Inl (Thrown x) | Some (Inr z) \<Rightarrow> Inr z)"

text \<open>The constructor; when the zone cannot be had the parser that exists already is destroyed.\<close>

definition unpacker_new :: "allocator \<Rightarrow> nat \<Rightarrow> heap_env \<Rightarrow> nat \<Rightarrow> (up_stop + unpacker) option" where
  "unpacker_new al calls h initial_buffer_size =
     (case parser_new h initial_buffer_size None of
        Inl x \<Rightarrow> Some (Inl (Thrown x))
      | Inr p \<Rightarrow>
          (case make_zone al calls of
            Inl x \<Rightarrow> do { parser_delete p; Some (Inl x) }
          | Inr z \<Rightarrow> Some (Inr (px_set_visitor (Some (create_object_visitor_new z Map.empty Map.empty)) p))))"

definition flush_zone :: "allocator \<Rightarrow> unpacker \<Rightarrow> (bool \<times> unpacker) option" where
  "flush_zone al p =
     (if visitor_referenced (px_visitor p)
      then case zone_push_finalizer al (m_buffer p) (px_visitor p) of
          (Some x, v) \<Rightarrow> Some (False, px_set_visitor v p)
        | (None, v) \<Rightarrow> do {
            H \<leftarrow> incr_count (m_buffer p) (px_heap p);
            Some (True, (px_set_visitor (set_referenced False v) p)\<lparr>px_heap := H\<rparr>) }
      else Some (True, p))"

text \<open>The zone of the objects, with its memory; the visitor goes on with a new one.\<close>

type_synonym owned_zone = "nat zone \<times> (nat \<rightharpoonup> mem_obj) \<times> (nat \<rightharpoonup> byte)"

definition release_zone :: "allocator \<Rightarrow> unpacker \<Rightarrow> ((up_stop + owned_zone option) \<times> unpacker) option" where
  "release_zone al p = do {
     (flushed, p) \<leftarrow> flush_zone al p;
     if \<not> flushed then Some (Inr None, p)
     else do {
       s \<leftarrow> px_visitor p;
       Some (case make_zone al (z_calls (co_zone s)) of
           Inl x \<Rightarrow> (Inl x, p)
         | Inr z \<Rightarrow> (Inr (Some (co_zone s, co_mem s, co_bytes s)),
             px_set_visitor (Some (s\<lparr>co_zone := z, co_mem := Map.empty, co_bytes := Map.empty\<rparr>)) p)) } }"

definition reset_zone :: "unpacker \<Rightarrow> unpacker option" where
  "reset_zone p = do {
     s \<leftarrow> px_visitor p;
     case zone_clear (co_zone s) of (calls, freed, z) \<Rightarrow> do {
       H \<leftarrow> run_finalizers calls (px_heap p);
       Some ((px_set_visitor (Some (s\<lparr>co_zone := z, co_mem := Map.empty, co_bytes := Map.empty\<rparr>)) p)\<lparr>px_heap := H\<rparr>) } }"

text \<open>\<open>next\<close>: the answer or the exception, the handle and the flag of the caller, and the unpacker.\<close>

definition handle_zone :: "owned_zone option \<Rightarrow> mem_obj \<Rightarrow> nat object_handle" where
  "handle_zone z ob =
     (case z of
        None \<Rightarrow> object_handle_new\<lparr>oh_obj := ob\<rparr>
      | Some (z, m, b) \<Rightarrow> \<lparr>oh_obj = ob, oh_zone = Some z, oh_mem = m, oh_bytes = b\<rparr>)"

definition unpacker_next :: "allocator \<Rightarrow> fpu \<Rightarrow> reference_func \<Rightarrow> unpack_limit \<Rightarrow> nat object_handle \<Rightarrow> bool \<Rightarrow> unpacker \<Rightarrow>
    ((up_stop + bool) \<times> nat object_handle \<times> bool \<times> unpacker) option" where
  "unpacker_next al fp f limit result referenced p = do {
     (r, p) \<leftarrow> parser_next (unpacker_holder al fp f limit) p;
     case r of
       Inl x \<Rightarrow> Some (Inl (Thrown x), result, referenced, p)
     | Inr False \<Rightarrow> do {
         H \<leftarrow> drop_zone (oh_zone result) (px_heap p);
         Some (Inr False, object_handle_new, referenced, p\<lparr>px_heap := H\<rparr>) }
     | Inr True \<Rightarrow> do {
         let referenced = visitor_referenced (px_visitor p);
         (z, p) \<leftarrow> release_zone al p;
         case z of
           Inl x \<Rightarrow> Some (Inl x, result, referenced, p)
         | Inr z \<Rightarrow> do {
             H \<leftarrow> drop_zone (oh_zone result) (px_heap p);
             s \<leftarrow> px_visitor p;
             Some (Inr True, handle_zone z (co_obj s), referenced,
               parser_reset (unpacker_holder al fp f limit) (p\<lparr>px_heap := H\<rparr>)) } } }"

definition unpacker_next_result :: "allocator \<Rightarrow> fpu \<Rightarrow> reference_func \<Rightarrow> unpack_limit \<Rightarrow> nat object_handle \<Rightarrow> unpacker \<Rightarrow>
    ((up_stop + bool) \<times> nat object_handle \<times> unpacker) option" where
  "unpacker_next_result al fp f limit result p =
     map_option (\<lambda>(r, result, referenced, p). (r, result, p)) (unpacker_next al fp f limit result False p)"

text \<open>The destructor: the zone first, then the parser.\<close>

definition unpacker_delete :: "unpacker \<Rightarrow> rc_heap option" where
  "unpacker_delete p = do {
     H \<leftarrow> drop_zone (map_option co_zone (px_visitor p)) (px_heap p);
     parser_delete (p\<lparr>px_heap := H\<rparr>) }"

subsection \<open>Counting\<close>

text \<open>The counter of every buffer is the number of its owners, and a buffer without owners is gone.\<close>

definition counted :: "nat multiset \<Rightarrow> rc_heap \<Rightarrow> bool" where
  "counted M H \<longleftrightarrow>
     (\<forall>q. H q = None \<longleftrightarrow> q \<notin># M) \<and> (\<forall>q b. H q = Some b \<longrightarrow> unat (rc_count b) = count M q)"

lemma countedD: "counted M H \<Longrightarrow> q \<in># M \<Longrightarrow> \<exists>b. H q = Some b \<and> unat (rc_count b) = count M q"
  by (auto simp: counted_def)

lemma counted_empty: "counted {#} H \<Longrightarrow> H = Map.empty"
  by (simp add: counted_def fun_eq_iff)

lemma counted_decr:
  assumes "counted (add_mset q M) H"
  shows "\<exists>H'. decr_count q H = Some H' \<and> counted M H' \<and>
    (\<forall>r. r \<in># M \<longrightarrow> map_option rc_bytes (H' r) = map_option rc_bytes (H r)) \<and> (\<forall>r. H r = None \<longrightarrow> H' r = None)"
proof -
  obtain b where b: "H q = Some b" "unat (rc_count b) = Suc (count M q)" using countedD [OF assms, of q] by auto
  have u: "unat (rc_count b - 1) = count M q" using b(2) by (metis diff_Suc_1 nat.distinct(1) unat_eq_zero unat_minus_one)
  define H' where "H' = (if rc_count b - 1 = 0 then H(q := None) else H(q \<mapsto> b\<lparr>rc_count := rc_count b - 1\<rparr>))"
  have d: "decr_count q H = Some H'" using b(1) by (simp add: decr_count_def H'_def)
  have z: "rc_count b - 1 = 0 \<longleftrightarrow> q \<notin># M" using u by (metis not_in_iff unat_eq_zero)
  have "counted M H'"
    using assms z u by (auto simp: counted_def H'_def)
  moreover have "\<forall>r. r \<in># M \<longrightarrow> map_option rc_bytes (H' r) = map_option rc_bytes (H r)" "\<forall>r. H r = None \<longrightarrow> H' r = None"
    using z b(1) by (auto simp: H'_def)
  ultimately show ?thesis using d by blast
qed

lemma counted_incr:
  assumes "counted M H" and "q \<in># M" and "count M q + 1 < 2 ^ 32"
  shows "\<exists>H'. incr_count q H = Some H' \<and> counted (add_mset q M) H' \<and>
    (\<forall>r. map_option rc_bytes (H' r) = map_option rc_bytes (H r))"
proof -
  obtain b where b: "H q = Some b" "unat (rc_count b) = count M q" using countedD [OF assms(1,2)] by blast
  have "unat (rc_count b + 1) = count M q + 1"
    using b(2) assms(3) by (simp add: unat_word_ariths)
  then have "counted (add_mset q M) (H(q \<mapsto> b\<lparr>rc_count := rc_count b + 1\<rparr>))"
    using assms(1,2) b by (auto simp: counted_def)
  then show ?thesis using b(1) by (simp add: incr_count_def)
qed

lemma counted_run:
  "counted (mset qs + M) H \<Longrightarrow> \<exists>H'. run_finalizers qs H = Some H' \<and> counted M H' \<and>
    (\<forall>r. r \<in># M \<longrightarrow> map_option rc_bytes (H' r) = map_option rc_bytes (H r)) \<and> (\<forall>r. H r = None \<longrightarrow> H' r = None)"
proof (induction qs arbitrary: H)
  case (Cons q qs)
  have "counted (add_mset q (mset qs + M)) H" using Cons.prems by simp
  from counted_decr [OF this] obtain H1 where "decr_count q H = Some H1" "counted (mset qs + M) H1"
      "\<forall>r. r \<in># mset qs + M \<longrightarrow> map_option rc_bytes (H1 r) = map_option rc_bytes (H r)" "\<forall>r. H r = None \<longrightarrow> H1 r = None" by blast
  moreover from Cons.IH [OF this(2)] obtain H2 where "run_finalizers qs H1 = Some H2" "counted M H2"
      "\<forall>r. r \<in># M \<longrightarrow> map_option rc_bytes (H2 r) = map_option rc_bytes (H1 r)" "\<forall>r. H1 r = None \<longrightarrow> H2 r = None" by blast
  ultimately show ?case by simp
qed simp

lemma counted_init: "counted M H \<Longrightarrow> H q = None \<Longrightarrow> counted (add_mset q M) (H(q \<mapsto> init_count d))"
  by (auto simp: counted_def init_count_def not_in_iff)

subsection \<open>What a run of the parser keeps\<close>

text \<open>The visitor pushes no finalizer, and refers to the buffer only when the function for that says so.\<close>

definition never :: "reference_func \<Rightarrow> bool" where
  "never f \<longleftrightarrow> (case f of None \<Rightarrow> True | Some g \<Rightarrow> \<forall>ty n. \<not> g ty n)"

definition zone_keeps :: "reference_func \<Rightarrow> bool \<Rightarrow> nat list \<Rightarrow> nat \<Rightarrow> nat zone co_state option \<Rightarrow> bool" where
  "zone_keeps f qt fs n v \<longleftrightarrow>
     (\<forall>s. v = Some s \<longrightarrow> z_fins (co_zone s) = fs \<and> z_fin_cap (co_zone s) = n \<and> (qt \<and> never f \<longrightarrow> \<not> co_referenced s))"

lemma allocate_align_fins:
  "allocate_align al n a z = (r, z') \<Longrightarrow> z_fins z' = z_fins z \<and> z_fin_cap z' = z_fin_cap z"
  by (auto simp: allocate_align_def allocate_expand_def bump_def Let_def split: if_splits option.splits)

lemma with_obj_keeps: "with_obj g s = Some s' \<Longrightarrow> co_zone s' = co_zone s \<and> co_referenced s' = co_referenced s"
  by (auto simp: with_obj_def set_obj_def split: list.splits option.splits obj_ptr.splits)

lemma zone_keeps_with_obj: "zone_keeps f qt fs n (Some s) \<Longrightarrow> zone_keeps f qt fs n (with_obj g s)"
  by (auto simp: zone_keeps_def dest!: with_obj_keeps)

lemma value_keeps: "zone_keeps f qt fs n v \<Longrightarrow> zone_keeps f qt fs n (snd (co_value ty via v))"
  by (cases v) (simp_all add: co_value_def zone_keeps_with_obj)

lemma advance_keeps: "zone_keeps f qt fs n v \<Longrightarrow> zone_keeps f qt fs n (snd (co_advance v))"
  by (cases v) (auto simp: co_advance_def zone_keeps_def split: list.splits obj_ptr.splits)

lemma pop_keeps: "zone_keeps f qt fs n v \<Longrightarrow> zone_keeps f qt fs n (snd (co_pop v))"
  by (cases v) (auto simp: co_pop_def zone_keeps_def split: list.splits)

lemma zone_keeps_alloc:
  "zone_keeps f qt fs n (Some s) \<Longrightarrow> allocate_align al k a (co_zone s) = (r, z) \<Longrightarrow>
     zone_keeps f qt fs n (Some (s\<lparr>co_zone := z\<rparr>)) \<and> zone_keeps f qt fs n (Some (s\<lparr>co_zone := z, co_bytes := b\<rparr>)) \<and>
     zone_keeps f qt fs n (Some (s\<lparr>co_zone := z, co_mem := m\<rparr>))"
  by (auto simp: zone_keeps_def dest: allocate_align_fins)

lemma zone_keeps_stack [simp]: "zone_keeps f qt fs n (map_option (\<lambda>s. s\<lparr>co_stack := g s\<rparr>) v) = zone_keeps f qt fs n v"
  by (auto simp: zone_keeps_def)

lemma body_keeps:
  assumes "zone_keeps f qt fs n v" and "co_func e = f" and "co_alloc e = allocate_align al"
  shows "zone_keeps f qt fs n (snd (co_body e limit x ty via bs v))"
proof (cases "v \<bind> with_obj (\<lambda>ob. ob\<lparr>ob_type := ty\<rparr>)")
  case None
  then show ?thesis using assms(1) by (simp add: co_body_def Let_def) (simp add: zone_keeps_def)
next
  case (Some s)
  then have k: "zone_keeps f qt fs n (Some s)" using assms(1) zone_keeps_with_obj by (cases v) (simp_all, metis)
  have ref: "zone_keeps f qt fs n (with_obj g (s\<lparr>co_referenced := True\<rparr>))" if "\<not> (qt \<and> never f)" for g
    using k that by (intro zone_keeps_with_obj) (simp add: zone_keeps_def)
  have nev: "never f \<Longrightarrow> \<not> (case f of None \<Rightarrow> False | Some g \<Rightarrow> g ty (length bs))"
    by (cases f) (simp_all add: never_def)
  obtain r z where a: "allocate_align al (length bs) 1 (co_zone s) = (r, z)" by force
  note za = zone_keeps_alloc [OF k a]
  show ?thesis
    using assms(1) ref nev za zone_keeps_with_obj a by (cases r) (auto simp: co_body_def Let_def Some assms(2,3))
qed

lemma start_keeps:
  assumes "zone_keeps f qt fs n v" and "co_alloc e = allocate_align al"
  shows "zone_keeps f qt fs n (snd (co_start e limit x ty via k num v))"
proof (cases v)
  case None
  then show ?thesis by (simp add: co_start_def zone_keeps_def Let_def)
next
  case (Some s0)
  show ?thesis
  proof (cases "with_obj (\<lambda>_. \<lparr>ob_type = ty, ob_via = V_size (unat num)\<rparr>) s0")
    case None
    then show ?thesis using assms(1) Some by (simp add: co_start_def Let_def) (simp add: zone_keeps_def)
  next
    case s: (Some s)
    have k: "zone_keeps f qt fs n (Some s)" using assms(1) Some zone_keeps_with_obj s by metis
    obtain r z where a: "allocate_align al (u64 (unat num * (k * 24))) 8 (co_zone s) = (r, z)" by force
    note za = zone_keeps_alloc [OF k a]
    show ?thesis
      using assms(1) k za zone_keeps_with_obj a by (cases r) (auto simp: co_start_def Let_def Some s assms(2))
  qed
qed

lemma unpack_env_func [simp]: "co_func (unpack_env al fp f limit) = f"
  by (simp add: unpack_env_def)

lemma call_keeps:
  "zone_keeps f qt fs n v \<Longrightarrow> zone_keeps f qt fs n (snd (call (create_object_visitor (unpack_env al fp f limit)) k v))"
proof -
  let ?e = "unpack_env al fp f limit"
  assume z: "zone_keeps f qt fs n v"
  have nil: "zone_keeps f qt fs n (snd (visit_nil (create_object_visitor ?e) v))"
  proof (cases v)
    case None
    then show ?thesis by (simp add: create_object_visitor_def zone_keeps_def Let_def)
  next
    case (Some s)
    then show ?thesis using z zone_keeps_with_obj by (simp add: pool.create_callbacks)
  qed
  note body = body_keeps [OF z, of ?e al] and start = start_keeps [OF z, of ?e al]
  show ?thesis
    using z nil body start value_keeps [OF z] advance_keeps [OF z] pop_keeps [OF z]
    by (cases k) (simp_all add: pool.create_callbacks)
qed

lemma calls_keep:
  fixes w :: unit
  assumes "zone_keeps f qt fs n v"
  shows "follows (\<lambda>r v w. zone_keeps f qt fs n v) (\<lambda>v w. zone_keeps f qt fs n v)
    (call (create_object_visitor (unpack_env al fp f limit)) k v) (call null_visitor k w)"
  using call_keeps [OF assms, of al fp limit k] by (simp add: follows_def pool.null_call)

lemmas each_call_keeps = calls_keep [where k = "C_start_array n" for n, unfolded call.simps]
  calls_keep [where k = C_start_array_item, unfolded call.simps] calls_keep [where k = C_end_array_item, unfolded call.simps]
  calls_keep [where k = C_end_array, unfolded call.simps] calls_keep [where k = "C_start_map n" for n, unfolded call.simps]
  calls_keep [where k = C_start_map_key, unfolded call.simps] calls_keep [where k = C_end_map_key, unfolded call.simps]
  calls_keep [where k = C_start_map_value, unfolded call.simps] calls_keep [where k = C_end_map_value, unfolded call.simps]
  calls_keep [where k = C_end_map, unfolded call.simps]

interpretation keeping: visitor_protocol "create_object_visitor (unpack_env al fp f limit)" "null_visitor :: unit visitor"
    "\<lambda>st v w. zone_keeps f qt fs n v" "\<lambda>r v w. zone_keeps f qt fs n v" "\<lambda>p v. zone_keeps f qt fs n v"
  for al fp f limit qt fs n
  by unfold_locales (auto simp del: null_calls simp: pool.null_call intro: calls_keep [unfolded pool.null_call] each_call_keeps)

text \<open>A run over bytes: the parser waits, or the object is complete, or an exception was thrown; the finalizers
  are the same.\<close>

definition ready :: "allocator \<Rightarrow> nat zone co_state option mp_context \<Rightarrow> bool" where
  "ready al c \<longleftrightarrow> ctx_ok c \<and> slot (m_stack c) \<and> pool.builds al (m_stack c) (m_visitor c)"

lemma builds_kept: "pool.builds al st v \<Longrightarrow> pool.kept al v"
  by (auto simp: pool.builds_def pool.kept_def)

lemma unpacker_run:
  assumes "ready al c" and "zone_keeps f qt fs n (m_visitor c)"
    and "exec_bytes (create_object_visitor (unpack_env al fp f limit)) bs c = Some (r, c1)"
  shows "pool.kept al (m_visitor c1)" and "zone_keeps f qt fs n (m_visitor c1)"
    and "r = PARSE_CONTINUE \<and> ready al c1 \<or> r = PARSE_SUCCESS \<and> pool.builds al [] (m_visitor c1) \<or> (\<exists>x. r = THROWN x)"
proof -
  let ?V = "create_object_visitor (unpack_env al fp f limit)"
  have e: "execute ?V bs (length bs) 0 c = Some (r, c1)" using assms(3) by (simp add: exec_bytes_def)
  have c: "ctx_ok c" "slot (m_stack c)" "pool.builds al (m_stack c) (m_visitor c)" using assms(1) by (simp_all add: ready_def)
  obtain r' c' where b: "created.in_step al (Some r, False, c1) (Some r', False, c')"
    by (rule created.execute_in_step [where off = 0 and len = "length bs" and data = bs and c = c and w = "()"
        and al = al and fp = fp and f = f and limit = limit]) (use c e in simp_all)
  obtain r'' c'' where k: "keeping.in_step f qt fs n (Some r, False, c1) (Some r'', False, c'')"
    by (rule keeping.execute_in_step [where off = 0 and len = "length bs" and data = bs and c = c and w = "()"
        and al = al and fp = fp and f = f and limit = limit and qt = qt and fs = fs and n = n]) (use c e assms(2) in simp_all)
  show "zone_keeps f qt fs n (m_visitor c1)" using k by (auto simp: keeping.in_step_def)
  show "pool.kept al (m_visitor c1)" using b by (auto simp: created.in_step_def intro: builds_kept)
  have "r = PARSE_CONTINUE \<longrightarrow> ctx_ok c1" using execute_total [of 0 "length bs" bs c ?V] c(1) e by simp
  then show "r = PARSE_CONTINUE \<and> ready al c1 \<or> r = PARSE_SUCCESS \<and> pool.builds al [] (m_visitor c1) \<or> (\<exists>x. r = THROWN x)"
    using b ret_of_throws by (auto simp: created.in_step_def ready_def)
qed

subsection \<open>The invariant\<close>

text \<open>The finalizers of a zone, and the owners of the buffers: \<open>M\<close> are the finalizers in the zones of the caller.\<close>

definition fins :: "nat zone co_state option \<Rightarrow> nat multiset" where
  "fins v = (case v of None \<Rightarrow> {#} | Some s \<Rightarrow> mset (z_fins (co_zone s)))"

definition owners :: "nat multiset \<Rightarrow> unpacker \<Rightarrow> nat multiset" where
  "owners M p = add_mset (m_buffer p) (fins (px_visitor p) + M)"

definition visitor_ok :: "allocator \<Rightarrow> nat zone co_state option \<Rightarrow> bool" where
  "visitor_ok al v \<longleftrightarrow> (\<exists>s. v = Some s \<and> pool.co_ok al s \<and> fins_ok (co_zone s))"

definition unpacker_ok :: "allocator \<Rightarrow> nat multiset \<Rightarrow> unpacker \<Rightarrow> bool" where
  "unpacker_ok al M p \<longleftrightarrow>
     parser_ok p \<and> 0 < m_buffer p \<and> visitor_ok al (px_visitor p) \<and> counted (owners M p) (px_heap p) \<and>
     (m_off p = 4 \<longrightarrow> m_buffer p \<notin># fins (px_visitor p) + M)"

lemma push_finalizer_fins_ok:
  assumes "malloc_ok al" and "fins_ok z" and "push_finalizer al f z = (x, z')"
  shows "fins_ok z'"
proof -
  have c: "z_fin_cap z < 2 ^ 59" using assms(2) by (simp add: fins_ok_def)
  have big: "16 * n < 2 ^ 63" if "al i (u64 (16 * n)) = Some p" "n < 2 ^ 60" for i n p
  proof -
    have "u64 (16 * n) = 16 * n" using that(2) by simp
    then have "0 < p \<and> p + 16 * n \<le> 2 ^ 63" using assms(1) that(1) by (auto simp: malloc_ok_def)
    then show ?thesis by linarith
  qed
  have "z_fin_cap z' < 2 ^ 59"
  proof (cases "z_fin_cap z = 0")
    case True
    then show ?thesis using assms(3) by (auto simp: push_finalizer_def push_expand_def Let_def split: if_splits option.splits)
  next
    case False
    then have "u64 (z_fin_cap z * 2) = z_fin_cap z * 2" using c by simp
    then show ?thesis using assms(3) c False big [of _ "z_fin_cap z * 2"]
      by (auto simp: push_finalizer_def push_expand_def Let_def split: if_splits option.splits)
  qed
  then show ?thesis by (rule push_finalizer_ok(2) [OF assms(2,3)])
qed

lemma co_ok_malloc: "pool.co_ok al s \<Longrightarrow> malloc_ok al"
  by (simp add: pool.co_ok_def)

text \<open>The hook.\<close>

lemma hook_ok:
  assumes "visitor_ok al v" and "zone_push_finalizer al q v = (x, v')"
  shows "visitor_ok al v'" and "fins v' = (if x = None then add_mset q (fins v) else fins v)"
    and "pool.builds al st v \<Longrightarrow> pool.builds al st v'" and "visitor_ok al (set_referenced b v')"
    and "fins (set_referenced b v') = fins v'" and "pool.builds al st v \<Longrightarrow> pool.builds al st (set_referenced b v')"
proof -
  obtain s where s: "v = Some s" "pool.co_ok al s" "fins_ok (co_zone s)" using assms(1) by (auto simp: visitor_ok_def)
  obtain z where z: "push_finalizer al q (co_zone s) = (x, z)" "v' = Some (s\<lparr>co_zone := z\<rparr>)"
    using assms(2) s(1) by (auto simp: zone_push_finalizer_def split: prod.splits)
  note push = push_finalizer_ok [OF s(3) z(1)]
  have ok: "zone_ok al (co_zone s)" "malloc_ok al" using s(2) by (simp_all add: pool.co_ok_def)
  have z': "zone_ok al z" "used_memory z = used_memory (co_zone s)"
    using zone_ok_more_calls [OF ok(1), of z] push(3-7) by simp_all
  have fo: "fins_ok z" by (rule push_finalizer_fins_ok [OF ok(2) s(3) z(1)])
  have co: "pool.co_ok al (s\<lparr>co_zone := z\<rparr>)" "pool.co_ok al (s\<lparr>co_zone := z, co_referenced := b\<rparr>)"
    using s(2) z' unfolding pool.co_ok_def by simp_all
  show "visitor_ok al v'" "visitor_ok al (set_referenced b v')" using co fo by (simp_all add: visitor_ok_def z(2) set_referenced_def)
  show "fins v' = (if x = None then add_mset q (fins v) else fins v)" using push(1) by (simp add: fins_def z(2) s(1))
  show "fins (set_referenced b v') = fins v'" by (simp add: fins_def z(2) set_referenced_def)
  have sl: "slots (s\<lparr>co_zone := z\<rparr>) = slots s" "slots (s\<lparr>co_zone := z, co_referenced := b\<rparr>) = slots s"
    by (simp_all add: slots_def)
  show "pool.builds al st v \<Longrightarrow> pool.builds al st v'" "pool.builds al st v \<Longrightarrow> pool.builds al st (set_referenced b v')"
    using co by (auto simp: pool.builds_def z(2) s(1) set_referenced_def sl)
qed

text \<open>The bytes of a buffer that were parsed, which is where the strings of objects lie.\<close>

definition parsed_part :: "'v parser \<Rightarrow> nat \<Rightarrow> byte list" where
  "parsed_part p q =
     (case px_heap p q of None \<Rightarrow> [] | Some b \<Rightarrow> if q = m_buffer p then take (m_off p) (rc_bytes b) else rc_bytes b)"

definition stays :: "nat multiset \<Rightarrow> 'v parser \<Rightarrow> 'v parser \<Rightarrow> bool" where
  "stays M p p' \<longleftrightarrow> (\<forall>q. q \<in># M \<longrightarrow> prefix (parsed_part p q) (parsed_part p' q))"

lemma stays_refl: "stays M p p"
  by (simp add: stays_def)

lemma stays_trans: "stays M p q \<Longrightarrow> stays M' q r \<Longrightarrow> M \<subseteq># M' \<Longrightarrow> stays M p r"
  unfolding stays_def by (meson mset_subset_eqD prefix_order.trans)

text \<open>A step that leaves the buffer, or gives it up with the bytes as they are.\<close>

lemma same_bytes_stay:
  assumes "\<forall>q. q \<in># M \<longrightarrow> map_option rc_bytes (px_heap p' q) = map_option rc_bytes (px_heap p q)"
    and "m_buffer p' = m_buffer p \<and> m_off p \<le> m_off p' \<or> m_buffer p' \<noteq> m_buffer p \<and> m_buffer p' \<notin># M"
  shows "stays M p p'"
  unfolding stays_def
proof (intro allI impI)
  fix q assume q: "q \<in># M"
  with assms(1) have e: "map_option rc_bytes (px_heap p' q) = map_option rc_bytes (px_heap p q)" by blast
  show "prefix (parsed_part p q) (parsed_part p' q)"
  proof (cases "px_heap p q")
    case None
    then show ?thesis by (simp add: parsed_part_def)
  next
    case (Some b)
    then obtain b' where "px_heap p' q = Some b'" "rc_bytes b' = rc_bytes b" using e by auto
    moreover have "prefix (take (m_off p) (rc_bytes b)) (take (m_off p') (rc_bytes b))" if "m_off p \<le> m_off p'"
      using that take_is_prefix [of "m_off p" "take (m_off p') (rc_bytes b)"] by (simp add: min_def)
    ultimately show ?thesis using Some q assms(2) take_is_prefix by (auto simp: parsed_part_def)
  qed
qed

lemma owner_facts:
  assumes "unpacker_ok al M p" and "px_heap p (m_buffer p) = Some b"
  shows "unat (rc_count b) = Suc (count (fins (px_visitor p) + M) (m_buffer p))" and "px_next p \<notin># owners M p"
    and "px_heap p (px_next p) = None" and "px_next p \<noteq> m_buffer p" and "0 < px_next p"
proof -
  have c: "counted (owners M p) (px_heap p)" and "parser_ok p" using assms(1) by (simp_all add: unpacker_ok_def)
  then show n: "px_heap p (px_next p) = None" by (auto elim: parser_okE)
  then show "px_next p \<notin># owners M p" using c by (simp add: counted_def)
  show "px_next p \<noteq> m_buffer p" using n assms(2) by (metis option.distinct(1))
  have "\<forall>q \<ge> px_next p. px_heap p q = None" using \<open>parser_ok p\<close> by (auto elim: parser_okE)
  then show "0 < px_next p" using assms(2) by (metis gr0I le0 option.distinct(1))
  show "unat (rc_count b) = Suc (count (fins (px_visitor p) + M) (m_buffer p))" using c assms(2) by (simp add: counted_def owners_def)
qed

lemma alone:
  assumes "unpacker_ok al M p" and "px_heap p (m_buffer p) = Some b" and "m_off p = 4 \<or> can_rewind ho b p"
  shows "m_buffer p \<notin># fins (px_visitor p) + M"
proof (cases "m_off p = 4")
  case False
  then have "rc_count b = 1" using assms(3) by (simp add: can_rewind_def)
  then show ?thesis using owner_facts(1) [OF assms(1,2)] by (simp add: not_in_iff)
qed (use assms(1) in \<open>simp add: unpacker_ok_def\<close>)

lemma px_set_visitor_simps [simp]:
  "px_visitor (px_set_visitor v p) = v" "px_heap (px_set_visitor v p) = px_heap p" "m_buffer (px_set_visitor v p) = m_buffer p"
  "m_off (px_set_visitor v p) = m_off p" "m_used (px_set_visitor v p) = m_used p" "px_context (px_set_visitor v p) = (px_context p)\<lparr>m_visitor := v\<rparr>"
  by (simp_all add: px_set_visitor_def px_visitor_def)

lemma px_visitor_heap [simp]: "px_visitor (p\<lparr>px_heap := H\<rparr>) = px_visitor p"
  by (simp add: px_visitor_def)

lemma holder_simps [simp]:
  "ho_visitor (unpacker_holder al fp f limit) = create_object_visitor (unpack_env al fp f limit)"
  "ho_referenced (unpacker_holder al fp f limit) = visitor_referenced"
  "ho_set_referenced (unpacker_holder al fp f limit) = set_referenced"
  "ho_hook (unpacker_holder al fp f limit) = zone_push_finalizer al"
  by (simp_all add: unpacker_holder_def)

lemma turnover_keeps:
  assumes ok: "unpacker_ok al M p" and b: "px_heap p (m_buffer p) = Some b"
    and t: "turnover (unpacker_holder al fp f limit) b p p'" and po: "parser_ok p'"
  shows "unpacker_ok al M p' \<and> (ready al (px_context p) \<longrightarrow> ready al (px_context p')) \<and> stays M p p' \<and>
    size (fins (px_visitor p')) \<le> Suc (size (fins (px_visitor p)))"
proof -
  have v: "visitor_ok al (px_visitor p)" and c: "counted (add_mset (m_buffer p) (fins (px_visitor p) + M)) (px_heap p)"
    using ok by (simp_all add: unpacker_ok_def owners_def)
  note nx = owner_facts [OF ok b]
  have nM: "px_next p \<notin># M" using nx(2) by (simp add: owners_def)
  have ctx: "px_visitor p = m_visitor (px_context p)" by (simp add: px_visitor_def)
  from t show ?thesis
  proof (cases rule: turnover.cases)
    case kept
    then have "px_visitor p' = px_visitor p" by (simp add: px_visitor_def)
    moreover have "stays M p p'"
    proof (cases "m_off p' = m_off p")
      case False
      then have "m_buffer p \<notin># M" using kept(4) alone [OF ok b] by auto
      then show ?thesis using kept(1,2) by (auto simp: stays_def parsed_part_def split: option.splits)
    qed (use kept in \<open>auto intro!: same_bytes_stay\<close>)
    ultimately show ?thesis using kept v c po alone [OF ok b] ok by (auto simp: unpacker_ok_def owners_def)
  next
    case (refused x v')
    then have "zone_push_finalizer al (m_buffer p) (px_visitor p) = (Some x, v')" by simp
    note h = hook_ok [OF v this]
    show ?thesis using h(1-3) po ok refused(1)
      by (auto simp: unpacker_ok_def owners_def ready_def px_visitor_def ctx_ok_def intro!: same_bytes_stay)
  next
    case (grown d)
    have al: "m_buffer p \<notin># fins (px_visitor p) + M" by (rule alone [OF ok b grown(1)])
    have "counted (add_mset (px_next p) (fins (px_visitor p) + M)) (px_heap p')"
      using c b nx al unfolding grown(5) by (auto simp: counted_def owners_def not_in_iff)
    moreover have "stays M p p'"
      using al nM by (auto simp: stays_def parsed_part_def grown(2,5) split: option.splits)
    ultimately show ?thesis using v po nx(2,5) grown by (auto simp: unpacker_ok_def owners_def px_visitor_def)
  next
    case (released H d)
    obtain H' where H': "decr_count (m_buffer p) (px_heap p) = Some H'" "counted (fins (px_visitor p) + M) H'"
        "\<forall>r. r \<in># fins (px_visitor p) + M \<longrightarrow> map_option rc_bytes (H' r) = map_option rc_bytes (px_heap p r)"
        "\<forall>r. px_heap p r = None \<longrightarrow> H' r = None"
      using counted_decr [OF c] by blast
    then have H: "H = H'" using released(6) by simp
    have "counted (add_mset (px_next p) (fins (px_visitor p) + M)) (px_heap p')"
      unfolding released(7) H by (rule counted_init [OF H'(2)]) (use H'(4) nx(3) in simp)
    moreover have "stays M p p'"
      by (rule same_bytes_stay) (use H'(3) nM nx(4) in \<open>auto simp: released(3,7) H\<close>)
    ultimately show ?thesis using v po nx(2,5) released by (auto simp: unpacker_ok_def owners_def px_visitor_def)
  next
    case (handed v' d)
    then have "zone_push_finalizer al (m_buffer p) (px_visitor p) = (None, v')" by simp
    note h = hook_ok [OF v this]
    have v': "px_visitor p' = set_referenced False v'" using handed(5) by (simp add: px_visitor_def)
    have "counted (add_mset (px_next p) (add_mset (m_buffer p) (fins (px_visitor p) + M))) (px_heap p')"
      unfolding handed(7) by (rule counted_init [OF c nx(3)])
    moreover have "stays M p p'"
      by (rule same_bytes_stay) (use nM nx(4) in \<open>auto simp: handed(4,7)\<close>)
    moreover have "px_next p \<notin># fins (px_visitor p) + M" "px_next p \<noteq> m_buffer p" using nx(2,4) by (simp_all add: owners_def)
    ultimately show ?thesis using h(2,4-6) po handed(4-6) nx(5)
      by (auto simp: unpacker_ok_def owners_def v' ready_def ctx_ok_def ctx)
  qed
qed

subsection \<open>The operations keep it\<close>

lemma unpacker_reserves:
  assumes "unpacker_ok al M p" and "sz + m_used p < 2 ^ 64"
  shows "\<exists>x p'. reserve_buffer (unpacker_holder al fp f limit) h sz p = Some (x, p') \<and> unpacker_ok al M p' \<and>
     (ready al (px_context p) \<longrightarrow> ready al (px_context p')) \<and> stays M p p' \<and> m_used p' \<le> m_used p \<and>
     (x = None \<longrightarrow> sz \<le> m_free p') \<and> size (fins (px_visitor p')) \<le> Suc (size (fins (px_visitor p)))"
proof -
  have po: "parser_ok p" using assms(1) by (simp add: unpacker_ok_def)
  obtain b where b: "px_heap p (m_buffer p) = Some b" using po by (rule parser_okE)
  obtain x p' where r: "reserve_buffer (unpacker_holder al fp f limit) h sz p = Some (x, p')" "same_stream p p'"
      "turnover (unpacker_holder al fp f limit) b p p'" "x = None \<longrightarrow> sz \<le> m_free p'"
    using reserve_ok [OF po b assms(2), of "unpacker_holder al fp f limit" h] by blast
  then have "parser_ok p'" "m_used p' \<le> m_used p" by (simp_all add: same_stream_def)
  with turnover_keeps [OF assms(1) b r(3)] r show ?thesis by blast
qed

lemma unpacker_copies:
  assumes "unpacker_ok al M p" and "length bs \<le> m_free p"
  shows "\<exists>p'. copy_to_buffer bs p = Some p' \<and> unpacker_ok al M (buffer_consumed (length bs) p') \<and>
     px_context (buffer_consumed (length bs) p') = px_context p \<and> stays M p (buffer_consumed (length bs) p') \<and>
     m_used (buffer_consumed (length bs) p') = m_used p + length bs"
proof -
  have po: "parser_ok p" using assms(1) by (simp add: unpacker_ok_def)
  obtain b where b: "px_heap p (m_buffer p) = Some b" using po by (rule parser_okE)
  obtain p1 where c: "copy_to_buffer bs p = Some p1" "parser_ok (buffer_consumed (length bs) p1)"
      "m_used (buffer_consumed (length bs) p1) = m_used p + length bs" "px_context (buffer_consumed (length bs) p1) = px_context p"
      "m_buffer (buffer_consumed (length bs) p1) = m_buffer p" "m_off (buffer_consumed (length bs) p1) = m_off p"
      and d: "\<exists>d. px_heap (buffer_consumed (length bs) p1) = (px_heap p)(m_buffer p \<mapsto> b\<lparr>rc_bytes := d\<rparr>) \<and>
        take (m_off p) d = take (m_off p) (rc_bytes b)"
    using copy_ok [OF po assms(2)] b by blast
  define p2 where "p2 = buffer_consumed (length bs) p1"
  note c2 = c [folded p2_def]
  obtain d where d: "px_heap p2 = (px_heap p)(m_buffer p \<mapsto> b\<lparr>rc_bytes := d\<rparr>)" "take (m_off p) d = take (m_off p) (rc_bytes b)"
    using d by (auto simp: p2_def)
  have v: "px_visitor p2 = px_visitor p" using c2(4) by (simp add: px_visitor_def)
  have "counted (owners M p2) (px_heap p2)"
    using assms(1) b by (auto simp: unpacker_ok_def counted_def owners_def v c2(5) d(1))
  moreover have "stays M p p2"
    using b by (auto simp: stays_def parsed_part_def d c2(5,6) split: option.split)
  ultimately show ?thesis using assms(1) c2 by (auto simp: unpacker_ok_def v simp flip: p2_def)
qed

lemma unpacker_parses:
  assumes "unpacker_ok al M p" and "ready al (px_context p)"
  shows "\<exists>r p'. parser_next (unpacker_holder al fp f limit) p = Some (r, p') \<and> unpacker_ok al M p' \<and> stays M p p' \<and>
     m_used p' = m_used p \<and> fins (px_visitor p') = fins (px_visitor p) \<and> (r = Inr False \<longrightarrow> ready al (px_context p')) \<and>
     (r = Inr True \<longrightarrow> m_off p' \<noteq> 4 \<and> pool.builds al [] (px_visitor p'))"
proof -
  let ?ho = "unpacker_holder al fp f limit"
  have po: "parser_ok p" and c: "ctx_ok (px_context p)" using assms by (simp_all add: unpacker_ok_def ready_def)
  obtain s where s: "px_visitor p = Some s" "pool.co_ok al s" "fins_ok (co_zone s)"
    using assms(1) by (auto simp: unpacker_ok_def visitor_ok_def)
  have place: "\<forall>k. same_place (ho_visitor ?ho) k" by (simp add: same_place_def fun_eq_iff)
  obtain r c1 where e: "exec_bytes (ho_visitor ?ho) (unread p) (px_context p) = Some (r, c1)"
    using exec_bytes_total [OF c, of "ho_visitor ?ho" "unread p"] by blast
  obtain p' k where n: "parser_next ?ho p = Some (next_answer r, p')" "parser_ok p'" "px_context p' = c1\<lparr>m_current := k\<rparr>"
      "m_used p' = m_used p" "m_buffer p' = m_buffer p" "px_heap p' = px_heap p" "m_off p \<le> m_off p'"
      "r = PARSE_SUCCESS \<longrightarrow> m_off p < m_off p'"
    using next_ok [OF po c place e] by blast
  have "zone_keeps f False (z_fins (co_zone s)) (z_fin_cap (co_zone s)) (m_visitor (px_context p))"
    using s(1) by (simp add: zone_keeps_def px_visitor_def)
  note run = unpacker_run [OF assms(2) this e [simplified]]
  have v: "px_visitor p' = m_visitor c1" using n(3) by (simp add: px_visitor_def)
  obtain s1 where s1: "m_visitor c1 = Some s1" "pool.co_ok al s1" using run(1) by (auto simp: pool.kept_def)
  then have f1: "z_fins (co_zone s1) = z_fins (co_zone s)" "z_fin_cap (co_zone s1) = z_fin_cap (co_zone s)"
    using run(2) by (simp_all add: zone_keeps_def)
  then have fs: "fins (px_visitor p') = fins (px_visitor p)" by (simp add: v s1(1) s(1) fins_def)
  have off: "4 \<le> m_off p" using po by (auto elim: parser_okE)
  have "visitor_ok al (px_visitor p')" using s(3) f1 s1(2) by (simp add: v s1(1) visitor_ok_def fins_ok_def)
  moreover have "stays M p p'" by (rule same_bytes_stay) (use n in simp_all)
  moreover have "r = PARSE_CONTINUE \<Longrightarrow> ready al (px_context p')" using run(3) by (auto simp: n(3) ready_def ctx_ok_def)
  moreover have "m_off p' = 4 \<longrightarrow> m_off p = 4" using off n(7) by linarith
  then have "unpacker_ok al M p'"
    using assms(1) n(2,5,6) fs \<open>visitor_ok al (px_visitor p')\<close> by (simp add: unpacker_ok_def owners_def)
  ultimately show ?thesis using n(1,4,8) fs run(3) off
    by (auto simp: next_answer_def v)
qed

text \<open>A new zone has no finalizers and nothing is in use.\<close>

lemma make_zone_ok:
  assumes "malloc_ok al" and "make_zone al calls = Inr z"
  shows "zone_ok al z" and "used_memory z = {}" and "fins_ok z" and "z_fins z = []"
proof -
  have z: "zone_new al (calls + 1) MSGPACK_ZONE_CHUNK_SIZE = Some z"
    using assms(2) by (auto simp: make_zone_def new_zone_def split: option.splits sum.splits)
  show "zone_ok al z" "used_memory z = {}" using zone_new_ok [OF assms(1) _ z] by simp_all
  show "fins_ok z" "z_fins z = []" using z by (auto simp: zone_new_def fins_ok_def bind_eq_Some_conv)
qed

text \<open>A reset makes the parser ready again, also after an exception.\<close>

lemma reset_ok:
  assumes "unpacker_ok al M p"
  shows "unpacker_ok al M (parser_reset (unpacker_holder al fp f limit) p)"
    and "ready al (px_context (parser_reset (unpacker_holder al fp f limit) p))"
    and "stays M' p (parser_reset (unpacker_holder al fp f limit) p)"
    and "fins (px_visitor (parser_reset (unpacker_holder al fp f limit) p)) = fins (px_visitor p)"
    and "m_used (parser_reset (unpacker_holder al fp f limit) p) = m_used p"
proof -
  let ?p = "parser_reset (unpacker_holder al fp f limit) p"
  obtain s where s: "px_visitor p = Some s" "pool.co_ok al s" "fins_ok (co_zone s)"
    using assms by (auto simp: unpacker_ok_def visitor_ok_def)
  have c: "px_context ?p = (px_context p)\<lparr>m_trail := 0, m_cs := MSGPACK_CS_HEADER, m_stack := [], m_visitor := Some (co_init s)\<rparr>"
    using s(1) by (simp add: parser_reset_def context_init_def create_object_visitor_def px_visitor_def Let_def)
  have v: "px_visitor ?p = Some (co_init s)" by (simp add: px_visitor_def c)
  have z: "co_zone (co_init s) = co_zone s" by (simp add: co_init_def)
  have co: "pool.co_ok al (co_init s)" using s(2) unfolding pool.co_ok_def by (simp add: co_init_def)
  have sel: "px_heap ?p = px_heap p" "m_buffer ?p = m_buffer p" "m_off ?p = m_off p" "m_used ?p = m_used p" "m_free ?p = m_free p"
      "m_initial_buffer_size ?p = m_initial_buffer_size p" "px_next ?p = px_next p"
    by (simp_all add: parser_reset_def)
  show f: "fins (px_visitor ?p) = fins (px_visitor p)" by (simp add: v s(1) fins_def z)
  have "parser_ok ?p" using assms by (simp add: unpacker_ok_def parser_ok_def sel)
  moreover have "visitor_ok al (px_visitor ?p)" using co s(3) by (simp add: visitor_ok_def v z)
  ultimately show "unpacker_ok al M ?p" using assms f by (simp add: unpacker_ok_def owners_def sel)
  show "ready al (px_context ?p)"
    using co by (simp add: ready_def c ctx_ok_def slot_def pool.builds_def) (simp add: co_init_def)
  show "stays M' p ?p" by (rule same_bytes_stay) (simp_all add: sel)
  show "m_used ?p = m_used p" by (rule sel)
qed

lemma flush_ok:
  assumes "unpacker_ok al M p" and "m_off p \<noteq> 4" and "size (fins (px_visitor p)) + size M + 2 < 2 ^ 32"
  shows "\<exists>fl p'. flush_zone al p = Some (fl, p') \<and> unpacker_ok al M p' \<and> stays M p p' \<and> m_used p' = m_used p \<and>
     m_off p' = m_off p \<and> size (fins (px_visitor p')) \<le> Suc (size (fins (px_visitor p)))"
proof (cases "visitor_referenced (px_visitor p)")
  case False
  then show ?thesis using assms(1) by (intro exI [of _ True]) (simp add: flush_zone_def stays_refl)
next
  case True
  have v: "visitor_ok al (px_visitor p)" and c: "counted (owners M p) (px_heap p)" and po: "parser_ok p"
    using assms(1) by (simp_all add: unpacker_ok_def)
  obtain x v' where h: "zone_push_finalizer al (m_buffer p) (px_visitor p) = (x, v')" by force
  note hk = hook_ok [OF v h]
  have po': "parser_ok (px_set_visitor w p)" for w using same_stream_visitor [OF po, of w] by (simp add: same_stream_def)
  show ?thesis
  proof (cases x)
    case (Some e)
    have "unpacker_ok al M (px_set_visitor v' p)" using assms(1) hk(1,2) po' by (simp add: unpacker_ok_def owners_def Some)
    moreover have "stays M p (px_set_visitor v' p)" by (rule same_bytes_stay) simp_all
    ultimately show ?thesis using True h hk(2) by (intro exI [of _ False]) (simp add: flush_zone_def Some)
  next
    case None
    have "count (owners M p) (m_buffer p) \<le> size (owners M p)" by (rule count_le_size)
    then have "count (owners M p) (m_buffer p) + 1 < 2 ^ 32" using assms(3) by (simp add: owners_def)
    from counted_incr [OF c _ this] obtain H where H: "incr_count (m_buffer p) (px_heap p) = Some H"
        "counted (add_mset (m_buffer p) (owners M p)) H" "\<forall>r. map_option rc_bytes (H r) = map_option rc_bytes (px_heap p r)"
      by (auto simp: owners_def)
    let ?p = "(px_set_visitor (set_referenced False v') p)\<lparr>px_heap := H\<rparr>"
    obtain b where "px_heap p (m_buffer p) = Some b" using po by (rule parser_okE)
    then have "H = (px_heap p)(m_buffer p \<mapsto> b\<lparr>rc_count := rc_count b + 1\<rparr>)" using H(1) by (simp add: incr_count_def)
    then have "parser_ok ?p" using po' [of "set_referenced False v'"] \<open>px_heap p (m_buffer p) = Some b\<close>
      by (auto simp: parser_ok_def px_set_visitor_def)
    then have "unpacker_ok al M ?p" using assms(1) H(2) hk(2,4,5) assms(2) by (simp add: unpacker_ok_def owners_def None)
    moreover have "stays M p ?p" by (rule same_bytes_stay) (use H(3) in simp_all)
    ultimately show ?thesis using True h H(1) hk(2,5) None by (intro exI [of _ True]) (simp add: flush_zone_def)
  qed
qed

text \<open>The finalizers that a caller holds.\<close>

definition zone_fins :: "nat zone option \<Rightarrow> nat multiset" where
  "zone_fins z = (case z of None \<Rightarrow> {#} | Some z \<Rightarrow> mset (z_fins z))"

lemma drop_zone_ok:
  assumes "counted (zone_fins z + M) H"
  shows "\<exists>H'. drop_zone z H = Some H' \<and> counted M H' \<and>
    (\<forall>r. r \<in># M \<longrightarrow> map_option rc_bytes (H' r) = map_option rc_bytes (H r)) \<and> (\<forall>r. H r = None \<longrightarrow> H' r = None)"
proof (cases z)
  case None
  then show ?thesis using assms by (simp add: drop_zone_def zone_fins_def)
next
  case (Some z')
  have "mset (rev (z_fins z')) = zone_fins z" by (simp add: Some zone_fins_def)
  with assms have "counted (mset (rev (z_fins z')) + M) H" by (simp only:)
  from counted_run [OF this] show ?thesis by (simp add: drop_zone_def Some zone_destroy_def)
qed

text \<open>The caller lets a zone go.\<close>

lemma unpacker_drops:
  assumes "unpacker_ok al (zone_fins z + M) p"
  shows "\<exists>H. drop_zone z (px_heap p) = Some H \<and> unpacker_ok al M (p\<lparr>px_heap := H\<rparr>) \<and> stays M p (p\<lparr>px_heap := H\<rparr>)"
proof -
  have po: "parser_ok p" and c: "counted (zone_fins z + owners M p) (px_heap p)"
    using assms by (simp_all add: unpacker_ok_def owners_def ac_simps)
  from drop_zone_ok [OF c] obtain H where H: "drop_zone z (px_heap p) = Some H" "counted (owners M p) H"
      "\<forall>r. r \<in># owners M p \<longrightarrow> map_option rc_bytes (H r) = map_option rc_bytes (px_heap p r)" "\<forall>r. px_heap p r = None \<longrightarrow> H r = None"
    by blast
  obtain b where b: "px_heap p (m_buffer p) = Some b" "m_used p + m_free p = length (rc_bytes b)" "length (rc_bytes b) < 2 ^ 64"
      "4 \<le> m_off p" "m_off p \<le> m_used p" "m_initial_buffer_size p < 2 ^ 64" "\<forall>q \<ge> px_next p. px_heap p q = None"
    using po by (rule parser_okE)
  have "m_buffer p \<in># owners M p" by (simp add: owners_def)
  then obtain b' where "H (m_buffer p) = Some b'" "rc_bytes b' = rc_bytes b" using H(3) b(1) by force
  then have "parser_ok (p\<lparr>px_heap := H\<rparr>)" using b H(4) by (simp add: parser_ok_def)
  then have "unpacker_ok al M (p\<lparr>px_heap := H\<rparr>)" using assms H(2) by (auto simp: unpacker_ok_def owners_def)
  moreover have "stays M p (p\<lparr>px_heap := H\<rparr>)" by (rule same_bytes_stay) (use H(3) in \<open>simp_all add: owners_def\<close>)
  ultimately show ?thesis using H(1) by blast
qed

lemma release_ok:
  assumes "unpacker_ok al M p" and "m_off p \<noteq> 4" and "size (fins (px_visitor p)) + size M + 2 < 2 ^ 32"
  shows "\<exists>r p'. release_zone al p = Some (r, p') \<and> stays M p p' \<and> m_used p' = m_used p \<and>
     (case r of
        Inl x \<Rightarrow> unpacker_ok al M p' \<and> size (fins (px_visitor p')) \<le> Suc (size (fins (px_visitor p)))
      | Inr None \<Rightarrow> unpacker_ok al M p' \<and> size (fins (px_visitor p')) \<le> Suc (size (fins (px_visitor p)))
      | Inr (Some (z, m, b)) \<Rightarrow> unpacker_ok al (mset (z_fins z) + M) p' \<and> fins (px_visitor p') = {#} \<and>
          length (z_fins z) \<le> Suc (size (fins (px_visitor p))))"
proof -
  obtain fl p1 where f: "flush_zone al p = Some (fl, p1)" "unpacker_ok al M p1" "stays M p p1" "m_used p1 = m_used p"
      "m_off p1 = m_off p" "size (fins (px_visitor p1)) \<le> Suc (size (fins (px_visitor p)))"
    using flush_ok [OF assms] by blast
  show ?thesis
  proof (cases fl)
    case False
    then show ?thesis using f by (simp add: release_zone_def)
  next
    case True
    obtain s where s: "px_visitor p1 = Some s" "pool.co_ok al s" "fins_ok (co_zone s)"
      using f(2) by (auto simp: unpacker_ok_def visitor_ok_def)
    show ?thesis
    proof (cases "make_zone al (z_calls (co_zone s))")
      case (Inl x)
      then show ?thesis using f True s(1) by (simp add: release_zone_def)
    next
      case (Inr z)
      note mz = make_zone_ok [OF co_ok_malloc [OF s(2)] Inr]
      let ?s = "s\<lparr>co_zone := z, co_mem := Map.empty, co_bytes := Map.empty\<rparr>"
      let ?p = "px_set_visitor (Some ?s) p1"
      have fz: "fins (Some ?s) = {#}" "fins (px_visitor p1) = mset (z_fins (co_zone s))" by (simp_all add: fins_def mz(4) s(1))
      have "pool.co_ok al ?s" using s(2) mz(1) unfolding pool.co_ok_def by simp
      then have "visitor_ok al (Some ?s)" using mz(3) by (simp add: visitor_ok_def)
      moreover have "parser_ok ?p" using f(2) same_stream_visitor [of p1 "Some ?s"] by (simp add: unpacker_ok_def same_stream_def)
      ultimately have "unpacker_ok al (mset (z_fins (co_zone s)) + M) ?p"
        using f(2) by (simp add: unpacker_ok_def owners_def fz)
      moreover have "stays M p ?p" by (rule stays_trans [OF f(3) same_bytes_stay [where M = M]]) simp_all
      ultimately show ?thesis using f True s(1) Inr fz by (simp add: release_zone_def)
    qed
  qed
qed

lemma stays_sub: "stays M p p' \<Longrightarrow> M' \<subseteq># M \<Longrightarrow> stays M' p p'"
  unfolding stays_def by (meson mset_subset_eqD)

lemma unpacker_nexts:
  assumes "unpacker_ok al (zone_fins (oh_zone result) + M) p" and "ready al (px_context p)"
    and "size (fins (px_visitor p)) + size (zone_fins (oh_zone result) + M) + 2 < 2 ^ 32"
  shows "\<exists>r result' referenced' p'. unpacker_next al fp f limit result referenced p = Some (r, result', referenced', p') \<and>
     unpacker_ok al (zone_fins (oh_zone result') + M) p' \<and> (r \<in> range Inr \<longrightarrow> ready al (px_context p')) \<and> stays M p p' \<and>
     m_used p' = m_used p \<and>
     size (fins (px_visitor p')) + size (zone_fins (oh_zone result')) \<le>
       Suc (size (fins (px_visitor p)) + size (zone_fins (oh_zone result)))"
proof -
  let ?ho = "unpacker_holder al fp f limit" and ?M = "zone_fins (oh_zone result) + M"
  have sub: "M \<subseteq># ?M" "M \<subseteq># M" by simp_all
  obtain r p1 where n: "parser_next ?ho p = Some (r, p1)" "unpacker_ok al ?M p1" "stays ?M p p1" "m_used p1 = m_used p"
      "fins (px_visitor p1) = fins (px_visitor p)" "r = Inr False \<longrightarrow> ready al (px_context p1)" "r = Inr True \<longrightarrow> m_off p1 \<noteq> 4"
    using unpacker_parses [OF assms(1,2), of fp f limit] by blast
  have st: "stays M p p1" by (rule stays_sub [OF n(3) sub(1)])
  consider (thrown) x where "r = Inl x" | (more) "r = Inr False" | (object) "r = Inr True"
    by (metis (full_types) sum.exhaust)
  then show ?thesis
  proof cases
    case thrown
    then show ?thesis using n st by (auto simp: unpacker_next_def)
  next
    case more
    obtain H where H: "drop_zone (oh_zone result) (px_heap p1) = Some H" "unpacker_ok al M (p1\<lparr>px_heap := H\<rparr>)" "stays M p1 (p1\<lparr>px_heap := H\<rparr>)"
      using unpacker_drops [OF n(2)] by blast
    have "zone_fins (oh_zone object_handle_new) = {#}" by (simp add: zone_fins_def object_handle_new_def)
    then show ?thesis using n more H stays_trans [OF st H(3) sub(2)] by (simp add: unpacker_next_def)
  next
    case object
    obtain q p2 where q: "release_zone al p1 = Some (q, p2)" "stays ?M p1 p2" "m_used p2 = m_used p1"
        "case q of
          Inl x \<Rightarrow> unpacker_ok al ?M p2 \<and> size (fins (px_visitor p2)) \<le> Suc (size (fins (px_visitor p1)))
        | Inr None \<Rightarrow> unpacker_ok al ?M p2 \<and> size (fins (px_visitor p2)) \<le> Suc (size (fins (px_visitor p1)))
        | Inr (Some (z, m, b)) \<Rightarrow> unpacker_ok al (mset (z_fins z) + ?M) p2 \<and> fins (px_visitor p2) = {#} \<and>
            length (z_fins z) \<le> Suc (size (fins (px_visitor p1)))"
      using release_ok [OF n(2)] n(5,7) object assms(3) by auto
    have st2: "stays M p p2" by (rule stays_trans [OF st stays_sub [OF q(2) sub(1)] sub(2)])
    show ?thesis
    proof (cases q)
      case (Inl x)
      then show ?thesis using n(1,4,5) object q st2 by (auto simp: unpacker_next_def Let_def)
    next
      case (Inr z)
      let ?F = "zone_fins (map_option fst z)"
      have h: "zone_fins (oh_zone (handle_zone z ob)) = ?F" for ob
        by (cases z) (auto simp: handle_zone_def object_handle_new_def)
      have u: "unpacker_ok al (zone_fins (oh_zone result) + (?F + M)) p2"
          "size (fins (px_visitor p2)) + size ?F \<le> Suc (size (fins (px_visitor p1)))"
        using q(4) Inr by (cases z; auto simp: zone_fins_def ac_simps split: prod.splits)+
      obtain H where H: "drop_zone (oh_zone result) (px_heap p2) = Some H" "unpacker_ok al (?F + M) (p2\<lparr>px_heap := H\<rparr>)"
          "stays (?F + M) p2 (p2\<lparr>px_heap := H\<rparr>)"
        using unpacker_drops [OF u(1)] by blast
      obtain s where s: "px_visitor p2 = Some s" using u(1) by (auto simp: unpacker_ok_def visitor_ok_def)
      note rs = reset_ok [OF H(2), where fp = fp and f = f and limit = limit]
      have "stays M p2 (p2\<lparr>px_heap := H\<rparr>)" by (rule stays_sub [OF H(3)]) simp
      then have "stays M p (parser_reset ?ho (p2\<lparr>px_heap := H\<rparr>))"
        using stays_trans [OF stays_trans [OF st2 _ sub(2)] rs(3) sub(2)] by blast
      moreover have "unpacker_next al fp f limit result referenced p =
          Some (Inr True, handle_zone z (co_obj s), visitor_referenced (px_visitor p1), parser_reset ?ho (p2\<lparr>px_heap := H\<rparr>))"
        using n(1) object q(1) Inr H(1) s by (simp add: unpacker_next_def Let_def)
      ultimately show ?thesis using rs u(2) n(4,5) q(3) h by simp
    qed
  qed
qed

text \<open>The end of an unpacker.\<close>

lemma unpacker_deletes:
  assumes "unpacker_ok al M p"
  shows "\<exists>H. unpacker_delete p = Some H \<and> counted M H"
proof -
  obtain s where s: "px_visitor p = Some s" using assms by (auto simp: unpacker_ok_def visitor_ok_def)
  have po: "0 < m_buffer p" and "counted (zone_fins (map_option co_zone (px_visitor p)) + add_mset (m_buffer p) M) (px_heap p)"
    using assms by (simp_all add: unpacker_ok_def owners_def fins_def zone_fins_def s)
  from drop_zone_ok [OF this(2)] obtain H where H: "drop_zone (map_option co_zone (px_visitor p)) (px_heap p) = Some H"
      "counted (add_mset (m_buffer p) M) H" by blast
  from counted_decr [OF H(2)] show ?thesis using H(1) po by (auto simp: unpacker_delete_def parser_delete_def)
qed

text \<open>What the constructor makes.\<close>

lemma unpacker_new_shape:
  assumes "unpacker_new al calls h n = Some (Inr p)" and "n < 2 ^ 64"
  obtains z where "make_zone al calls = Inr z" "parser_ok p" "unread p = []" "m_used p = 4" "m_buffer p = 1"
    "px_visitor p = Some (create_object_visitor_new z Map.empty Map.empty)" "m_cs (px_context p) = MSGPACK_CS_HEADER" "m_stack (px_context p) = []"
proof -
  obtain q z where q: "parser_new h n None = Inr q" "make_zone al calls = Inr z"
      "p = px_set_visitor (Some (create_object_visitor_new z Map.empty Map.empty)) q"
    using assms(1) by (auto simp: unpacker_new_def split: sum.splits bind_splits)
  have "m_buffer q = 1" using q(1) by (auto simp: parser_new_def Let_def split: option.splits)
  then show thesis
    using that [OF q(2)] parser_new_ok [OF q(1) assms(2)] same_stream_visitor [of q "Some (create_object_visitor_new z Map.empty Map.empty)"]
    by (simp add: q(3) same_stream_def context_new_def)
qed

end
