(* ===== verification/Mp_Client.thy ===== *)
theory Mp_Client
  imports Mp_Unpacker
begin

text \<open>
  A caller of the class \<^verbatim>\<open>unpacker\<close>: it adds bytes, asks for objects, keeps the zones of the objects as long as
  it likes and lets them go in any order; after an exception it resets before it asks again. Whatever it
  does, no buffer is used after it was freed, and when everything is gone every buffer was freed.
\<close>

subsection \<open>What a caller does\<close>

record client =
  cl_unpacker :: unpacker
  cl_zones :: "nat zone list"
  cl_failed :: bool

datatype client_action = Feed "byte list" | Next | Reset | Drop nat

text \<open>The settings of the unpacker.\<close>

record settings =
  st_alloc :: allocator
  st_heap :: heap_env
  st_fpu :: fpu
  st_func :: reference_func
  st_limit :: unpack_limit

abbreviation (input) st_holder :: "settings \<Rightarrow> nat zone co_state option holder" where
  "st_holder e \<equiv> unpacker_holder (st_alloc e) (st_fpu e) (st_func e) (st_limit e)"

fun client_op :: "settings \<Rightarrow> client_action \<Rightarrow> client \<Rightarrow> client option" where
  "client_op e (Feed bs) c = do {
     (x, p) \<leftarrow> reserve_buffer (st_holder e) (st_heap e) (length bs) (cl_unpacker c);
     case x of
       Some x \<Rightarrow> Some (c\<lparr>cl_unpacker := p\<rparr>)
     | None \<Rightarrow> do { p \<leftarrow> copy_to_buffer bs p; Some (c\<lparr>cl_unpacker := buffer_consumed (length bs) p\<rparr>) } }"
| "client_op e Next c =
     (if cl_failed c then Some c
      else do {
        (r, result, referenced, p) \<leftarrow>
          unpacker_next (st_alloc e) (st_fpu e) (st_func e) (st_limit e) object_handle_new False (cl_unpacker c);
        Some (c\<lparr>cl_unpacker := p, cl_failed := (case r of Inl x \<Rightarrow> True | Inr b \<Rightarrow> False),
          cl_zones := (case oh_zone result of None \<Rightarrow> cl_zones c | Some z \<Rightarrow> z # cl_zones c)\<rparr>) })"
| "client_op e Reset c = Some (c\<lparr>cl_unpacker := parser_reset (st_holder e) (cl_unpacker c), cl_failed := False\<rparr>)"
| "client_op e (Drop i) c =
     (if i < length (cl_zones c)
      then do {
        H \<leftarrow> drop_zone (Some (cl_zones c ! i)) (px_heap (cl_unpacker c));
        Some (c\<lparr>cl_unpacker := (cl_unpacker c)\<lparr>px_heap := H\<rparr>, cl_zones := take i (cl_zones c) @ drop (Suc i) (cl_zones c)\<rparr>) }
      else Some c)"

fun client_run :: "settings \<Rightarrow> client_action list \<Rightarrow> client \<Rightarrow> client option" where
  "client_run e [] c = Some c"
| "client_run e (op # ops) c = do { c \<leftarrow> client_op e op c; client_run e ops c }"

text \<open>In the end the unpacker is destroyed, and then the zones that are left.\<close>

fun drop_zones :: "nat zone list \<Rightarrow> rc_heap \<Rightarrow> rc_heap option" where
  "drop_zones [] H = Some H"
| "drop_zones (z # zs) H = do { H \<leftarrow> drop_zone (Some z) H; drop_zones zs H }"

definition client_close :: "client \<Rightarrow> rc_heap option" where
  "client_close c = do { H \<leftarrow> unpacker_delete (cl_unpacker c); drop_zones (cl_zones c) H }"

subsection \<open>The invariant\<close>

definition held :: "client \<Rightarrow> nat multiset" where
  "held c = mset (concat (map z_fins (cl_zones c)))"

definition client_ok :: "settings \<Rightarrow> client \<Rightarrow> bool" where
  "client_ok e c \<longleftrightarrow>
     unpacker_ok (st_alloc e) (held c) (cl_unpacker c) \<and> (cl_failed c \<or> ready (st_alloc e) (px_context (cl_unpacker c)))"

text \<open>What the operations use up: bytes of the buffer, and owners.\<close>

definition owned :: "client \<Rightarrow> nat" where
  "owned c = size (fins (px_visitor (cl_unpacker c))) + size (held c)"

fun op_bytes :: "client_action \<Rightarrow> nat" where
  "op_bytes (Feed bs) = length bs"
| "op_bytes _ = 0"

lemma held_drop:
  assumes "i < length (cl_zones c)"
  shows "held c = zone_fins (Some (cl_zones c ! i)) + mset (concat (map z_fins (take i (cl_zones c) @ drop (Suc i) (cl_zones c))))"
proof -
  have "cl_zones c = take i (cl_zones c) @ cl_zones c ! i # drop (Suc i) (cl_zones c)" using assms by (rule id_take_nth_drop)
  then have "mset (concat (map z_fins (cl_zones c))) =
      mset (concat (map z_fins (take i (cl_zones c) @ cl_zones c ! i # drop (Suc i) (cl_zones c))))" by simp
  then show ?thesis unfolding held_def zone_fins_def by (simp add: ac_simps)
qed

lemma client_op_ok:
  assumes "client_ok e c" and "m_used (cl_unpacker c) + op_bytes op < 2 ^ 64" and "owned c + 2 < 2 ^ 32"
  shows "\<exists>c'. client_op e op c = Some c' \<and> client_ok e c' \<and>
     m_used (cl_unpacker c') \<le> m_used (cl_unpacker c) + op_bytes op \<and> owned c' \<le> Suc (owned c) \<and>
     ((\<forall>i. op \<noteq> Drop i) \<longrightarrow> held c \<subseteq># held c' \<and> stays (held c) (cl_unpacker c) (cl_unpacker c'))"
proof -
  let ?al = "st_alloc e" and ?p = "cl_unpacker c" and ?M = "held c"
  have ok: "unpacker_ok ?al ?M ?p" using assms(1) by (simp add: client_ok_def)
  show ?thesis
  proof (cases op)
    case (Feed bs)
    then have bound: "length bs + m_used ?p < 2 ^ 64" using assms(2) by simp
    obtain x p1 where r: "reserve_buffer (st_holder e) (st_heap e) (length bs) ?p = Some (x, p1)" "unpacker_ok ?al ?M p1"
        "ready ?al (px_context ?p) \<longrightarrow> ready ?al (px_context p1)" "stays ?M ?p p1" "m_used p1 \<le> m_used ?p"
        "x = None \<longrightarrow> length bs \<le> m_free p1" "size (fins (px_visitor p1)) \<le> Suc (size (fins (px_visitor ?p)))"
      using unpacker_reserves [OF ok bound, of "st_fpu e" "st_func e" "st_limit e" "st_heap e"] by blast
    show ?thesis
    proof (cases x)
      case (Some y)
      then show ?thesis using r assms(1) Feed by (auto simp: client_ok_def held_def owned_def)
    next
      case None
      obtain p2 where c2: "copy_to_buffer bs p1 = Some p2" "unpacker_ok ?al ?M (buffer_consumed (length bs) p2)"
          "px_context (buffer_consumed (length bs) p2) = px_context p1" "stays ?M p1 (buffer_consumed (length bs) p2)"
          "m_used (buffer_consumed (length bs) p2) = m_used p1 + length bs"
        using unpacker_copies [OF r(2)] r(6) None by blast
      have "stays ?M ?p (buffer_consumed (length bs) p2)" by (rule stays_trans [OF r(4) c2(4)]) simp
      moreover have "px_visitor (buffer_consumed (length bs) p2) = px_visitor p1" using c2(3) by (simp add: px_visitor_def)
      ultimately show ?thesis using r c2 None assms(1) Feed by (auto simp: client_ok_def held_def owned_def)
    qed
  next
    case Next
    show ?thesis
    proof (cases "cl_failed c")
      case True
      then show ?thesis using Next assms(1) by (simp add: stays_refl)
    next
      case False
      have z: "zone_fins (oh_zone object_handle_new) = {#}" by (simp add: zone_fins_def object_handle_new_def)
      have rd: "ready ?al (px_context ?p)" using assms(1) False by (simp add: client_ok_def)
      obtain r result' referenced' p' where n: "unpacker_next ?al (st_fpu e) (st_func e) (st_limit e) object_handle_new False ?p =
            Some (r, result', referenced', p')" "unpacker_ok ?al (zone_fins (oh_zone result') + ?M) p'"
          "r \<in> range Inr \<longrightarrow> ready ?al (px_context p')" "stays ?M ?p p'" "m_used p' = m_used ?p"
          "size (fins (px_visitor p')) + size (zone_fins (oh_zone result')) \<le> Suc (size (fins (px_visitor ?p)))"
        using unpacker_nexts [of ?al object_handle_new ?M ?p "st_fpu e" "st_func e" "st_limit e" False] ok rd assms(3)
        unfolding z owned_def by auto
      let ?c = "c\<lparr>cl_unpacker := p', cl_failed := (case r of Inl x \<Rightarrow> True | Inr b \<Rightarrow> False),
          cl_zones := (case oh_zone result' of None \<Rightarrow> cl_zones c | Some z \<Rightarrow> z # cl_zones c)\<rparr>"
      have h: "held ?c = zone_fins (oh_zone result') + ?M"
        by (cases "oh_zone result'") (simp_all add: held_def zone_fins_def)
      have "client_op e Next c = Some ?c" using False n(1) by simp
      moreover have "client_ok e ?c" using n(2,3) unfolding client_ok_def h by (cases r) auto
      moreover have "owned ?c \<le> Suc (owned c)" using n(6) unfolding owned_def h by simp
      moreover have "held c \<subseteq># held ?c" unfolding h by simp
      ultimately show ?thesis using Next n(4,5) by simp
    qed
  next
    case Reset
    have "held (c\<lparr>cl_unpacker := q, cl_failed := False\<rparr>) = ?M" for q by (simp add: held_def)
    then show ?thesis using reset_ok [OF ok, where fp = "st_fpu e" and f = "st_func e" and limit = "st_limit e"] Reset by (simp add: client_ok_def owned_def)
  next
    case (Drop i)
    show ?thesis
    proof (cases "i < length (cl_zones c)")
      case True
      let ?zs = "take i (cl_zones c) @ drop (Suc i) (cl_zones c)"
      note hd = held_drop [OF True]
      obtain H where H: "drop_zone (Some (cl_zones c ! i)) (px_heap ?p) = Some H"
          "unpacker_ok ?al (mset (concat (map z_fins ?zs))) (?p\<lparr>px_heap := H\<rparr>)"
        using unpacker_drops [OF ok [unfolded hd]] by blast
      let ?c = "c\<lparr>cl_unpacker := ?p\<lparr>px_heap := H\<rparr>, cl_zones := ?zs\<rparr>"
      have h: "held ?c = mset (concat (map z_fins ?zs))" by (simp add: held_def)
      have "client_op e op c = Some ?c" using H(1) True Drop by simp
      moreover have "client_ok e ?c" using H(2) assms(1) unfolding client_ok_def h by simp
      moreover have "owned ?c \<le> owned c" unfolding owned_def h hd by simp
      ultimately show ?thesis using Drop by simp
    qed (use Drop assms(1) in simp)
  qed
qed

lemma client_run_ok:
  assumes "client_ok e c" and "m_used (cl_unpacker c) + sum_list (map op_bytes ops) < 2 ^ 64" and "owned c + length ops + 2 < 2 ^ 32"
  shows "\<exists>c'. client_run e ops c = Some c' \<and> client_ok e c' \<and>
     m_used (cl_unpacker c') \<le> m_used (cl_unpacker c) + sum_list (map op_bytes ops) \<and> owned c' \<le> owned c + length ops \<and>
     ((\<forall>i. Drop i \<notin> set ops) \<longrightarrow> held c \<subseteq># held c' \<and> stays (held c) (cl_unpacker c) (cl_unpacker c'))"
  using assms
proof (induction ops arbitrary: c)
  case Nil
  then show ?case by (simp add: stays_refl)
next
  case (Cons op ops)
  obtain c1 where c1: "client_op e op c = Some c1" "client_ok e c1" "m_used (cl_unpacker c1) \<le> m_used (cl_unpacker c) + op_bytes op"
      "owned c1 \<le> Suc (owned c)"
      "(\<forall>i. op \<noteq> Drop i) \<longrightarrow> held c \<subseteq># held c1 \<and> stays (held c) (cl_unpacker c) (cl_unpacker c1)"
    using client_op_ok [OF Cons.prems(1), of op] Cons.prems(2,3) by auto
  obtain c2 where c2: "client_run e ops c1 = Some c2" "client_ok e c2"
      "m_used (cl_unpacker c2) \<le> m_used (cl_unpacker c1) + sum_list (map op_bytes ops)" "owned c2 \<le> owned c1 + length ops"
      "(\<forall>i. Drop i \<notin> set ops) \<longrightarrow> held c1 \<subseteq># held c2 \<and> stays (held c1) (cl_unpacker c1) (cl_unpacker c2)"
    using Cons.IH [OF c1(2)] Cons.prems(2,3) c1(3,4) by auto
  have "held c \<subseteq># held c2 \<and> stays (held c) (cl_unpacker c) (cl_unpacker c2)" if "\<forall>i. Drop i \<notin> set (op # ops)"
  proof -
    have 1: "held c \<subseteq># held c1" "stays (held c) (cl_unpacker c) (cl_unpacker c1)" using c1(5) that by auto
    have 2: "held c1 \<subseteq># held c2" "stays (held c1) (cl_unpacker c1) (cl_unpacker c2)" using c2(5) that by auto
    show ?thesis using 1 2 stays_trans [OF 1(2) 2(2) 1(1)] subset_mset.order_trans by blast
  qed
  then show ?case using c1(1,3,4) c2(1-4) by auto
qed

text \<open>The buffer that a zone of the caller needs is there.\<close>

lemma held_buffer:
  assumes "client_ok e c" and "q \<in># held c"
  shows "px_heap (cl_unpacker c) q \<noteq> None"
  using assms by (auto simp: client_ok_def unpacker_ok_def counted_def owners_def)

lemma drop_zones_ok: "counted (mset (concat (map z_fins zs)) + M) H \<Longrightarrow> \<exists>H'. drop_zones zs H = Some H' \<and> counted M H'"
proof (induction zs arbitrary: H)
  case (Cons z zs)
  have "counted (zone_fins (Some z) + (mset (concat (map z_fins zs)) + M)) H"
    using Cons.prems by (simp add: zone_fins_def ac_simps)
  from drop_zone_ok [OF this] Cons.IH show ?case by fastforce
qed simp

lemma client_close_ok: "client_ok e c \<Longrightarrow> client_close c = Some Map.empty"
proof -
  assume "client_ok e c"
  then have "unpacker_ok (st_alloc e) (held c) (cl_unpacker c)" by (simp add: client_ok_def)
  from unpacker_deletes [OF this] obtain H where H: "unpacker_delete (cl_unpacker c) = Some H" "counted (held c) H" by blast
  then have "counted (mset (concat (map z_fins (cl_zones c))) + {#}) H" by (simp add: held_def)
  from drop_zones_ok [OF this] H(1) show ?thesis by (auto simp: client_close_def dest: counted_empty)
qed

subsection \<open>The beginning\<close>

lemma unpacker_new_ok:
  assumes "malloc_ok (st_alloc e)" and "n < 2 ^ 64"
  shows "\<exists>r. unpacker_new (st_alloc e) calls (st_heap e) n = Some r \<and>
    (case r of Inl x \<Rightarrow> True
     | Inr p \<Rightarrow> client_ok e \<lparr>cl_unpacker = p, cl_zones = [], cl_failed = False\<rparr> \<and> m_used p = 4 \<and>
         owned \<lparr>cl_unpacker = p, cl_zones = [], cl_failed = False\<rparr> = 0)"
proof (cases "parser_new (st_heap e) n None :: mp_exn + unpacker")
  case (Inl x)
  then show ?thesis by (simp add: unpacker_new_def)
next
  case (Inr p)
  note pn = parser_new_ok [OF Inr assms(2)]
  have hp: "\<exists>d. px_heap p = [1 \<mapsto> init_count d]" "m_buffer p = 1"
    using Inr by (auto simp: parser_new_def Let_def split: option.splits)
  show ?thesis
  proof (cases "make_zone (st_alloc e) calls")
    case z: (Inl x)
    have "parser_delete p \<noteq> None" using hp by (auto simp: parser_delete_def decr_count_def)
    then show ?thesis using Inr z by (auto simp: unpacker_new_def)
  next
    case z: (Inr z)
    note mz = make_zone_ok [OF assms(1) z]
    let ?s = "create_object_visitor_new z Map.empty Map.empty"
    let ?p = "px_set_visitor (Some ?s) p"
    have co: "pool.co_ok (st_alloc e) ?s" using assms(1) mz(1) unfolding pool.co_ok_def by (simp add: create_object_visitor_new_def)
    have f: "fins (Some ?s) = {#}" by (simp add: fins_def create_object_visitor_new_def mz(4))
    have "counted {#1#} (px_heap p)" using hp(1) by (auto simp: counted_def init_count_def)
    moreover have "parser_ok ?p" using pn same_stream_visitor [of p "Some ?s"] by (simp add: same_stream_def)
    moreover have "visitor_ok (st_alloc e) (Some ?s)" using co mz(3) by (simp add: visitor_ok_def create_object_visitor_new_def)
    ultimately have "unpacker_ok (st_alloc e) {#} ?p" using hp(2) by (simp add: unpacker_ok_def owners_def f)
    moreover have "ready (st_alloc e) (px_context ?p)"
      using pn co by (simp add: ready_def ctx_ok_def slot_def context_new_def pool.builds_def) (simp add: create_object_visitor_new_def)
    moreover have "unpacker_new (st_alloc e) calls (st_heap e) n = Some (Inr ?p)" using Inr z by (simp add: unpacker_new_def)
    ultimately show ?thesis using pn f by (simp add: client_ok_def held_def owned_def)
  qed
qed

subsection \<open>An object with a string in the buffer\<close>

text \<open>Bytes are added; the visitor does not refer to the buffer yet.\<close>

lemma client_feeds:
  assumes "parser_ok (cl_unpacker c)" and "\<not> visitor_referenced (px_visitor (cl_unpacker c))" and "\<forall>n. grants (st_heap e) n"
    and "length bs + m_used (cl_unpacker c) < 2 ^ 64"
  shows "\<exists>p. client_op e (Feed bs) c = Some (c\<lparr>cl_unpacker := p\<rparr>) \<and> parser_ok p \<and> unread p = unread (cl_unpacker c) @ bs \<and>
    px_context p = px_context (cl_unpacker c)"
proof -
  let ?p = "cl_unpacker c"
  obtain b where b: "px_heap ?p (m_buffer ?p) = Some b" using assms(1) by (rule parser_okE)
  have nr: "\<not> ho_referenced (st_holder e) (px_visitor ?p)" using assms(2) by simp
  obtain p1 where p1: "reserve_buffer (st_holder e) (st_heap e) (length bs) ?p = Some (None, p1)" "same_stream ?p p1" "length bs \<le> m_free p1"
      "px_context p1 = px_context ?p"
    using reserve_ok [OF assms(1) b assms(4), of "st_holder e" "st_heap e"] turnover_context [OF _ nr] nr assms(3) by auto
  obtain p2 where "copy_to_buffer bs p1 = Some p2" "parser_ok (buffer_consumed (length bs) p2)"
      "unread (buffer_consumed (length bs) p2) = unread p1 @ bs" "px_context (buffer_consumed (length bs) p2) = px_context p1"
    using copy_ok [of p1 bs] p1(2,3) by (auto simp: same_stream_def)
  then show ?thesis using p1 by (auto simp: same_stream_def)
qed

text \<open>The zone of an object that refers to the buffer gets the finalizer of the buffer.\<close>

lemma client_gets:
  assumes "\<not> cl_failed c" and "parser_ok (cl_unpacker c)" and "m_cs (px_context (cl_unpacker c)) = MSGPACK_CS_HEADER"
    and "m_stack (px_context (cl_unpacker c)) = []" and "mobj_ok ob" and "unread (cl_unpacker c) = enc_value fp ob"
    and "visit_obj fp (create_object_visitor (unpack_env (st_alloc e) (st_fpu e) (st_func e) (st_limit e))) ob (px_visitor (cl_unpacker c)) =
      Some (Some s)"
    and "co_referenced s" and "push_finalizer (st_alloc e) (m_buffer (cl_unpacker c)) (co_zone s) = (None, z)"
    and "make_zone (st_alloc e) (z_calls z) = Inr z'"
  shows "\<exists>p. client_op e Next c = Some (c\<lparr>cl_unpacker := p, cl_failed := False, cl_zones := z # cl_zones c\<rparr>)"
proof -
  let ?p = "cl_unpacker c" and ?V = "ho_visitor (st_holder e)"
  have ctx: "ctx_ok (px_context ?p)" using assms(3) by (simp add: ctx_ok_def)
  have place: "\<forall>k. same_place ?V k" by (simp add: same_place_def fun_eq_iff)
  obtain c1 where c1: "exec_bytes ?V (unread ?p) (px_context ?p) = Some (PARSE_SUCCESS, c1)" "m_visitor c1 = Some s"
    using execute_document [OF assms(5,3,4), of "unread ?p" 0 fp "length (unread ?p)" ?V "Some s"] assms(6,7)
    by (auto simp: exec_bytes_def px_visitor_def at_bytes_whole [of "[]" _ "[]", simplified])
  obtain p1 k where p1: "parser_next (st_holder e) ?p = Some (Inr True, p1)" "px_context p1 = c1\<lparr>m_current := k\<rparr>"
      "m_buffer p1 = m_buffer ?p" "px_heap p1 = px_heap ?p"
    using next_ok [OF assms(2) ctx place c1(1)] by (auto simp: next_answer_def)
  have v: "px_visitor p1 = Some s" using p1(2) c1(2) by (simp add: px_visitor_def)
  obtain b where "px_heap p1 (m_buffer p1) = Some b" using assms(2) p1(3,4) by (auto elim: parser_okE)
  then obtain H where H: "incr_count (m_buffer p1) (px_heap p1) = Some H" by (simp add: incr_count_def)
  have "\<exists>p2 m b. release_zone (st_alloc e) p1 = Some (Inr (Some (z, m, b)), p2) \<and> px_visitor p2 \<noteq> None"
    using v H assms(8,9,10) p1(3)
    by (simp add: release_zone_def flush_zone_def zone_push_finalizer_def visitor_referenced_def set_referenced_def)
  then obtain p2 m b w where r: "release_zone (st_alloc e) p1 = Some (Inr (Some (z, m, b)), p2)" "px_visitor p2 = Some w" by blast
  then show ?thesis using p1(1) assms(1)
    by (simp add: unpacker_next_def Let_def drop_zone_def object_handle_new_def handle_zone_def) blast
qed

end
