(* ===== verification/Mp_Pieces.thy ===== *)
theory Mp_Pieces
  imports Mp_Unpacker
begin

text \<open>
  Objects from a stream: a packed value that reaches an \<^verbatim>\<open>unpacker\<close> in pieces is in the zone of the unpacker
  after the last piece, whatever the pieces, when strings are copied into the zone.
\<close>

text \<open>An unpacker that copies never refers to its buffer, so that a change of the buffer leaves its visitor
  alone.\<close>

interpretation copying: plain_holder "unpacker_holder al fp f limit"
    "\<lambda>c. never f \<and> ready al c \<and> \<not> visitor_referenced (m_visitor c)" for al fp f limit
proof
  show "same_place (ho_visitor (unpacker_holder al fp f limit)) k" for k by (simp add: same_place_def fun_eq_iff)
next
  fix c bs c'
  assume c: "never f \<and> ready al c \<and> \<not> visitor_referenced (m_visitor c)"
    and e: "exec_bytes (ho_visitor (unpacker_holder al fp f limit)) bs c = Some (PARSE_CONTINUE, c')"
  obtain s where s: "m_visitor c = Some s" using c by (auto simp: ready_def pool.builds_def)
  have k: "zone_keeps f True (z_fins (co_zone s)) (z_fin_cap (co_zone s)) (m_visitor c)"
    using c s by (simp add: zone_keeps_def visitor_referenced_def)
  have r: "ready al c" using c by blast
  note run = unpacker_run [OF r k e [simplified]]
  have "\<not> visitor_referenced (m_visitor c')"
    using run(2) c by (cases "m_visitor c'") (simp_all add: zone_keeps_def visitor_referenced_def)
  then show "never f \<and> ready al c' \<and> \<not> visitor_referenced (m_visitor c')" using c run(3) by auto
qed (auto simp: ready_def ctx_ok_def)

text \<open>The visitor of a new unpacker on the callbacks of a value that is within the limits and fits into the
  first chunk.\<close>

lemma visit_builds:
  assumes "malloc_ok al" and "zone_ok al z" and "mobj_ok ob" and "limit_error limit 1 ob = None" and "mem_need ob \<le> z_free z"
  shows "\<exists>s. visit_obj fp (create_object_visitor (unpack_env al fp f limit)) ob (Some (create_object_visitor_new z Map.empty Map.empty)) =
       Some (Some s) \<and> holds fp (co_mem s) (co_bytes s) ob (co_obj s)"
proof -
  let ?s0 = "create_object_visitor_new z Map.empty Map.empty" and ?V = "create_object_visitor (unpack_env al fp f limit)"
  have ok: "malloc_ok al \<and> zone_ok al z" "dom (Map.empty :: nat \<rightharpoonup> mem_obj) \<subseteq> used_memory z" "dom (Map.empty :: nat \<rightharpoonup> byte) \<subseteq> used_memory z"
    using assms(1,2) by simp_all
  note new = pool.new_visitor_ok [OF ok]
  have s0: "co_stack ?s0 = [P_OBJ]" "co_zone ?s0 = z" by (simp_all add: create_object_visitor_new_def)
  obtain r st where w: "walk fp ?V ob (Some ?s0) = (r, st)" by force
  have out: "pool.outcome al ?s0 (limit_error limit 1 ob) (mem_need ob) (pool.built al fp ob P_OBJ [] ?s0) (r, st)"
    using pool.walk_builds(1) [OF unpack_env_alloc(1,2) assms(3) new(1) s0(1) new(2), of fp f limit] w by simp
  show ?thesis
  proof (cases r)
    case VTrue
    then obtain s where s: "st = Some s" "pool.built al fp ob P_OBJ [] ?s0 s" using out by (auto simp: pool.outcome_def)
    then show ?thesis using w VTrue pool.built_root [OF s(2)] by (auto simp: visit_obj_walk)
  qed (use out s0(2) assms(4,5) in \<open>auto simp: pool.outcome_def\<close>)
qed

lemma unpacker_pieces:
  assumes "unpacker_new al calls h n = Some (Inr p)" and "n < 2 ^ 64" and "malloc_ok al" and "\<forall>n. grants h n" and "never f"
    and "mobj_ok ob" and "limit_error limit 1 ob = None" and "mem_need ob \<le> MSGPACK_ZONE_CHUNK_SIZE"
    and "[] \<notin> set css" and "concat css = enc_value fp ob" and "length (enc_value fp ob) + 4 < 2 ^ 64"
  shows "\<exists>p' s. parser_feeds (unpacker_holder al fp f limit) h css p =
      Some (replicate (length css - 1) (Inr False) @ [Inr True], p') \<and> px_visitor p' = Some s \<and>
      holds fp (co_mem s) (co_bytes s) ob (co_obj s) \<and> parser_ok p' \<and> unread p' = []"
proof -
  obtain z where z: "make_zone al calls = Inr z" and p: "parser_ok p" "unread p = []" "m_used p = 4"
      "px_visitor p = Some (create_object_visitor_new z Map.empty Map.empty)" "m_cs (px_context p) = MSGPACK_CS_HEADER"
      "m_stack (px_context p) = []"
    using assms(1,2) by (rule unpacker_new_shape)
  note mz = make_zone_ok [OF assms(3) z]
  let ?s0 = "create_object_visitor_new z Map.empty Map.empty"
  have free: "z_free z = MSGPACK_ZONE_CHUNK_SIZE"
    using z by (auto simp: make_zone_def new_zone_def zone_new_def split: option.splits sum.splits bind_splits)
  have co: "pool.co_ok al ?s0" using assms(3) mz(1) unfolding pool.co_ok_def by (simp add: create_object_visitor_new_def)
  have I: "never f \<and> ready al (px_context p) \<and> \<not> visitor_referenced (m_visitor (px_context p))"
    using assms(5) co p(4-6) unfolding ready_def px_visitor_def
    by (simp add: ctx_ok_def slot_def pool.builds_def visitor_referenced_def) (simp add: create_object_visitor_new_def)
  obtain s where s: "visit_obj fp (create_object_visitor (unpack_env al fp f limit)) ob (Some ?s0) = Some (Some s)"
      "holds fp (co_mem s) (co_bytes s) ob (co_obj s)"
    using visit_builds [OF assms(3) mz(1) assms(6,7)] assms(8) free by auto
  show ?thesis
    using copying.stream_ok [OF I assms(4) p(1,5,6,2) assms(6) _ assms(9,10), where v = "Some s" and ?fpa = fp and limit = limit] s p(3,4) assms(11)
    by auto
qed

end
