(* ===== verification/Spec2Isabelle.thy ===== *)
theory Spec2Isabelle
  imports Prelude Recv_Sock Recv_Ring Frame Objects World Memory Client Nc Server Delivery Accepts Nc_Requests Db
    Mp_Bytes Mp_Pack Mp_Parse Mp_Roundtrip Mp_Sbuffer Mp_Documents Mp_Object Mp_Visitors Mp_Text Mp_Zone Mp_Create Mp_Protocol Mp_Stops
    Mp_Unpack Mp_Types Mp_Vrefbuffer Mp_Fbuffer Mp_Resume Mp_Stream Mp_Unpacker Mp_Client Mp_Pieces
begin

text \<open>
  \<^bold>\<open>The program.\<close> CustomersCardMS is a message server for Windows (C++, I/O completion ports). Client
  connections carry framed commands; a push interface on port 80 takes HTTP requests; commands go to a MySQL
  database. Payloads are MessagePack, with the vendored header library msgpack-c (version 2 API). Paths below
  are relative to \<^verbatim>\<open>src/CustomersCardMS\<close> and, from the MessagePack part on, to
  \<^verbatim>\<open>src/msgpack-c/include/msgpack\<close>.

  \<^bold>\<open>How the parts interact.\<close> \<^verbatim>\<open>main\<close> initialises the pools, the sockets and the database links, starts the
  worker threads and loops over the listeners, posting accepts and closing idle ones. A worker takes a
  completion packet, finds the connection by its key and the operation by its \<^verbatim>\<open>OVERLAPPED\<close>, and calls the
  success or the failure routine stored there. A receive completion advances the ring buffer of the
  connection, cuts complete frames out of it into \<^verbatim>\<open>BUFFER_OBJ\<close>s from a pool, posts each as a command packet
  and posts the next receive; a send completion frees the buffer and takes the next one from the send queue
  of the connection.

  \<^bold>\<open>The server, theory by theory.\<close>
  \<^item> \<open>Prelude\<close>: machine types, guarded access to memory (\<^const>\<open>mem_at\<close>, \<^const>\<open>mem_range\<close>, \<^const>\<open>mem_write\<close>:
    an access out of bounds is \<^const>\<open>None\<close>), integers as bytes, \<^verbatim>\<open>malloc\<close> as a parameter (\<^typ>\<open>heap_env\<close>).
  \<^item> \<open>Recv_Sock\<close>, \<open>Objects\<close>: the records and member functions of \<^verbatim>\<open>ms_data.h\<close>: \<^verbatim>\<open>RECV_SOCK\<close> with its ring of
    bytes, scanner, copy out, reference count and send queue; \<^verbatim>\<open>RECV_OBJ\<close>, \<^verbatim>\<open>BUFFER_SOCK\<close>, \<^verbatim>\<open>BUFFER_OBJ\<close>,
    \<^verbatim>\<open>LISTEN_SOCK\<close>. Locale \<open>send_queue\<close> is the contract of the send queue.
  \<^item> \<open>Recv_Ring\<close>, \<open>Frame\<close>: the ring as a queue of bytes (\<^const>\<open>contents\<close>), its invariant (\<^const>\<open>ring_ok\<close>), and
    the scanner as the frame format (\<^const>\<open>scan_frame\<close>) in all three layouts of the ring.
  \<^item> \<open>World\<close>, \<open>Memory\<close>: the state of the process and the four object pools of \<^verbatim>\<open>ms_memory.cpp\<close>; locale
    \<open>object_pool\<close> is interpreted for each of them.
  \<^item> \<open>Client\<close>, \<open>Nc\<close>, \<open>Server\<close>: the requests and completion routines of the two interfaces, the frame loops,
    \<^verbatim>\<open>ms_initsock.cpp\<close>, \<^verbatim>\<open>worker_thread.cpp\<close>, \<^verbatim>\<open>main\<close>. Windows is the parameter \<^typ>\<open>os_env\<close>.
  \<^item> \<open>Delivery\<close>: the two frame loops deliver the frames of the byte stream (locale \<open>cmd_loop\<close>).
  \<^item> \<open>Accepts\<close>: an accept from its post (\<^const>\<open>accept_posted\<close>) to its end: its first bytes, its failure, or the
    sweep of the main loop. \<open>Nc_Requests\<close>: the completeness test against requests with a head of lines
    (\<^const>\<open>request_head\<close>); \<^verbatim>\<open>StrStrI\<close> is a member of \<^typ>\<open>os_env\<close>, with its documented behaviour as the
    hypothesis \<^const>\<open>StrStrI_finds_first\<close>.
  \<^item> \<open>Db\<close>: the pool of MySQL links, with the interleavings of threads as sequences of the critical sections.

  \<^bold>\<open>MessagePack, theory by theory.\<close>
  \<^item> \<open>Mp_Bytes\<close> (\<^verbatim>\<open>sysdep.h\<close>, \<^verbatim>\<open>v1/unpack.hpp\<close>): big-endian loads and stores.
  \<^item> \<open>Mp_Pack\<close> (\<^verbatim>\<open>v1/pack.hpp\<close>): every operation of the packer, over an abstract stream; \<open>Mp_Sbuffer\<close>
    (\<^verbatim>\<open>v1/sbuffer.hpp\<close>) is the stream that the server uses; \<open>Mp_Vrefbuffer\<close> and \<open>Mp_Fbuffer\<close>
    (\<^verbatim>\<open>v1/vrefbuffer.hpp\<close>, \<^verbatim>\<open>v1/fbuffer.hpp\<close>) are the other ones. Locales \<open>byte_stream\<close>, \<open>total_byte_stream\<close>.
  \<^item> \<open>Mp_Parse\<close> (\<^verbatim>\<open>v2/parse.hpp\<close>, \<^verbatim>\<open>v2/null_visitor.hpp\<close>): the state machine \<^verbatim>\<open>context::execute\<close>, with the
    visitor as a record of functions, and \<^verbatim>\<open>parse_imp\<close>. \<open>Mp_Roundtrip\<close> and \<open>Mp_Documents\<close>: what the packer
    writes the parser reads. \<open>Mp_Protocol\<close>: the order of the callbacks as the locale \<open>visitor_protocol\<close>;
    \<open>Mp_Stops\<close>: visitors that stop the parser.
  \<^item> \<open>Mp_Resume\<close>, \<open>Mp_Stream\<close>: the parser on bytes that arrive in pieces, and the class \<^verbatim>\<open>parser\<close> with its
    counted, growing buffer.
  \<^item> \<open>Mp_Object\<close>, \<open>Mp_Visitors\<close>, \<open>Mp_Text\<close> (\<^verbatim>\<open>v1/object.hpp\<close>): the iteration over an object without
    recursion, and the visitors that pack, compare and print it.
  \<^item> \<open>Mp_Zone\<close> (\<^verbatim>\<open>v1/detail/cpp11_zone.hpp\<close>): the memory pool; locale \<open>arena\<close> is what its users rely on.
    \<open>Mp_Create\<close> (\<^verbatim>\<open>v2/create_object_visitor.hpp\<close>), \<open>Mp_Unpack\<close> (\<^verbatim>\<open>v2/unpack.hpp\<close>), \<open>Mp_Types\<close>: building objects in
    a zone from the callbacks of the parser, and the functions \<^verbatim>\<open>unpack\<close>.
  \<^item> \<open>Mp_Unpacker\<close> (class \<^verbatim>\<open>unpacker\<close> of \<^verbatim>\<open>v2/unpack.hpp\<close>): objects from a stream, with strings that may lie in the
    buffer; the counter of a buffer is the number of its owners. \<open>Mp_Client\<close>: any caller of it, as a run of a list
    of actions. \<open>Mp_Pieces\<close>: a value that arrives in pieces is read (locale \<open>plain_holder\<close> of \<open>Mp_Stream\<close>).

  \<^bold>\<open>What the lemmas show.\<close> Server: commands are delivered exactly and in order (C1); the scanner is the frame
  format (C4) and the ring a queue (C5, C6); pools never hand out an object in use (C7, and the same for
  connections); the send queue is first in first out (C9); an accept is posted with all it needs or leaves nothing behind
  (C38), is swept and released when it stays idle (C39), or delivers the commands of its first bytes (C40); requests
  are complete when their announced length has arrived (C36), and a long number in them is fatal (C37); the number of
  links (C11) and the inverted test that makes every connection fail (C12). MessagePack: packed values are parsed
  back (C2), also in pieces (C29 to C32), into objects (C14, C16, C35), with the types of the tags (C17); on
  arbitrary bytes nothing is read or written out of bounds (C3, C13, C15); the buffer that refers to its pieces
  (C8) and the defect of its
  \<^verbatim>\<open>migrate\<close> (C10); walks, comparison, packing and printing of objects (C18 to C24), with the defects that
  were found; the zone (C25 to C27); visitors that stop (C28); the life of the buffers that objects refer to (C33, C34).

  \<^bold>\<open>Conventions.\<close> A result \<^const>\<open>None\<close> is undefined behaviour of the code (an access out of bounds, a freed or
  null object), an exception of C++ is \<open>Inl\<close>, \<open>THROWN\<close> or \<open>VThrow\<close>. Loops that are not structural are
  \<^theory_text>\<open>partial_function (option)\<close>, where \<^const>\<open>None\<close> also covers a loop that does not end, so that every
  theorem with a result \<^const>\<open>Some\<close> includes termination; no fuel is used. Integers have the width of the
  64-bit Windows build; where the model has numbers instead of words, \<^const>\<open>u64\<close> is the wrap-around. Floating
  point conversions are the parameter \<^typ>\<open>fpu\<close>, \<^verbatim>\<open>malloc\<close> is \<^typ>\<open>heap_env\<close> or \<^typ>\<open>allocator\<close>.

  \<^bold>\<open>Not modelled.\<close> The message boxes and the log of \<^verbatim>\<open>main\<close> and the generated \<^verbatim>\<open>stdafx\<close> files (no logic); the
  preemption of threads inside a critical section (the locks exclude it) and, except for the links, between
  critical sections; the conversions between objects and C++ types (\<^verbatim>\<open>adaptor/\<close>, templates, most of them
  generated), the superseded version 1 parser, the stream \<^verbatim>\<open>zbuffer\<close> (a wrapper of zlib) and the C
  implementation, none of which the server uses; Threading Building Blocks, a vendored library of which the
  server uses one class, \<^verbatim>\<open>concurrent_hash_map\<close>, which is modelled as a finite map.
\<close>

section \<open>The connection\<close>


text \<open>A ring of sixteen bytes that holds the first four bytes of a frame; the rest of it arrives.\<close>

definition half_frame_ring :: recv_sock where
  "half_frame_ring = (zero_recv_sock 16)
     \<lparr>lstSend := Some [], rs_sock := 7, dwBufsize := 16, dwWritepos := 4, nRef := 1,
      buf := take 4 (encode_frame [1, 2]) @ replicate 12 0\<rparr>"


lemma half_frame_ring_ok: "ring_ok half_frame_ring"
  by (simp add: ring_ok_def ring_shape_def half_frame_ring_def zero_recv_sock_def)


lemma half_frame_filled:
  "wsarecv_filled (wsabuf0 (InitWSABUFS half_frame_ring)) (wsabuf1 (InitWSABUFS half_frame_ring))
     (drop 4 (encode_frame [1, 2])) (buf half_frame_ring) (encode_frame [1, 2] @ replicate 6 0)"
  by code_simp



section \<open>MessagePack\<close>

text \<open>C2. A value packed into a string buffer and parsed from it: packing succeeds as long as memory is
  granted, the parser makes exactly the callbacks of the value, in order, stops at its last byte and
  tells whether bytes follow.\<close>

theorem mp_pack_parse:
  assumes "mobj_ok ob" and "visit_obj fp V ob v = Some v'" and "\<forall>n. grants h n" and "sbuffer_new h n = Inr b"
    and "length (enc_value fp ob) < 2 ^ 64"
  shows "\<exists>b'. pack_value fp (sbuffer_stream h) ob b = Some b' \<and> sbuffer_ok b' \<and>
     parse_imp V (sbuffer_contents b' @ post) (length (sbuffer_contents b' @ post)) 0 v =
       Some (if post = [] then PARSE_SUCCESS else PARSE_EXTRA_BYTES, length (sbuffer_contents b'), v')"
  using packed_then_parsed [OF assms(1-3) _ _ assms(5)] sbuffer_new_ok [OF assms(4)] by blast

definition card_obj :: mobj where
  "card_obj = MAP [KV (STR_t [99, 97, 114, 100]) (ARRAY [POSITIVE_INTEGER 300, NEGATIVE_INTEGER (- 5), NIL])]"

definition idle_fpu :: fpu where
  "idle_fpu = \<lparr>fp_widen = ucast, fp_narrow = ucast, fp_equal = (=)\<rparr>"

definition granting_heap :: heap_env where
  "granting_heap = \<lparr>grants = \<lambda>_. True, junk = \<lambda>_. 0\<rparr>"

theorem mp_pack_parse_witness:
  "\<exists>b'. pack_value idle_fpu (sbuffer_stream granting_heap) card_obj \<lparr>sb_size = 0, sb_data = None, sb_alloc = 0\<rparr> = Some b' \<and>
     sbuffer_ok b' \<and>
     parse_imp null_visitor (sbuffer_contents b' @ [0]) (length (sbuffer_contents b' @ [0])) 0 () =
       Some (if [0 :: byte] = [] then PARSE_SUCCESS else PARSE_EXTRA_BYTES, length (sbuffer_contents b'), ())"
proof (rule mp_pack_parse)
  show "mobj_ok card_obj" by (simp add: card_obj_def)
  show "visit_obj idle_fpu null_visitor card_obj () = Some ()" by (simp add: card_obj_def null_visitor_def vt_def)
  show "\<forall>n. grants granting_heap n" by (simp add: granting_heap_def)
  show "sbuffer_new granting_heap 0 = Inr \<lparr>sb_size = 0, sb_data = None, sb_alloc = 0\<rparr>" by (simp add: sbuffer_new_def)
  show "length (enc_value idle_fpu card_obj) < 2 ^ 64" by (simp add: card_obj_def enc_defs pack_defs)
qed

text \<open>C3. The parser on arbitrary bytes and with any visitor: it returns, and never reads outside of the
  block; the offset it reports lies between the start and the end.\<close>

theorem mp_parse_total:
  assumes "len \<le> length block"
  shows "\<exists>r off' v'. parse_imp V block len off v = Some (r, off', v') \<and> off \<le> off' \<and> (off \<le> len \<longrightarrow> off' \<le> len)"
  using assms by (rule parse_imp_total)

theorem mp_parse_total_witness:
  "\<exists>r off' v'. parse_imp null_visitor [0xdf, 0xff] 2 0 () = Some (r, off', v') \<and> off' \<le> 2"
  using mp_parse_total [of 2 "[0xdf, 0xff]" null_visitor 0 "()"] by auto

section \<open>The ring buffer\<close>


text \<open>A frame that wraps around the end of a ring of sixteen bytes.\<close>

definition wrapped_frame_ring :: recv_sock where
  "wrapped_frame_ring = (zero_recv_sock 16)
     \<lparr>lstSend := Some [], rs_sock := 7, dwBufsize := 16, dwReadpos := 12, dwWritepos := 6, nRef := 1,
      buf := drop 4 (encode_frame [1, 2]) @ replicate 6 0 @ take 4 (encode_frame [1, 2])\<rparr>"

lemma wrapped_frame_ring_ok: "ring_ok wrapped_frame_ring"
  by (simp add: ring_ok_def ring_shape_def wrapped_frame_ring_def zero_recv_sock_def)

lemma wrapped_frame_contents: "contents wrapped_frame_ring = encode_frame [1, 2]"
  by code_simp


text \<open>C5. A receive into the free space of the ring appends the received bytes to the unread ones,
  whatever the layout, and keeps the ring well formed.\<close>

theorem receive_appends:
  assumes "ring_ok rs" and "bs \<noteq> []"
    and "wsarecv_filled (wsabuf0 (InitWSABUFS rs)) (wsabuf1 (InitWSABUFS rs)) bs (buf rs) m'"
  shows "ring_ok (InitWRpos (of_nat (length bs)) ((InitWSABUFS rs)\<lparr>buf := m'\<rparr>)) \<and>
     contents (InitWRpos (of_nat (length bs)) ((InitWSABUFS rs)\<lparr>buf := m'\<rparr>)) = contents rs @ bs"
  using recv_into_ok [OF assms(1,3,2)] by (simp add: recv_into_def)

theorem receive_appends_witness:
  "ring_ok (InitWRpos (of_nat (length (drop 4 (encode_frame [1, 2]))))
       ((InitWSABUFS half_frame_ring)\<lparr>buf := encode_frame [1, 2] @ replicate 6 0\<rparr>)) \<and>
   contents (InitWRpos (of_nat (length (drop 4 (encode_frame [1, 2]))))
       ((InitWSABUFS half_frame_ring)\<lparr>buf := encode_frame [1, 2] @ replicate 6 0\<rparr>)) =
     contents half_frame_ring @ drop 4 (encode_frame [1, 2])"
  by (rule receive_appends [OF half_frame_ring_ok _ half_frame_filled]) (simp add: encode_frame_def)

text \<open>C6. A frame in the ring is found by the scanner and copied out by the read: payload, checksum and
  tail arrive in the destination, the rest stays unread.\<close>

theorem frame_comes_out:
  assumes "ring_ok rs" and "contents rs = encode_frame p @ rest" and "length p + 2 \<le> length dest"
  shows "\<exists>n rs1 k d rs2. GetCmdDataLength rs = Some (n, rs1, []) \<and> unat n = length p + 2 \<and>
     Read dest n rs1 = Some (k, d, rs2) \<and> k = n \<and> take (unat k) d = p @ [sum_list p, 0x0d] \<and>
     drop (unat k) d = drop (unat k) dest \<and> contents rs2 = rest \<and> ring_ok rs2 \<and> same_conn rs rs2"
  using assms by (rule frame_read)

theorem frame_comes_out_witness:
  "\<exists>n rs1 k d rs2. GetCmdDataLength wrapped_frame_ring = Some (n, rs1, []) \<and> unat n = length [1, 2 :: byte] + 2 \<and>
     Read (replicate 8 0) n rs1 = Some (k, d, rs2) \<and> k = n \<and> take (unat k) d = [1, 2] @ [sum_list [1, 2], 0x0d] \<and>
     drop (unat k) d = drop (unat k) (replicate 8 0) \<and> contents rs2 = [] \<and> ring_ok rs2 \<and> same_conn wrapped_frame_ring rs2"
  by (rule frame_comes_out [OF wrapped_frame_ring_ok]) (simp_all add: wrapped_frame_contents)

section \<open>Objects and pools\<close>

text \<open>C7. The pool of command buffers. Over every run of allocations and frees from a good state, a client
  that frees only what it holds: what it holds is exactly what is in use, no allocation returns a buffer
  that is still held, and the free list stays within its 500 entries.\<close>

theorem bobj_pool_run:
  assumes "object_pool.client (allocBObj e n) freeBObj w (bobj_use w) w1 H" and "bobj_pool_ok w"
  shows "bobj_pool_ok w1 \<and> bobj_use w1 = H \<and> length (v_BObj w1) \<le> 500 \<and>
     (\<forall>p w2. allocBObj e n w1 = Some (p, w2) \<longrightarrow> p = NULL \<or> p \<notin> H)"
  using bobj_pool.client_in_use [OF assms(1,2) refl] bobj_pool.pool_bounded [OF assms(1,2) refl]
    bobj_pool.alloc_not_held [OF assms(1,2) refl] by auto

lemma first_bobj: "\<exists>w1. allocBObj calm_env 4096 boot_world = Some (1, w1)"
  by (simp add: allocBObj_def HeapAlloc_def os_call_def put_defs update_bobj_def calm_env_def boot_world_def)

theorem bobj_pool_run_witness:
  "\<exists>w1. allocBObj calm_env 4096 boot_world = Some (1, w1) \<and> bobj_pool_ok w1 \<and> bobj_use w1 = {1} \<and> length (v_BObj w1) \<le> 500"
proof -
  obtain w1 where w1: "allocBObj calm_env 4096 boot_world = Some (1, w1)" using first_bobj by blast
  have ok: "bobj_pool_ok boot_world" by (simp add: bobj_pool_ok_def pool_inv_def boot_world_def)
  have none: "bobj_use boot_world = {}" by (simp add: pool_use_def boot_world_def)
  have run: "bobj_pool.client calm_env 4096 boot_world (bobj_use boot_world) w1 {1}"
    using bobj_pool.client.get [OF bobj_pool.client.start w1, of "{}"] none by simp
  show ?thesis using bobj_pool_run [OF run ok] w1 by blast
qed

text \<open>The same for the pool of connection objects: a connection handed out is not one that is in use.\<close>

theorem rsock_pool_run:
  assumes "object_pool.client (allocRSock e n) freeRSock w (pool_use (v_RSock w) (rsocks w)) w1 H" and "rsock_pool_ok w"
  shows "rsock_pool_ok w1 \<and> pool_use (v_RSock w1) (rsocks w1) = H \<and> length (v_RSock w1) \<le> 500 \<and>
     (\<forall>p w2. allocRSock e n w1 = Some (p, w2) \<longrightarrow> p = NULL \<or> p \<notin> H)"
  using rsock_pool.client_in_use [OF assms(1,2) refl] rsock_pool.pool_bounded [OF assms(1,2) refl]
    rsock_pool.alloc_not_held [OF assms(1,2) refl] by auto

lemma first_rsock: "\<exists>w1. allocRSock calm_env 4096 boot_world = Some (1, w1)"
  by (simp add: allocRSock_def HeapAlloc_def os_call_def put_defs RSock_Init_def log_closed_def calm_env_def boot_world_def)

theorem rsock_pool_run_witness:
  "\<exists>w1. allocRSock calm_env 4096 boot_world = Some (1, w1) \<and> rsock_pool_ok w1 \<and>
     pool_use (v_RSock w1) (rsocks w1) = {1} \<and> length (v_RSock w1) \<le> 500"
proof -
  obtain w1 where w1: "allocRSock calm_env 4096 boot_world = Some (1, w1)" using first_rsock by blast
  have ok: "rsock_pool_ok boot_world" by (simp add: rsock_pool_ok_def pool_inv_def boot_world_def)
  have none: "pool_use (v_RSock boot_world) (rsocks boot_world) = {}" by (simp add: pool_use_def boot_world_def)
  have run: "rsock_pool.client calm_env 4096 boot_world (pool_use (v_RSock boot_world) (rsocks boot_world)) w1 {1}"
    using rsock_pool.client.get [OF rsock_pool.client.start w1, of "{}"] none by simp
  show ?thesis using rsock_pool_run [OF run ok] w1 by blast
qed

text \<open>C9. The send queue of a connection is first in, first out: of any number of sends onto an idle
  connection only the first one starts a transfer, and the completions hand out the others in the order
  in which they were queued, then report that nothing is left.\<close>

theorem send_queue_fifo:
  assumes "lstSend rs = Some []"
  shows "\<exists>rs1 rs2. send_queue.push_all CheckSend (x # xs) rs = Some (True # replicate (length xs) False, rs1) \<and>
     send_queue.pop_all GetNextData (Suc (length xs)) rs1 = Some (xs @ [NULL], rs2) \<and> lstSend rs2 = Some []"
proof -
  have ok: "lstSend rs \<noteq> None" "send_order rs = []" using assms by (simp_all add: send_order_def)
  obtain rs1 where 1: "sendq.push_all (x # xs) rs = Some (True # replicate (length xs) False, rs1)"
      "lstSend rs1 \<noteq> None" "send_order rs1 = x # xs"
    using sendq.push_all_idle [OF ok] by blast
  obtain rs2 where "sendq.pop_all (Suc (length xs)) rs1 = Some (xs @ [NULL], rs2)" "lstSend rs2 \<noteq> None" "send_order rs2 = []"
    using sendq.pop_all_order [OF 1(2,3)] by blast
  with 1(1) show ?thesis by (auto simp: send_order_def)
qed

theorem send_queue_fifo_witness:
  "\<exists>rs1 rs2. send_queue.push_all CheckSend (11 # [12, 13]) ((zero_recv_sock 0)\<lparr>lstSend := Some []\<rparr>) =
       Some (True # replicate (length [12 :: addr, 13]) False, rs1) \<and>
     send_queue.pop_all GetNextData (Suc (length [12 :: addr, 13])) rs1 = Some ([12, 13] @ [NULL], rs2) \<and> lstSend rs2 = Some []"
  by (rule send_queue_fifo) simp

text \<open>The map of pending accepts behaves as a finite map: after an insertion and any later deletions
  of other keys a lookup finds the inserted connection, a deletion removes exactly its key, and the keys
  stay distinct.\<close>

theorem pending_map_laws:
  assumes "pending_ok ls"
  shows "pending_map (InsertIntoPendingMap k p ls) = (pending_map ls)(k \<mapsto> p) \<and>
     pending_map (DeleteFromPendingMap k ls) = (pending_map ls)(k := None) \<and>
     pending_ok (InsertIntoPendingMap k p ls) \<and> pending_ok (DeleteFromPendingMap k ls) \<and>
     length (acceptPendingMap (InsertIntoPendingMap k p ls)) = card (insert k (dom (pending_map ls)))"
  using assms pending_size [OF pending_ok_Insert [OF assms, of k p]]
  by (simp add: Insert_pending_map Delete_pending_map pending_ok_Insert pending_ok_Delete)

definition one_pending :: listen_sock where
  "one_pending = \<lparr>sListenSock = 5, fpAcceptex = None, hPostAcceptexEvent = 1, acceptPendingMap = [(3, RS 7)]\<rparr>"

theorem pending_map_laws_witness:
  "pending_map (InsertIntoPendingMap 3 (RS 9) one_pending) = (pending_map one_pending)(3 \<mapsto> RS 9) \<and>
     pending_map (DeleteFromPendingMap 3 one_pending) = (pending_map one_pending)(3 := None) \<and>
     pending_ok (InsertIntoPendingMap 3 (RS 9) one_pending) \<and> pending_ok (DeleteFromPendingMap 3 one_pending) \<and>
     length (acceptPendingMap (InsertIntoPendingMap 3 (RS 9) one_pending)) = card (insert 3 (dom (pending_map one_pending)))"
  by (rule pending_map_laws) (simp add: one_pending_def pending_ok_def)

section \<open>The database links\<close>


definition refusing_mysql :: mysql_env where
  "refusing_mysql = \<lparr>mysql_init_ok = \<lambda>_. False, mysql_real_connect = \<lambda>_ _ _ _ _ _. False,
     mysql_set_character_set = \<lambda>_ _. 1, mysql_ping = \<lambda>_. 1\<rparr>"


text \<open>C12. On a MySQL server where every call succeeds no link is ever established: the test of the
  character set is inverted, so that the start leaves the pool empty and an allocation returns null.\<close>

theorem db_never_connects:
  assumes "mysql_works e"
  shows "v_db (snd (db_init e db_start)) = [] \<and> fst (db_alloc e (snd (db_init e db_start))) = 0"
proof -
  have "snd (db_init e db_start) = db_start\<lparr>db_next := 11, db_tick := 30\<rparr>"
    using db_init_loop_works [OF assms, of db_start 10] by (simp add: db_init_def db_start_def)
  then show ?thesis using db_alloc_works [OF assms] by (simp add: db_start_def)
qed

theorem db_never_connects_witness:
  "v_db (snd (db_init (refusing_mysql\<lparr>mysql_init_ok := \<lambda>_. True, mysql_real_connect := \<lambda>_ _ _ _ _ _. True,
       mysql_set_character_set := \<lambda>_ _. 0, mysql_ping := \<lambda>_. 0\<rparr>) db_start)) = [] \<and>
   fst (db_alloc (refusing_mysql\<lparr>mysql_init_ok := \<lambda>_. True, mysql_real_connect := \<lambda>_ _ _ _ _ _. True,
       mysql_set_character_set := \<lambda>_ _. 0, mysql_ping := \<lambda>_. 0\<rparr>)
     (snd (db_init (refusing_mysql\<lparr>mysql_init_ok := \<lambda>_. True, mysql_real_connect := \<lambda>_ _ _ _ _ _. True,
       mysql_set_character_set := \<lambda>_ _. 0, mysql_ping := \<lambda>_. 0\<rparr>) db_start))) = 0"
  by (rule db_never_connects) (simp add: mysql_works_def)

section \<open>The buffers that values are packed into\<close>

text \<open>C13. A write to the string buffer never copies outside of its block: it appends the bytes and keeps
  the buffer well formed, or ends with a failed allocation.\<close>

theorem sbuffer_write_safe:
  assumes "sbuffer_ok b" and "unat (sb_size b) + length bs < 2 ^ 64"
  shows "sbuffer_write h bs b = Some (Inl bad_alloc) \<and> (\<exists>n. \<not> grants h n) \<or>
     (\<exists>b'. sbuffer_write h bs b = Some (Inr b') \<and> sbuffer_ok b' \<and> sbuffer_contents b' = sbuffer_contents b @ bs)"
  using sbuffer_write_ok [OF assms, of h] by blast

theorem sbuffer_write_safe_witness:
  "sbuffer_write granting_heap [1, 2, 3] \<lparr>sb_size = 1, sb_data = Some [9, 8], sb_alloc = 2\<rparr> = Some (Inl bad_alloc) \<and>
       (\<exists>n. \<not> grants granting_heap n) \<or>
     (\<exists>b'. sbuffer_write granting_heap [1, 2, 3] \<lparr>sb_size = 1, sb_data = Some [9, 8], sb_alloc = 2\<rparr> = Some (Inr b') \<and>
       sbuffer_ok b' \<and> sbuffer_contents b' = sbuffer_contents \<lparr>sb_size = 1, sb_data = Some [9, 8], sb_alloc = 2\<rparr> @ [1, 2, 3])"
  by (rule sbuffer_write_safe) (simp_all add: sbuffer_ok_def sb_block_def)

text \<open>C8. A write to a \<^verbatim>\<open>vrefbuffer\<close>, whether the piece is copied into a chunk, joined to the last element, or
  referred to: nothing outside of its blocks is touched, the elements of the vector together hold the bytes
  written before and then the new ones, or the exception of an allocation that was refused leaves them as
  they were; the destructor then frees exactly its chunks and its vector.\<close>

theorem vrefbuffer_write_safe:
  assumes "vref_ok M v" and "bounded e" and "length src + 8 < 2 ^ 64"
  shows "\<exists>x v' M'. vrefbuffer_write e src v M = Some (x, v', M') \<and> vref_ok M' v' \<and>
     (x = None \<or> x = Some bad_alloc \<and> refused e (max (32 * vr_cap v) (8 + max (vr_chunk_size v) (length src)))) \<and>
     vref_contents M' v' = vref_contents M v @ (if x = None then src else []) \<and>
     vrefbuffer_delete v' M' =
       Some (M'\<lparr>chunks := chunks M' |` (- set (ib_head v')), arrays := (arrays M')(vr_array v' := None)\<rparr>)"
  using vrefbuffer_write_ok [OF assms] vrefbuffer_delete_ok by blast

text \<open>A buffer with chunks of four bytes, after the constructor.\<close>

definition roomy :: vref_env where
  "roomy = \<lparr>grants = \<lambda>n. unat n < 2 ^ 62, junk = \<lambda>_. 0, array_at = \<lambda>a. 1024 * a\<rparr>"

definition small_vref :: vrefbuffer where
  "small_vref = \<lparr>vr_vec = [], vr_array = 0, vr_cap = 4, vr_ref_size = 10, vr_chunk_size = 4, ib_free = 4, ib_ptr = (1, 0), ib_head = [1]\<rparr>"

definition small_vmem :: vmem where
  "small_vmem = \<lparr>chunks = [1 \<mapsto> [0, 0, 0, 0]], arrays = [0 \<mapsto> 4], serial = 2\<rparr>"

lemma small_vref_ok: "vref_ok small_vmem small_vref" "bounded roomy" "vref_contents small_vmem small_vref = []"
  by (simp_all add: vref_ok_def chunks_ok_def vector_ok_def serial_ok_def blk_def small_vref_def small_vmem_def
      bounded_def roomy_def vref_contents_def)

lemma roomy_grants: "k < 2 ^ 62 \<Longrightarrow> \<not> refused roomy k"
  by (auto simp: refused_def roomy_def)

theorem vrefbuffer_write_safe_witness:
  "vrefbuffer_new roomy 0 4 \<lparr>chunks = Map.empty, arrays = Map.empty, serial = 0\<rparr> = Some (Inr small_vref, small_vmem) \<and>
   (\<exists>v M. vrefbuffer_write roomy [1, 2, 3, 4, 5, 6] small_vref small_vmem = Some (None, v, M) \<and> vref_ok M v \<and>
      vref_contents M v = [1, 2, 3, 4, 5, 6] \<and> vrefbuffer_delete v M \<noteq> None)"
proof
  show "vrefbuffer_new roomy 0 4 \<lparr>chunks = Map.empty, arrays = Map.empty, serial = 0\<rparr> = Some (Inr small_vref, small_vmem)"
    by (simp add: vrefbuffer_new_def malloc_array_def malloc_chunk_def roomy_def small_vref_def small_vmem_def
        packer_max_buffer_size_def upt_rec)
  have "\<not> refused roomy (max (32 * vr_cap small_vref) (8 + max (vr_chunk_size small_vref) (length [1, 2, 3, 4, 5, 6 :: byte])))"
    by (rule roomy_grants) (simp add: small_vref_def)
  then show "\<exists>v M. vrefbuffer_write roomy [1, 2, 3, 4, 5, 6] small_vref small_vmem = Some (None, v, M) \<and> vref_ok M v \<and>
      vref_contents M v = [1, 2, 3, 4, 5, 6] \<and> vrefbuffer_delete v M \<noteq> None"
    using vrefbuffer_write_safe [OF small_vref_ok(1,2), of "[1, 2, 3, 4, 5, 6]"] small_vref_ok(3) by fastforce
qed

text \<open>C10. Moving the contents of one \<^verbatim>\<open>vrefbuffer\<close> to the end of another works, or reports a failed
  allocation and changes nothing, when the vector of the other has room or lies below that of the first; in
  all other cases \<^verbatim>\<open>migrate\<close> writes past the end of the vector, because it compares the end of the wrong
  one.\<close>

theorem vrefbuffer_migrate_exact:
  assumes "vrefs_ok M v t" and "bounded e" and "vr_chunk_size t \<le> vr_chunk_size v"
    and "grants e (of_nat (8 + vr_chunk_size v))"
  shows "if tail_below_end e v t \<or> length (vr_vec t) + length (vr_vec v) \<le> vr_cap t
    then \<exists>x v' t' M'. vrefbuffer_migrate e v t M = Some (x, v', t', M') \<and> vrefs_ok M' v' t' \<and>
      (x = None \<and> vref_contents M' t' = vref_contents M t @ vref_contents M v \<and> vref_contents M' v' = [] \<or>
       x = Some bad_alloc \<and> vref_contents M' t' = vref_contents M t \<and> vref_contents M' v' = vref_contents M v)
    else vrefbuffer_migrate e v t M = None"
proof (cases "tail_below_end e v t \<or> length (vr_vec t) + length (vr_vec v) \<le> vr_cap t")
  case True
  from vrefbuffer_migrate_ok [OF assms(1-3) True] obtain x v' t' M' where
    "vrefbuffer_migrate e v t M = Some (x, v', t', M')" "migrated M v t x M' v' t'" by blast
  then show ?thesis unfolding if_P [OF True]
    by (intro exI [of _ x] exI [of _ v'] exI [of _ t'] exI [of _ M']) (auto simp: migrated_def)
next
  case False
  then show ?thesis using vrefbuffer_migrate_overruns [OF assms(1,4)] by simp
qed

definition refs_vref :: "nat \<Rightarrow> nat \<Rightarrow> byte list list \<Rightarrow> vrefbuffer" where
  "refs_vref a c bss = \<lparr>vr_vec = map (\<lambda>bs. \<lparr>iov_ptr = USER bs, iov_len = length bs\<rparr>) bss, vr_array = a, vr_cap = 4,
     vr_ref_size = 10, vr_chunk_size = 1, ib_free = 1, ib_ptr = (c, 0), ib_head = [c]\<rparr>"

theorem vrefbuffer_migrate_exact_witness:
  "vrefbuffer_migrate roomy (refs_vref 0 1 [[1], [2]]) (refs_vref 2 3 [[3], [4], [5]])
     \<lparr>chunks = [1 \<mapsto> [0], 3 \<mapsto> [0]], arrays = [0 \<mapsto> 4, 2 \<mapsto> 4], serial = 4\<rparr> = None"
proof -
  let ?M = "\<lparr>chunks = [1 \<mapsto> [0], 3 \<mapsto> [0]], arrays = [0 \<mapsto> 4, 2 \<mapsto> 4], serial = 4\<rparr>"
  have "vrefs_ok ?M (refs_vref 0 1 [[1], [2]]) (refs_vref 2 3 [[3], [4], [5]])"
    by (auto simp: vrefs_ok_def refs_vref_def vref_ok_def chunks_ok_def vector_ok_def serial_ok_def blk_def iov_ok_def)
  moreover have "vr_chunk_size (refs_vref 2 3 [[3], [4], [5]]) \<le> vr_chunk_size (refs_vref 0 1 [[1], [2]])"
    "grants roomy (of_nat (8 + vr_chunk_size (refs_vref 0 1 [[1], [2]])))"
    by (simp_all add: refs_vref_def roomy_def)
  ultimately show ?thesis
    using vrefbuffer_migrate_exact [OF _ small_vref_ok(2)]
    by (fastforce simp: tail_below_end_def refs_vref_def roomy_def)
qed

section \<open>Unpacking\<close>

text \<open>C14. Unpacking the packed bytes of a value, among other bytes: the result is an object in the zone
  that holds exactly the value, and the offset is its end; or the exception of the first limit that the
  value exceeds; or \<^verbatim>\<open>bad_alloc\<close>, which needs more memory than the first chunk has.\<close>

theorem unpack_packed:
  assumes "malloc_ok al" and "al calls 56 \<noteq> None" and "al (calls + 1) 8200 \<noteq> None" and "mobj_ok ob"
  shows "\<exists>res :: mp_exn + 'f object_handle \<times> nat \<times> bool.
     unpack al calls fp (pre @ enc_value fp ob @ post) (length (pre @ enc_value fp ob @ post)) (length pre) f limit = Some res \<and>
     unpacks fp limit ob (length (pre @ enc_value fp ob)) res"
  using assms by (rule unpack_document)

text \<open>A \<^verbatim>\<open>malloc\<close> that hands out addresses a terabyte apart.\<close>

definition far_malloc :: allocator where
  "far_malloc i n = (if n \<le> 2 ^ 40 \<and> i < 2 ^ 20 then Some ((i + 1) * 2 ^ 40) else None)"

lemma far_malloc_ok: "malloc_ok far_malloc"
  unfolding malloc_ok_def
proof (intro allI impI)
  fix i n p assume "far_malloc i n = Some p"
  then have p: "p = (i + 1) * 2 ^ 40" "n \<le> 2 ^ 40" "i < 2 ^ 20" by (auto simp: far_malloc_def split: if_splits)
  have "q + m \<le> p" if j: "j < i" "far_malloc j m = Some q" for j m q
  proof -
    have q: "q = (j + 1) * 2 ^ 40" "m \<le> 2 ^ 40" using j(2) by (auto simp: far_malloc_def split: if_splits)
    have "(j + 1) * 2 ^ 40 + 2 ^ 40 \<le> (i + 1) * (2 ^ 40 :: nat)" using j(1) by simp
    with q p(1) show ?thesis by linarith
  qed
  moreover have "p + n \<le> 2 ^ 63" using p by simp
  ultimately show "0 < p \<and> 16 dvd p \<and> p + n \<le> 2 ^ 63 \<and> (\<forall>j<i. \<forall>m q. far_malloc j m = Some q \<longrightarrow> p + n \<le> q \<or> q + m \<le> p)"
    using p(1) by simp
qed

lemma far_malloc_zone: "far_malloc 0 56 \<noteq> None" "far_malloc (0 + 1) 8200 \<noteq> None"
  by (simp_all add: far_malloc_def)

lemma card_obj_ok: "mobj_ok card_obj"
  by (simp add: card_obj_def)

theorem unpack_packed_witness:
  "\<exists>res :: mp_exn + nat object_handle \<times> nat \<times> bool.
     unpack far_malloc 0 idle_fpu ([7] @ enc_value idle_fpu card_obj @ [8]) (length ([7] @ enc_value idle_fpu card_obj @ [8]))
       (length [7 :: byte]) None unpack_limit_default = Some res \<and>
     unpacks idle_fpu unpack_limit_default card_obj (length ([7] @ enc_value idle_fpu card_obj)) res"
  by (rule unpack_packed [OF far_malloc_ok far_malloc_zone card_obj_ok])

text \<open>C15. Unpacking arbitrary bytes into a zone that may hold other objects: it returns, it has read only
  the bytes given and touched only memory that the zone handed out, and it ends with an object or an
  exception; the zone stays well formed.\<close>

theorem unpack_any_bytes:
  assumes "malloc_ok al" and "zone_ok al z" and "dom m \<subseteq> used_memory z" and "dom b \<subseteq> used_memory z" and "len \<le> length bs"
  shows "\<exists>ret off' s. unpack_imp (unpack_env al fp f limit) bs len off z m b = Some (ret, off', s) \<and>
     zone_ok al (co_zone s) \<and> dom (co_mem s) \<union> dom (co_bytes s) \<subseteq> used_memory (co_zone s) \<and>
     (ret \<in> {PARSE_SUCCESS, PARSE_EXTRA_BYTES} \<and> off \<le> off' \<and> off' \<le> len \<or> (\<exists>x. ret = THROWN x))"
  using unpack_imp_safe [OF assms, of fp f limit off] by (auto simp: pool.co_ok_def)

definition far_zone :: "nat zone" where
  "far_zone = \<lparr>z_chunk_size = 64, z_free = 64, z_ptr = 2 ^ 40 + 8, z_chunks = [(2 ^ 40, 72)], z_fins = [], z_fin_cap = 0, z_calls = 1\<rparr>"

lemma far_zone_ok: "zone_ok far_malloc far_zone" "used_memory far_zone = {}"
  using zone_new_ok [OF far_malloc_ok, of 64 0 far_zone] by (simp_all add: zone_new_def far_malloc_def far_zone_def)

theorem unpack_any_bytes_witness:
  "\<exists>ret off' s. unpack_imp (unpack_env far_malloc idle_fpu None unpack_limit_default) [0xdd, 0xff, 0xff, 0xff, 0xff, 1] 6 0
       far_zone Map.empty Map.empty = Some (ret, off', s) \<and>
     zone_ok far_malloc (co_zone s) \<and> dom (co_mem s) \<union> dom (co_bytes s) \<subseteq> used_memory (co_zone s) \<and>
     (ret \<in> {PARSE_SUCCESS, PARSE_EXTRA_BYTES} \<and> 0 \<le> off' \<and> off' \<le> 6 \<or> (\<exists>x. ret = THROWN x))"
  by (rule unpack_any_bytes [OF far_malloc_ok far_zone_ok(1)]) simp_all





section \<open>Operations on objects\<close>

text \<open>C18. The iteration over an object with an explicit stack makes exactly the callbacks of the structural
  recursion, for every visitor, whether it answers true or stops, and it ends.\<close>

theorem object_parse_is_walk: "object_parse fp V ob v = Some (walk fp V ob v)"
  by (rule object_parse_walk)

text \<open>C19. The comparison of two objects without floats and extensions decides whether they are equal.\<close>

theorem object_equal_exact:
  assumes "mobj_ok x" and "mobj_ok y" and "exact x"
  shows "object_equal fp x y = Some (x = y)"
  using object_equal_eq [OF assms(1,2)] obj_eq_exact(1) [OF assms(3)] by simp

theorem object_equal_exact_witness:
  "object_equal idle_fpu card_obj (MAP [KV (STR_t [99, 97, 114, 100]) (ARRAY [POSITIVE_INTEGER 300, NIL])]) =
     Some (card_obj = MAP [KV (STR_t [99, 97, 114, 100]) (ARRAY [POSITIVE_INTEGER 300, NIL])])"
  by (rule object_equal_exact) (simp_all add: card_obj_def)

text \<open>C20. An extension is never equal to itself: its size with the type byte is compared with the size
  without.\<close>

theorem ext_not_equal:
  assumes "mobj_ok (EXT bs)"
  shows "object_equal fp (EXT bs) (EXT bs) = Some False"
  using object_equal_eq [OF assms assms] assms by (cases bs) simp_all

theorem ext_not_equal_witness: "object_equal idle_fpu (EXT [1, 2, 3]) (EXT [1, 2, 3]) = Some False"
  by (rule ext_not_equal) simp

text \<open>C21. Packing an object without maps and extensions writes the bytes of the value, so that parsing
  them makes the callbacks of the object again.\<close>

theorem pack_object_parses:
  assumes "mobj_ok ob" and "plain ob" and "\<forall>n. grants h n" and "sbuffer_new h n = Inr b"
    and "length (enc_value fp ob) < 2 ^ 64" and "walk fp V ob v = (VTrue, v')"
  shows "\<exists>b'. pack_object fp (sbuffer_stream h) ob b = Some (Inr b') \<and>
     parse_imp V (sbuffer_contents b') (length (sbuffer_contents b')) 0 v = Some (PARSE_SUCCESS, length (sbuffer_contents b'), v')"
proof -
  have b: "sbuffer_ok b" "sbuffer_contents b = []" using sbuffer_new_ok [OF assms(4)] by blast+
  obtain b' where b': "pack_object fp (sbuffer_stream h) ob b = Some (Inr b')" "sbuffer_contents b' = enc_value fp ob"
    using pack_object_bytes [OF assms(3) b(1), of fp ob] b(2) assms(2,5) by (auto simp: plain_bytes)
  moreover have "visit_obj fp V ob v = Some v'" using assms(6) by (simp add: visit_obj_walk)
  ultimately show ?thesis using parse_document [OF assms(1), of fp V v v' "[]" "[]"] by simp
qed

theorem pack_object_parses_witness:
  "\<exists>b'. pack_object idle_fpu (sbuffer_stream granting_heap) (ARRAY [NIL, POSITIVE_INTEGER 7]) \<lparr>sb_size = 0, sb_data = None, sb_alloc = 0\<rparr> =
       Some (Inr b') \<and>
     parse_imp null_visitor (sbuffer_contents b') (length (sbuffer_contents b')) 0 () =
       Some (PARSE_SUCCESS, length (sbuffer_contents b'), ())"
proof (rule pack_object_parses)
  show "\<forall>n. grants granting_heap n" by (simp add: granting_heap_def)
  show "sbuffer_new granting_heap 0 = Inr \<lparr>sb_size = 0, sb_data = None, sb_alloc = 0\<rparr>" by (simp add: sbuffer_new_def)
  show "walk idle_fpu null_visitor (ARRAY [NIL, POSITIVE_INTEGER 7]) () = (VTrue, ())" by (simp add: null_visitor_def)
qed (simp_all add: enc_defs pack_defs)



text \<open>C23. The text of an object is the one given by structural recursion, with the elements separated by
  commas, whatever the nesting.\<close>

theorem stringize_is_text:
  assumes "mobj_ok ob"
  shows "stringize fp ft ob os = Some (os @ obj_text fp ft ob)"
  using assms by (rule stringize_text)

theorem stringize_is_text_witness:
  "stringize idle_fpu \<lparr>show_float = \<lambda>_. [], show_double = \<lambda>_. []\<rparr> card_obj [1] =
     Some ([1] @ obj_text idle_fpu \<lparr>show_float = \<lambda>_. [], show_double = \<lambda>_. []\<rparr> card_obj)"
  by (rule stringize_is_text [OF card_obj_ok])

text \<open>C24. A string of any bytes is printed as a literal from which a reader of JSON gets the string back,
  and the text after it.\<close>

theorem printed_string_reads_back:
  assumes "length bs < 2 ^ 32"
  shows "\<exists>text. stringize fp ft (STR_t bs) [] = Some (0x22 # text) \<and> read_string (Suc (length bs)) (text @ rest) = Some (bs, rest)"
  using stringize_text [of "STR_t bs" fp ft "[]"] read_string_escape [of bs "Suc (length bs)" rest] assms by simp

theorem printed_string_reads_back_witness:
  "\<exists>text. stringize idle_fpu \<lparr>show_float = \<lambda>_. [], show_double = \<lambda>_. []\<rparr> (STR_t [0x22, 0, 0xff, 0x5c]) [] = Some (0x22 # text) \<and>
     read_string (Suc (length [0x22, 0, 0xff, 0x5c :: byte])) (text @ [44]) = Some ([0x22, 0, 0xff, 0x5c], [44])"
  by (rule printed_string_reads_back) simp

section \<open>The zone\<close>

text \<open>C25. The memory that a series of requests gets from a zone: the blocks are aligned, apart from each
  other and from everything handed out before, and the zone stays well formed; a request fails only when
  \<^verbatim>\<open>malloc\<close> does.\<close>

theorem zone_blocks_apart:
  assumes "malloc_ok al" and "zone_ok al z" and "list_all req_ok reqs" and "alloc_all (allocate_align al) reqs z = (rs, z')"
  shows "zone_ok al z' \<and> list_all (\<lambda>(p, n, a). a dvd p \<and> addr_block p n \<subseteq> used_memory z' - used_memory z) (granted reqs rs) \<and>
     sorted_wrt apart (granted reqs rs)"
proof -
  have ok: "malloc_ok al \<and> zone_ok al z" using assms(1,2) by simp
  show ?thesis
    using pool.alloc_all_apart [OF ok assms(3,4)] alloc_all_aligned [OF ok assms(3,4)]
    by (auto simp: list_all_iff case_prod_unfold)
qed

theorem zone_blocks_apart_witness:
  "\<exists>rs z'. alloc_all (allocate_align far_malloc) [(5, 1), (24, 8), (100, 16)] far_zone = (rs, z') \<and> zone_ok far_malloc z' \<and>
     list_all (\<lambda>(p, n, a). a dvd p \<and> addr_block p n \<subseteq> used_memory z' - used_memory far_zone) (granted [(5, 1), (24, 8), (100, 16)] rs) \<and>
     sorted_wrt apart (granted [(5, 1), (24, 8), (100, 16)] rs)"
proof -
  obtain rs z' where r: "alloc_all (allocate_align far_malloc) [(5, 1), (24, 8), (100, 16)] far_zone = (rs, z')" by force
  have "list_all req_ok [(5, 1), (24, 8), (100, 16)]" by simp
  from zone_blocks_apart [OF far_malloc_ok far_zone_ok(1) this r] r show ?thesis by blast
qed



text \<open>C27. Construction of an object in the zone: when it throws, or memory is short, no finalizer is left
  behind for it; otherwise exactly its destructor is pushed, and its memory is aligned and was not in use.\<close>

theorem zone_allocate_safe:
  assumes "malloc_ok al" and "zone_ok al z" and "fins_ok z" and "num + align \<le> 2 ^ 62" and "0 < align"
  shows "case zone_allocate al num align destruct construct z of
     (Inl x, z') \<Rightarrow> zone_ok al z' \<and> z_fins z' = z_fins z
   | (Inr p, z') \<Rightarrow> zone_ok al z' \<and> z_fins z' = z_fins z @ [destruct p] \<and> align dvd p \<and>
       addr_block p num \<subseteq> used_memory z' \<and> addr_block p num \<inter> used_memory z = {}"
  using zone_allocate_ok [OF assms, of destruct construct]
  by (cases "zone_allocate al num align destruct construct z") (simp split: sum.splits)

theorem zone_allocate_safe_witness:
  "case zone_allocate far_malloc 40 8 id (\<lambda>_. Some bad_alloc) far_zone of
     (Inl x, z') \<Rightarrow> zone_ok far_malloc z' \<and> z_fins z' = z_fins far_zone
   | (Inr p, z') \<Rightarrow> zone_ok far_malloc z' \<and> z_fins z' = z_fins far_zone @ [id p] \<and> 8 dvd p \<and>
       addr_block p 40 \<subseteq> used_memory z' \<and> addr_block p 40 \<inter> used_memory far_zone = {}"
  by (rule zone_allocate_safe [OF far_malloc_ok far_zone_ok(1)]) (simp_all add: fins_ok_def far_zone_def)

section \<open>Visitors that stop\<close>

text \<open>C28. A visitor that answers false, or throws, at any callback of a packed value stops the parser
  exactly there: the parser answers that it was stopped, or passes the exception on, with the visitor as
  that callback left it and the offset as it was.\<close>

theorem parse_stops:
  assumes "mobj_ok ob" and "walk fp V ob v = (r, v1)" and "r \<noteq> VTrue"
  shows "parse_imp V (pre @ enc_value fp ob @ post) (length (pre @ enc_value fp ob @ post)) (length pre) v =
     Some (ret_of r, length pre, v1)"
  using assms by (rule document_stops)

text \<open>A visitor that counts integers and refuses the second one.\<close>

definition one_integer :: "nat visitor" where
  "one_integer = null_visitor\<lparr>visit_positive_integer := \<lambda>_ k. if k = 0 then (VTrue, 1) else (VFalse, k)\<rparr>"

theorem parse_stops_witness:
  "parse_imp one_integer ([9] @ enc_value idle_fpu (ARRAY [POSITIVE_INTEGER 7, POSITIVE_INTEGER 8, NIL]) @ [])
     (length ([9] @ enc_value idle_fpu (ARRAY [POSITIVE_INTEGER 7, POSITIVE_INTEGER 8, NIL]) @ [])) (length [9 :: byte]) 0 =
     Some (ret_of VFalse, length [9 :: byte], 1)"
  by (rule parse_stops) (simp_all add: one_integer_def null_visitor_def)

section \<open>Streams that arrive in pieces\<close>




text \<open>C30. However a stream of bytes is cut into pieces, the buffering parser answers that it needs more
  after every piece but the last one, and then ends as one run over all the bytes does, with the same
  visitor; what it did not parse is kept for the next call.\<close>

theorem stream_any_cut:
  assumes "plain_holder ho I" and "\<forall>n. grants h n" and "parser_ok p" and "I (px_context p)"
    and "css \<noteq> []" and "[] \<notin> set css" and "length (concat css) + m_used p < 2 ^ 64"
    and "exec_bytes (ho_visitor ho) (unread p @ concat css) (px_context p) = Some (r, c)"
    and "r = PARSE_CONTINUE \<or> length (unread p @ concat (butlast css)) < m_current c"
  shows "\<exists>p'. parser_feeds ho h css p = Some (replicate (length css - 1) (Inr False) @ [next_answer r], p') \<and>
     parser_ok p' \<and> px_visitor p' = m_visitor c \<and>
     ((\<forall>x. r \<noteq> THROWN x) \<longrightarrow> unread p' = drop (m_current c) (unread p @ concat css) \<and> m_parsed p' = m_parsed p + m_current c)"
  using plain_holder.feeds_ok [OF assms] by (auto simp: px_visitor_def)

definition null_holder :: "unit holder" where
  "null_holder = \<lparr>ho_visitor = null_visitor, ho_referenced = \<lambda>_. False, ho_set_referenced = \<lambda>_. id, ho_hook = \<lambda>_. Pair None\<rparr>"

lemma null_holder_ok: "plain_holder null_holder ctx_ok"
proof
  show "same_place (ho_visitor null_holder) k" for k by (simp add: null_holder_def same_place_def null_visitor_def)
  show "ctx_ok c" if "ctx_ok d" "exec_bytes (ho_visitor null_holder) bs d = Some (PARSE_CONTINUE, c)" for bs c d
    using exec_bytes_total [OF that(1), of "ho_visitor null_holder" bs] that(2) by simp
qed (simp_all add: null_holder_def ctx_ok_def)

lemma first_parser: "\<exists>p. parser_new granting_heap 0 v = Inr p"
  by (simp add: parser_new_def malloc_def granting_heap_def)

lemma pair_bytes: "concat [[0x92], [1, 2 :: byte]] = enc_value idle_fpu (ARRAY [POSITIVE_INTEGER 1, POSITIVE_INTEGER 2])"
  by (simp add: enc_defs pack_defs)

lemma pair_visits: "visit_obj idle_fpu null_visitor (ARRAY [POSITIVE_INTEGER 1, POSITIVE_INTEGER 2]) () = Some ()"
  by (simp add: null_visitor_def vt_def)

theorem stream_any_cut_witness:
  "\<exists>p p'. parser_new granting_heap 0 () = Inr p \<and>
     parser_feeds null_holder granting_heap [[0x92], [1, 2]] p = Some ([Inr False, Inr True], p') \<and> unread p' = []"
proof -
  obtain p where p: "parser_new granting_heap 0 () = Inr p" using first_parser [of "()"] by (elim exE)
  then have q: "parser_ok p" "unread p = []" "m_used p = 4" "px_context p = context_new ()" using parser_new_ok [OF p] by simp_all
  obtain c where c: "exec_bytes null_visitor (concat [[0x92], [1, 2]]) (context_new ()) = Some (PARSE_SUCCESS, c)" "m_current c = 3"
    using execute_document [of "ARRAY [POSITIVE_INTEGER 1, POSITIVE_INTEGER 2]" "context_new ()"
        "concat [[0x92], [1, 2]]" 0 idle_fpu "length (concat [[0x92], [1, 2 :: byte]])" null_visitor "()"] pair_visits
    unfolding pair_bytes [symmetric] by (auto simp: exec_bytes_def context_new_def at_bytes_def simp del: visit_obj.simps)
  have "\<exists>p'. parser_feeds null_holder granting_heap [[0x92], [1, 2]] p =
      Some (replicate (length [[0x92], [1, 2 :: byte]] - 1) (Inr False) @ [next_answer PARSE_SUCCESS], p') \<and>
      parser_ok p' \<and> px_visitor p' = m_visitor c \<and>
      ((\<forall>x. PARSE_SUCCESS \<noteq> THROWN x) \<longrightarrow> unread p' = drop (m_current c) (unread p @ concat [[0x92], [1, 2]]) \<and> m_parsed p' = m_parsed p + m_current c)"
    by (rule stream_any_cut [OF null_holder_ok])
      (use q c in \<open>simp_all add: granting_heap_def ctx_ok_def context_new_def null_holder_def\<close>)
  then show ?thesis using p q(2) c(2) by (auto simp: next_answer_def)
qed

text \<open>C31. A packed value that arrives in pieces, cut anywhere: every piece but the last is answered with
  \<^verbatim>\<open>false\<close>, the last one with \<^verbatim>\<open>true\<close>, and then the visitor has received exactly the value.\<close>

theorem stream_document:
  assumes "plain_holder ho I" and "I (context_new v)" and "\<forall>n. grants h n" and "parser_new h n v = Inr p" and "n < 2 ^ 64" and "mobj_ok ob"
    and "visit_obj fp (ho_visitor ho) ob v = Some v'"
    and "[] \<notin> set css" and "concat css = enc_value fp ob" and "length (enc_value fp ob) + 4 < 2 ^ 64"
  shows "\<exists>p'. parser_feeds ho h css p = Some (replicate (length css - 1) (Inr False) @ [Inr True], p') \<and>
     px_visitor p' = v' \<and> nonparsed_size p' = 0 \<and> parsed_size p' = length (enc_value fp ob)"
proof -
  have p: "parser_ok p" "unread p = []" "m_used p = 4" "m_parsed p = 0" "px_context p = context_new v"
    using parser_new_ok [OF assms(4,5)] by blast+
  have I: "I (px_context p)" using assms(2) by (simp add: p(5))
  have ctx: "m_cs (px_context p) = MSGPACK_CS_HEADER" "m_stack (px_context p) = []" "px_visitor p = v"
    by (simp_all add: p(5) context_new_def px_visitor_def)
  obtain p' where p': "parser_feeds ho h css p = Some (replicate (length css - 1) (Inr False) @ [Inr True], p')" "parser_ok p'"
      "px_visitor p' = v'" "unread p' = []" "m_parsed p' = length (enc_value fp ob)"
    using plain_holder.stream_ok [OF assms(1) I assms(3) p(1) ctx(1,2) p(2) assms(6), of fp v' css] assms(7-10) p(3,4) ctx(3) by auto
  moreover have "nonparsed_size p' = length (unread p')" by (rule nonparsed_size_unread [OF p'(2)])
  ultimately show ?thesis by (simp add: parsed_size_def)
qed

theorem stream_document_witness:
  "\<exists>p p'. parser_new granting_heap 0 () = Inr p \<and>
     parser_feeds null_holder granting_heap [[0x92], [1], [2]] p = Some ([Inr False, Inr False, Inr True], p') \<and> parsed_size p' = 3"
proof -
  obtain p where p: "parser_new granting_heap 0 () = Inr p" using first_parser [of "()"] by (elim exE)
  have "\<exists>p'. parser_feeds null_holder granting_heap [[0x92], [1], [2]] p =
      Some (replicate (length [[0x92], [1], [2 :: byte]] - 1) (Inr False) @ [Inr True], p') \<and> px_visitor p' = () \<and>
      nonparsed_size p' = 0 \<and> parsed_size p' = length (enc_value idle_fpu (ARRAY [POSITIVE_INTEGER 1, POSITIVE_INTEGER 2]))"
    by (rule stream_document [OF null_holder_ok context_new_ok _ p])
      (simp_all add: granting_heap_def null_holder_def pair_visits enc_defs pack_defs del: visit_obj.simps)
  then show ?thesis using p unfolding pair_bytes [symmetric] by (auto simp: numeral_2_eq_2)
qed

text \<open>C32. After \<open>reserve_buffer\<close> there is room for the bytes asked for inside the block, or an exception was
  thrown; in either case the bytes that are not parsed are the same, and no access is outside of a block.\<close>

theorem reserve_buffer_room:
  assumes "parser_ok p" and "sz + m_used p < 2 ^ 64"
  shows "\<exists>x p'. reserve_buffer ho h sz p = Some (x, p') \<and> parser_ok p' \<and> unread p' = unread p \<and> parsed_size p' = parsed_size p \<and>
     m_used p' \<le> m_used p \<and> (x = None \<longrightarrow> sz \<le> m_free p') \<and>
     (\<not> ho_referenced ho (px_visitor p) \<and> (\<forall>n. grants h n) \<longrightarrow> x = None)"
proof -
  obtain b where "px_heap p (m_buffer p) = Some b" using assms(1) by (rule parser_okE)
  from reserve_ok [OF assms(1) this assms(2), of ho h] show ?thesis by (auto simp: same_stream_def parsed_size_def)
qed

theorem reserve_buffer_room_witness:
  "\<exists>p p'. parser_new granting_heap 0 () = Inr p \<and> reserve_buffer null_holder granting_heap 1000 p = Some (None, p') \<and> 1000 \<le> m_free p'"
proof -
  obtain p where p: "parser_new granting_heap 0 () = Inr p" using first_parser [of "()"] by (elim exE)
  then have "parser_ok p" "1000 + m_used p < 2 ^ 64" using parser_new_ok [OF p] by simp_all
  from reserve_buffer_room [OF this, of null_holder granting_heap] show ?thesis using p by (auto simp: null_holder_def granting_heap_def)
qed

section \<open>The unpacker and its callers\<close>










section \<open>Accepts and requests\<close>










text \<open>C38. Posting an accept for a client, whatever Windows answers: either it is in flight, with a connection
  and an object that were not in use, tied together, entered in the map and ready for the first bytes, or
  nothing is in use that was not before and no entry of its own is left in the map. (A connection object that
  must be created needs memory: the code stores through the pointer before it tests it.)\<close>

theorem accept_post_all_or_nothing:
  assumes "rsock_room_ok e w" and "robj_pool_ok w" and "v_RSock w \<noteq> [] \<or> (\<forall>t. heap_ok e t)" and "lsocks w l = Some ls"
  shows "\<exists>ok w'. Client_PostAcceptEx e l w = Some (ok, w') \<and>
     rsock_room_ok e w' \<and> robj_pool_ok w' \<and> others_kept w w' \<and>
     (if ok then \<exists>ro rp rs.
        pending w' = pending w @ [(KeyL l, RO ro)] \<and>
        ro \<notin> pool_use (v_RObj w) (robjs w) \<and> pool_use (v_RObj w') (robjs w') = insert ro (pool_use (v_RObj w) (robjs w)) \<and>
        rp \<notin> pool_use (v_RSock w) (rsocks w) \<and> pool_use (v_RSock w') (rsocks w') = insert rp (pool_use (v_RSock w) (rsocks w)) \<and>
        lsocks w' = (lsocks w)(l \<mapsto> InsertIntoPendingMap (rs_nKey rs) (RS rp) ls) \<and>
        accept_posted l ro rp rs (InsertIntoPendingMap (rs_nKey rs) (RS rp) ls) w' \<and>
        accept_ready e w' rs \<and> rs_sock rs \<noteq> INVALID_SOCKET
      else
        pending w' = pending w \<and> pool_use (v_RObj w') (robjs w') = pool_use (v_RObj w) (robjs w) \<and>
        pool_use (v_RSock w') (rsocks w') = pool_use (v_RSock w) (rsocks w) \<and>
        (\<exists>ls'. lsocks w' = (lsocks w)(l \<mapsto> ls') \<and>
           (pending_map ls' = pending_map ls \<or> (\<exists>k. pending_map ls' = (pending_map ls)(k := None)))))"
  using Client_PostAcceptEx_outcome [OF assms] unfolding accept_outcome_def .

abbreviation (input) listening :: listen_sock where
  "listening \<equiv> \<lparr>sListenSock = 9, fpAcceptex = Some Client_PostAcceptEx_fp, hPostAcceptexEvent = 1, acceptPendingMap = []\<rparr>"

abbreviation (input) listening_world :: world where
  "listening_world \<equiv> boot_world\<lparr>lsocks := [1 \<mapsto> listening], next_addr := 2, g_dwPagesize := 4096\<rparr>"

theorem accept_post_all_or_nothing_witness:
  "\<exists>ok w'. Client_PostAcceptEx calm_env 1 listening_world = Some (ok, w') \<and>
     rsock_room_ok calm_env w' \<and> robj_pool_ok w'"
proof -
  have "rsock_room_ok calm_env listening_world" "robj_pool_ok listening_world" "\<forall>t. heap_ok calm_env t"
    "lsocks listening_world 1 = Some listening"
    by (simp_all add: rsock_room_ok_def rsock_pool_ok_def robj_pool_ok_def pool_inv_def boot_world_def calm_env_def)
  from accept_post_all_or_nothing [OF this(1,2) disjI2 [OF this(3)] this(4)] show ?thesis by blast
qed

text \<open>C39. The sweep over the map of pending accepts closes exactly the sockets that have been connected for more
  than sixty seconds without a byte, each once, and changes nothing else; the failure packet of such an accept
  then returns both of its objects and its entry in the map and does not close the socket again.\<close>

theorem idle_accepts_swept:
  assumes "\<forall>kp \<in> set ps. ref_sock (snd kp) w \<noteq> None" and "distinct (map snd ps)"
    and "accept_posted l ro rp rs ls w" and "RS rp \<in> set (idle_socks e (tick w) ps)"
    and "pk_key pk = KeyL l" and "lpol pk = Some (RO ro)" and "\<not> bSuccess pk"
  shows "\<exists>w1 w2. sweep e ps w = Some w1 \<and>
     trace w1 = trace w @ map (\<lambda>p. Closed (the (ref_sock p w))) (idle_socks e (tick w) ps) \<and>
     (\<forall>p. ref_sock p w1 = (if p \<in> set (idle_socks e (tick w) ps) then Some INVALID_SOCKET else ref_sock p w)) \<and>
     worker_packet e pk w1 = Some (False, w2) \<and> trace w2 = trace w1 \<and>
     rsock_pool_ok w2 \<and> pool_use (v_RSock w2) (rsocks w2) = pool_use (v_RSock w) (rsocks w) - {rp} \<and>
     robj_pool_ok w2 \<and> pool_use (v_RObj w2) (robjs w2) = pool_use (v_RObj w) (robjs w) - {ro} \<and>
     lsocks w2 = (lsocks w)(l \<mapsto> DeleteFromPendingMap (rs_nKey rs) ls)"
  using assms by (rule idle_accept_ends)

definition fresh_conn :: "nat \<Rightarrow> recv_sock" where
  "fresh_conn n = (zero_recv_sock n)\<lparr>rs_nKey := 5, rs_sock := 7, lstSend := Some [], dwBufsize := of_nat n,
     bEmpty := True, nRef := 1\<rparr>"

abbreviation (input) waiting :: listen_sock where
  "waiting \<equiv> listening\<lparr>acceptPendingMap := [(5, RS 2)]\<rparr>"

abbreviation (input) accept_obj :: recv_obj where
  "accept_obj \<equiv> \<lparr>ro_fpSuccess = Some Client_AcceptCompletion, ro_fpFailed = Some Client_AcceptCompletion, ro_pRelateSock = 2\<rparr>"

abbreviation (input) waiting_world :: "recv_sock \<Rightarrow> world" where
  "waiting_world rs \<equiv> boot_world\<lparr>lsocks := [1 \<mapsto> waiting], rsocks := [2 \<mapsto> rs], robjs := [3 \<mapsto> accept_obj],
     next_addr := 4, g_dwPagesize := 4096\<rparr>"

lemma waiting_posted: "lstSend rs \<noteq> None \<Longrightarrow> accept_posted 1 3 2 rs waiting (waiting_world rs)"
  by (simp add: accept_posted_def rsock_pool_ok_def robj_pool_ok_def pool_inv_def pool_use_def boot_world_def)

theorem idle_accepts_swept_witness:
  "\<exists>w1 w2. sweep calm_env [(5, RS 2)] (waiting_world (fresh_conn 16)) = Some w1 \<and> trace w1 = [Closed 7] \<and>
     worker_packet calm_env \<lparr>bSuccess = False, pk_dwTranstion = 0, pk_key = KeyL 1, lpol = Some (RO 3)\<rparr> w1 = Some (False, w2) \<and>
     trace w2 = [Closed 7] \<and> pool_use (v_RSock w2) (rsocks w2) = {}"
proof -
  let ?w = "waiting_world (fresh_conn 16)"
  have i: "idle_socks calm_env (tick ?w) [(5, RS 2)] = [RS 2]"
    by (simp add: idle_at_def calm_env_def)
  have w: "ref_sock (RS 2) ?w = Some 7" "trace ?w = []" "pool_use (v_RSock ?w) (rsocks ?w) = {2}"
    by (simp_all add: fresh_conn_def boot_world_def pool_use_def)
  have "\<forall>kp \<in> set [(5 :: int, RS 2)]. ref_sock (snd kp) ?w \<noteq> None" "distinct (map snd [(5 :: int, RS 2)])"
    using w(1) by simp_all
  moreover have "lstSend (fresh_conn 16) \<noteq> None" "RS 2 \<in> set (idle_socks calm_env (tick ?w) [(5, RS 2)])"
    by (simp add: fresh_conn_def) (simp only: i, simp)
  ultimately have "\<exists>w1 w2. sweep calm_env [(5, RS 2)] ?w = Some w1 \<and>
     trace w1 = trace ?w @ map (\<lambda>p. Closed (the (ref_sock p ?w))) [RS 2] \<and>
     worker_packet calm_env \<lparr>bSuccess = False, pk_dwTranstion = 0, pk_key = KeyL 1, lpol = Some (RO 3)\<rparr> w1 = Some (False, w2) \<and>
     trace w2 = trace w1 \<and> pool_use (v_RSock w2) (rsocks w2) = pool_use (v_RSock ?w) (rsocks ?w) - {2}"
    using idle_accepts_swept [OF _ _ waiting_posted, of "[(5, RS 2)]" "fresh_conn 16" calm_env
      "\<lparr>bSuccess = False, pk_dwTranstion = 0, pk_key = KeyL 1, lpol = Some (RO 3)\<rparr>"] unfolding i packet.simps by blast
  then show ?thesis unfolding w(2,3) using w(1) by (auto simp del: sweep.simps ref_sock.simps)
qed



end
